(* ===== verification/Prelude.thy ===== *)
theory Prelude
  imports Main "HOL-Library.Word"
begin

unbundle bit_operations_syntax

text \<open>
  Prelude of the development: machine types, the loop forms of the C code with their
  invariant rules, the arithmetic macros of \<open>Module/include/seeker.h\<close> and the
  collections of facts the component theories share.

  C arrays are total functions from \<open>int\<close>. The cells from 0 up to the declared size
  are the array; every other cell stands for whatever memory lies there, so a theorem
  that assumes nothing about those cells holds for any contents of it, and a theorem
  whose result depends on them shows an out-of-range access of the code.
  C \<open>int\<close>, \<open>short\<close> and \<open>atomic_t\<close> values that count CPUs, states, tasks or requests are
  \<open>int\<close>; unsigned and 64-bit values whose wrap-around the code can reach (cycle and
  instruction counts, idle times, sleep times, register contents, frequency indices)
  are words of their width.
\<close>

subsection \<open>Machine types\<close>

type_synonym u16 = "16 word"
type_synonym u32 = "32 word"
type_synonym u64 = "64 word"
type_synonym 'a arr = "int \<Rightarrow> 'a"

named_theorems exec "unfolding rules that run the loops and operations on concrete inputs"
named_theorems loop_closed "closed forms of the loops over arrays"

text \<open>Incrementing below the maximum does not wrap.\<close>

lemma word_inc_neq_0: "x \<noteq> - 1 \<Longrightarrow> 1 + x \<noteq> (0 :: 'a::len word)"
  by (metis add.commute add_eq_0_iff)

lemma unat_word_inc: "x \<noteq> - 1 \<Longrightarrow> unat (x + 1) = Suc (unat x)" for x :: "'a::len word"
  by (subst add.commute) (rule unatSuc [OF word_inc_neq_0])

lemma word_less_inc: "x \<noteq> - 1 \<Longrightarrow> x < x + 1" for x :: "'a::len word"
  by (simp add: word_less_nat_alt unat_word_inc)

subsection \<open>Counting loops\<close>

text \<open>\<open>for (i = a; i < n; i++) body\<close>: the body updates the loop's state.\<close>

function for_up :: "int \<Rightarrow> int \<Rightarrow> (int \<Rightarrow> 's \<Rightarrow> 's) \<Rightarrow> 's \<Rightarrow> 's" where
  "for_up i n body s = (if i < n then for_up (i + 1) n body (body i s) else s)"
  by pat_completeness auto
termination
  by (relation "measure (\<lambda>(i, n, body, s). nat (n - i))") auto

declare for_up.simps [simp del]

text \<open>The same loop with a \<open>break\<close>: the body also says whether it breaks out.\<close>

function for_break :: "int \<Rightarrow> int \<Rightarrow> (int \<Rightarrow> 's \<Rightarrow> bool \<times> 's) \<Rightarrow> 's \<Rightarrow> 's" where
  "for_break i n body s =
     (if i < n then
        (case body i s of (brk, t) \<Rightarrow> if brk then t else for_break (i + 1) n body t)
      else s)"
  by pat_completeness auto
termination
  by (relation "measure (\<lambda>(i, n, body, s). nat (n - i))") auto

declare for_break.simps [simp del]

text \<open>
  Searching loops: the first index upwards in \<open>[i, n)\<close>, or downwards from \<open>i\<close> to 0, where
  the test holds, and \<open>-1\<close> when there is none.
\<close>

function first_up :: "(int \<Rightarrow> bool) \<Rightarrow> int \<Rightarrow> int \<Rightarrow> int" where
  "first_up p i n = (if i < n then if p i then i else first_up p (i + 1) n else - 1)"
  by pat_completeness auto
termination
  by (relation "measure (\<lambda>(p, i, n). nat (n - i))") auto

function first_down :: "(int \<Rightarrow> bool) \<Rightarrow> int \<Rightarrow> int" where
  "first_down p i = (if 0 \<le> i then if p i then i else first_down p (i - 1) else - 1)"
  by pat_completeness auto
termination
  by (relation "measure (\<lambda>(p, i). nat (i + 1))") auto

declare first_up.simps [simp del] first_down.simps [simp del]

lemma for_up_end [exec, simp]: "n \<le> i \<Longrightarrow> for_up i n f s = s"
  by (simp add: for_up.simps)

lemma for_up_step [exec]: "i < n \<Longrightarrow> for_up i n f s = for_up (i + 1) n f (f i s)"
  by (subst for_up.simps) simp

lemma for_break_end [exec, simp]: "n \<le> i \<Longrightarrow> for_break i n f s = s"
  by (simp add: for_break.simps)

lemma for_break_step [exec]:
  "i < n \<Longrightarrow> for_break i n f s =
     (case f i s of (brk, t) \<Rightarrow> if brk then t else for_break (i + 1) n f t)"
  by (subst for_break.simps) simp

lemma first_up_end [exec, simp]: "n \<le> i \<Longrightarrow> first_up p i n = - 1"
  by (simp add: first_up.simps)

lemma first_up_step [exec]:
  "i < n \<Longrightarrow> first_up p i n = (if p i then i else first_up p (i + 1) n)"
  by (subst first_up.simps) simp

lemma first_down_end [exec, simp]: "i < 0 \<Longrightarrow> first_down p i = - 1"
  by (simp add: first_down.simps)

lemma first_down_step [exec]:
  "0 \<le> i \<Longrightarrow> first_down p i = (if p i then i else first_down p (i - 1))"
  by (subst first_down.simps) simp

lemma for_up_split_last: "i \<le> n \<Longrightarrow> for_up i (n + 1) f s = f n (for_up i n f s)"
proof (induction i n f s rule: for_up.induct)
  case (1 i n f s)
  show ?case
  proof (cases "i < n")
    case True
    with 1 show ?thesis by (simp add: for_up_step)
  next
    case False
    with 1(2) have "i = n" by simp
    then show ?thesis by (simp add: for_up_step)
  qed
qed

text \<open>Invariant rules: the invariant may mention the loop counter.\<close>

lemma for_up_inv:
  assumes "P i s" and "i \<le> n"
    and "\<And>j t. i \<le> j \<Longrightarrow> j < n \<Longrightarrow> P j t \<Longrightarrow> P (j + 1) (f j t)"
  shows "P n (for_up i n f s)"
  using assms
proof (induction i n f s rule: for_up.induct)
  case (1 i n f s)
  show ?case
  proof (cases "i < n")
    case True
    have "P n (for_up (i + 1) n f (f i s))"
      by (rule "1.IH" [OF True]) (use "1.prems" True in auto)
    with True show ?thesis by (simp add: for_up_step)
  next
    case False
    with "1.prems" show ?thesis by simp
  qed
qed

lemma for_up_preserves:
  assumes "P s" and "\<And>j t. i \<le> j \<Longrightarrow> j < n \<Longrightarrow> P t \<Longrightarrow> P (f j t)"
  shows "P (for_up i n f s)"
proof (cases "i \<le> n")
  case True
  show ?thesis by (rule for_up_inv [where P = "\<lambda>_. P", OF assms(1) True]) (rule assms(2))
next
  case False
  then show ?thesis using assms(1) by simp
qed

lemma for_break_inv:
  assumes "P i s" and "i \<le> n"
    and "\<And>j t b u. i \<le> j \<Longrightarrow> j < n \<Longrightarrow> P j t \<Longrightarrow> f j t = (b, u) \<Longrightarrow>
           (if b then Q u else P (j + 1) u)"
    and "\<And>t. P n t \<Longrightarrow> Q t"
  shows "Q (for_break i n f s)"
  using assms
proof (induction i n f s rule: for_break.induct)
  case (1 i n f s)
  show ?case
  proof (cases "i < n")
    case True
    obtain b u where bu: "f i s = (b, u)" by fastforce
    from "1.prems"(3) [OF order_refl True "1.prems"(1) bu]
    have step: "if b then Q u else P (i + 1) u" .
    show ?thesis
    proof (cases b)
      case True
      with step bu \<open>i < n\<close> show ?thesis by (simp add: for_break_step)
    next
      case False
      have "Q (for_break (i + 1) n f u)"
      proof (rule "1.IH" [OF \<open>i < n\<close> bu [symmetric] False])
        show "P (i + 1) u" using step False by simp
        show "i + 1 \<le> n" using \<open>i < n\<close> by simp
        show "if c then Q w else P (j + 1) w"
          if "i + 1 \<le> j" "j < n" "P j t" "f j t = (c, w)" for j t c w
          using "1.prems"(3) [of j t c w] that by simp
        show "Q t" if "P n t" for t
          using "1.prems"(4) that .
      qed
      with bu False \<open>i < n\<close> show ?thesis by (simp add: for_break_step)
    qed
  next
    case False
    with "1.prems" show ?thesis by simp
  qed
qed

lemma for_break_preserves:
  assumes "P s" and "\<And>j t. i \<le> j \<Longrightarrow> j < n \<Longrightarrow> P t \<Longrightarrow> P (snd (f j t))"
  shows "P (for_break i n f s)"
proof (cases "i \<le> n")
  case True
  show ?thesis
    by (rule for_break_inv [where P = "\<lambda>_. P" and Q = P, OF assms(1) True])
      (use assms(2) in \<open>fastforce split: if_splits\<close>)+
next
  case False
  then show ?thesis using assms(1) by simp
qed

text \<open>What the searching loops return.\<close>

lemma first_up_cases:
  assumes "0 \<le> i"
  obtains (none) "first_up p i n = - 1" and "\<And>k. i \<le> k \<Longrightarrow> k < n \<Longrightarrow> \<not> p k"
  | (hit) "i \<le> first_up p i n" and "first_up p i n < n" and "p (first_up p i n)"
      and "\<And>k. i \<le> k \<Longrightarrow> k < first_up p i n \<Longrightarrow> \<not> p k"
proof -
  have "(first_up p i n = - 1 \<and> (\<forall>k. i \<le> k \<and> k < n \<longrightarrow> \<not> p k)) \<or>
        (i \<le> first_up p i n \<and> first_up p i n < n \<and> p (first_up p i n) \<and>
         (\<forall>k. i \<le> k \<and> k < first_up p i n \<longrightarrow> \<not> p k))"
    using assms
  proof (induction p i n rule: first_up.induct)
    case (1 p i n)
    show ?case
    proof (cases "i < n \<and> \<not> p i")
      case True
      have "k = i \<or> i + 1 \<le> k" if "i \<le> k" for k
        using that by auto
      with True 1 show ?thesis
        by (simp add: first_up_step) (smt (verit, best))
    next
      case False
      then show ?thesis
        by (cases "i < n") (auto simp: first_up_step)
    qed
  qed
  then show thesis using none hit by blast
qed

lemma first_down_cases:
  obtains (none) "first_down p i = - 1" and "\<And>k. 0 \<le> k \<Longrightarrow> k \<le> i \<Longrightarrow> \<not> p k"
  | (hit) "0 \<le> first_down p i" and "first_down p i \<le> i" and "p (first_down p i)"
      and "\<And>k. first_down p i < k \<Longrightarrow> k \<le> i \<Longrightarrow> \<not> p k"
proof -
  have "(first_down p i = - 1 \<and> (\<forall>k. 0 \<le> k \<and> k \<le> i \<longrightarrow> \<not> p k)) \<or>
        (0 \<le> first_down p i \<and> first_down p i \<le> i \<and> p (first_down p i) \<and>
         (\<forall>k. first_down p i < k \<and> k \<le> i \<longrightarrow> \<not> p k))"
  proof (induction p i rule: first_down.induct)
    case (1 p i)
    show ?case
    proof (cases "0 \<le> i \<and> \<not> p i")
      case True
      have "k = i \<or> k \<le> i - 1" if "k \<le> i" for k
        using that by auto
      with True 1 show ?thesis
        by (simp add: first_down_step) (smt (verit, best))
    next
      case False
      then show ?thesis
        by (cases "0 \<le> i") (auto simp: first_down_step)
    qed
  qed
  then show thesis using none hit by blast
qed

subsection \<open>Closed forms of the loops over arrays\<close>

lemma for_up_fill [loop_closed]:
  "for_up i n (\<lambda>j a. a(j := g j)) a = (\<lambda>k. if i \<le> k \<and> k < n then g k else a k)"
proof (induction i n "\<lambda>j a. a(j := g j)" a rule: for_up.induct)
  case (1 i n a)
  show ?case
  proof (cases "i < n")
    case True
    with 1 show ?thesis by (auto simp: for_up_step fun_eq_iff)
  next
    case False
    then show ?thesis by (auto simp: fun_eq_iff)
  qed
qed

lemma atLeastLessThan_int_step: "i < n \<Longrightarrow> {i..<n::int} = insert i {i + 1..<n}"
  by auto

lemma for_up_sum [loop_closed]:
  "for_up i n (\<lambda>j t. t + g j) t = (t::'a::comm_monoid_add) + (\<Sum>j\<in>{i..<n}. g j)"
proof (induction i n "\<lambda>j t. t + g j" t rule: for_up.induct)
  case (1 i n t)
  show ?case
  proof (cases "i < n")
    case True
    with 1 show ?thesis
      by (simp add: for_up_step atLeastLessThan_int_step add.assoc)
  next
    case False
    then show ?thesis by simp
  qed
qed

text \<open>A loop that updates each record field of an array's elements from the element itself.\<close>

lemma for_up_map [loop_closed]:
  "for_up i n (\<lambda>j a. a(j := g j (a j))) a = (\<lambda>k. if i \<le> k \<and> k < n then g k (a k) else a k)"
proof (induction i n "\<lambda>j a. a(j := g j (a j))" a rule: for_up.induct)
  case (1 i n a)
  show ?case
  proof (cases "i < n")
    case True
    with 1 show ?thesis by (auto simp: for_up_step fun_eq_iff)
  next
    case False
    then show ?thesis by (auto simp: fun_eq_iff)
  qed
qed

text \<open>The number of indices of \<open>[0, n)\<close> where a test holds, and how a single update moves it.\<close>

definition count_if :: "(int \<Rightarrow> bool) \<Rightarrow> int \<Rightarrow> int" where
  "count_if p n = (\<Sum>i\<in>{0..<n}. if p i then 1 else 0)"

lemma count_if_card: "count_if p n = int (card {i \<in> {0..<n}. p i})"
  by (simp add: count_if_def sum.If_cases Int_def conj_commute)

lemma count_if_nonneg [simp]: "0 \<le> count_if p n"
  by (simp add: count_if_card)

lemma count_if_le: "0 \<le> n \<Longrightarrow> count_if p n \<le> n"
proof -
  assume "0 \<le> n"
  have "card {i \<in> {0..<n}. p i} \<le> card {0..<n}"
    by (rule card_mono) auto
  with \<open>0 \<le> n\<close> show ?thesis by (simp add: count_if_card)
qed

lemma count_if_cong: "(\<And>i. 0 \<le> i \<Longrightarrow> i < n \<Longrightarrow> p i = q i) \<Longrightarrow> count_if p n = count_if q n"
  by (auto simp: count_if_def intro!: sum.cong)

lemma count_if_Suc: "0 \<le> n \<Longrightarrow> count_if p (n + 1) = count_if p n + (if p n then 1 else 0)"
proof -
  assume "0 \<le> n"
  then have "{0..<n + 1} = insert n {0..<n}" by auto
  then show ?thesis by (simp add: count_if_def)
qed

lemma count_if_0 [simp]: "count_if p 0 = 0"
  by (simp add: count_if_def)

lemma count_if_upd:
  assumes "0 \<le> k" and "k < n" and "\<And>i. i \<noteq> k \<Longrightarrow> q i = p i"
  shows "count_if q n = count_if p n + (if q k then 1 else 0) - (if p k then 1 else 0)"
proof -
  have "(\<Sum>i\<in>{0..<n}. if q i then 1 else (0::int)) =
        (if q k then 1 else 0) + (\<Sum>i\<in>{0..<n} - {k}. if q i then 1 else 0)"
    using assms(1,2) by (simp add: sum.remove)
  moreover have "(\<Sum>i\<in>{0..<n}. if p i then 1 else (0::int)) =
        (if p k then 1 else 0) + (\<Sum>i\<in>{0..<n} - {k}. if p i then 1 else 0)"
    using assms(1,2) by (simp add: sum.remove)
  moreover have "(\<Sum>i\<in>{0..<n} - {k}. if q i then 1 else (0::int)) =
        (\<Sum>i\<in>{0..<n} - {k}. if p i then 1 else 0)"
    using assms(3) by (intro sum.cong) auto
  ultimately show ?thesis by (simp add: count_if_def)
qed

lemma count_if_all:
  assumes "0 \<le> n"
  shows "count_if p n = n \<longleftrightarrow> (\<forall>i. 0 \<le> i \<and> i < n \<longrightarrow> p i)"
proof
  assume "count_if p n = n"
  then have "card {i \<in> {0..<n}. p i} = card {0..<n}"
    using assms by (simp add: count_if_card)
  then have "{i \<in> {0..<n}. p i} = {0..<n}"
    by (intro card_subset_eq) auto
  then show "\<forall>i. 0 \<le> i \<and> i < n \<longrightarrow> p i"
    by (metis (mono_tags, lifting) atLeastLessThan_iff mem_Collect_eq)
next
  assume "\<forall>i. 0 \<le> i \<and> i < n \<longrightarrow> p i"
  then have "{i \<in> {0..<n}. p i} = {0..<n}" by auto
  with assms show "count_if p n = n" by (simp add: count_if_card)
qed

lemma count_if_pos:
  assumes "0 \<le> k" and "k < n" and "p k"
  shows "0 < count_if p n"
proof -
  have "finite {i \<in> {0..<n}. p i}" by (rule finite_subset [of _ "{0..<n}"]) auto
  moreover have "k \<in> {i \<in> {0..<n}. p i}" using assms by auto
  ultimately have "0 < card {i \<in> {0..<n}. p i}" by (metis card_gt_0_iff empty_iff)
  then show ?thesis by (simp add: count_if_card)
qed

lemma count_if_less_ex: "0 \<le> n \<Longrightarrow> count_if p n < n \<Longrightarrow> \<exists>i. 0 \<le> i \<and> i < n \<and> \<not> p i"
  using count_if_all [of n p] by (metis less_irrefl)

subsection \<open>The macros of \<open>seeker.h\<close>\<close>

definition ABS :: "int \<Rightarrow> int" where
  "ABS i = (if 0 \<le> i then i else (- 1) * i)"

lemma ABS_abs [simp]: "ABS i = \<bar>i\<bar>"
  by (simp add: ABS_def)

text \<open>C's integer division truncates towards zero.\<close>

definition c_quot :: "int \<Rightarrow> int \<Rightarrow> int" where
  "c_quot a b = sgn a * sgn b * (\<bar>a\<bar> div \<bar>b\<bar>)"

text \<open>The rounding division \<open>div(a,b)\<close>, on \<open>int\<close> and on \<open>u64\<close> operands.\<close>

definition div_int :: "int \<Rightarrow> int \<Rightarrow> int" where
  "div_int a b = (if b \<noteq> 0 then c_quot (2 * a + b) (2 * b) else 0)"

definition div_u64 :: "u64 \<Rightarrow> u64 \<Rightarrow> u64" where
  "div_u64 a b = (if b \<noteq> 0 then (push_bit 1 a + b) div (push_bit 1 b) else 0)"

lemma c_quot_nonneg: "0 \<le> a \<Longrightarrow> 0 < b \<Longrightarrow> c_quot a b = a div b"
  by (cases "a = 0") (auto simp: c_quot_def sgn_if)

text \<open>The macro rounds to the nearest integer.\<close>

lemma div_int_nearest:
  assumes "0 \<le> a" and "0 < b"
  shows "2 * b * div_int a b \<le> 2 * a + b" and "2 * a + b < 2 * b * (div_int a b + 1)"
proof -
  have *: "div_int a b = (2 * a + b) div (2 * b)"
    using assms by (simp add: div_int_def c_quot_nonneg)
  have "2 * b * ((2 * a + b) div (2 * b)) + (2 * a + b) mod (2 * b) = 2 * a + b"
    by (rule mult_div_mod_eq)
  moreover have "0 \<le> (2 * a + b) mod (2 * b)" and "(2 * a + b) mod (2 * b) < 2 * b"
    using assms by auto
  ultimately show "2 * b * div_int a b \<le> 2 * a + b" and "2 * a + b < 2 * b * (div_int a b + 1)"
    unfolding * by (auto simp: algebra_simps)
qed

lemma div_int_nonneg: "0 \<le> a \<Longrightarrow> 0 < b \<Longrightarrow> 0 \<le> div_int a b"
  by (simp add: div_int_def c_quot_nonneg pos_imp_zdiv_nonneg_iff)

subsection \<open>What the modules call in the kernel\<close>

text \<open>
  The kernel services outside the repository, as seen during one activation of a handler:
  the tick rate and the tick counter, the run-queue lengths (\<open>get_cpu_nr_running\<close> of the
  kernel patch), the idle and I/O-wait times of \<open>kstat_cpu\<close>, \<open>msecs_to_jiffies\<close>, the slab
  allocator (given the addresses in use it returns a block or NULL), the success of creating a
  slab cache and of \<open>kmalloc\<close>, the return value of registering a misc device,
  the return value of the cpufreq driver's \<open>target\<close> for a CPU, a frequency, the locking
  flavour and the number of the attempt, the driver's frequency table of a CPU (its entries
  up to \<open>CPUFREQ_TABLE_END\<close>) and the mark of its invalid entries, the number of online CPUs and \<open>NR_CPUS\<close>,
  the time stamp counter of each CPU, the mask a task ends up with after \<open>set_cpus_allowed_ptr\<close> (given
  the task, its mask and the requested one), the result of registering a probe at a kernel symbol, the
  order in which \<open>on_each_cpu\<close> reaches the CPUs and what it returns for a function.
\<close>

record kenv =
  HZ :: int
  jiffies :: u64
  nr_running :: "int \<Rightarrow> nat"
  kstat_idle :: "int \<Rightarrow> u64"
  kstat_iowait :: "int \<Rightarrow> u64"
  msecs_to_jiffies :: "int \<Rightarrow> u32"
  kmem_cache_alloc :: "(nat \<Rightarrow> bool) \<Rightarrow> nat option"
  kmem_cache_create_ok :: bool
  misc_register_ret :: int
  kmalloc_ok :: bool
  cpufreq_target :: "int \<Rightarrow> u32 \<Rightarrow> bool \<Rightarrow> nat \<Rightarrow> int"
  cpufreq_frequency_get_table :: "int \<Rightarrow> u32 list"
  CPUFREQ_ENTRY_INVALID :: u32
  num_online_cpus :: int
  NR_CPUS :: int
  native_read_tsc :: "int \<Rightarrow> u64"
  set_cpus_allowed_ptr :: "nat \<Rightarrow> int set \<Rightarrow> int set \<Rightarrow> int set"
  register_probe :: "string \<Rightarrow> int"
  on_each_cpu_order :: "int list"
  on_each_cpu_ret :: "string \<Rightarrow> int"

text \<open>An error number of the kernel that several modules return.\<close>

definition ENODEV :: int where "ENODEV = 19"

text \<open>The slab allocator never hands out a block that is in use.\<close>

definition alloc_fresh :: "kenv \<Rightarrow> bool" where
  "alloc_fresh env \<longleftrightarrow> (\<forall>used a. kmem_cache_alloc env used = Some a \<longrightarrow> \<not> used a)"

lemma alloc_freshD: "alloc_fresh env \<Longrightarrow> kmem_cache_alloc env used = Some a \<Longrightarrow> \<not> used a"
  unfolding alloc_fresh_def by blast

subsection \<open>A concrete kernel\<close>

text \<open>
  The environment the concrete instances below run in: two CPUs, 1000 ticks a second, an
  allocator that takes the first free address, a driver that accepts everything and a
  frequency table with one invalid entry.
\<close>

definition ex_alloc :: "(nat \<Rightarrow> bool) \<Rightarrow> nat option" where
  "ex_alloc used = (if \<not> used 0 then Some 0 else if \<not> used 1 then Some 1
     else if \<not> used 2 then Some 2 else None)"

definition ex_env :: kenv where
  "ex_env = \<lparr>HZ = 1000, jiffies = 5000, nr_running = (\<lambda>_. 0)(0 := 1, 1 := 2),
     kstat_idle = (\<lambda>_. 0), kstat_iowait = (\<lambda>_. 0), msecs_to_jiffies = of_int,
     kmem_cache_alloc = ex_alloc, kmem_cache_create_ok = True, misc_register_ret = 0,
     kmalloc_ok = True, cpufreq_target = (\<lambda>_ _ _ _. 0),
     cpufreq_frequency_get_table = (\<lambda>_. [3, 1, 0, 2]), CPUFREQ_ENTRY_INVALID = 0,
     num_online_cpus = 2, NR_CPUS = 4, native_read_tsc = (\<lambda>_. 9000),
     set_cpus_allowed_ptr = (\<lambda>_ _ m. m), register_probe = (\<lambda>_. 0), on_each_cpu_order = [0, 1],
     on_each_cpu_ret = (\<lambda>_. 0)\<rparr>"

lemma ex_alloc_fresh: "alloc_fresh ex_env"
  by (simp add: alloc_fresh_def ex_env_def ex_alloc_def)


end
