(* ===== verification/Freq_Users.thy ===== *)
theory Freq_Users
  imports Prelude
begin

text \<open>
  The user registry of the cpufreq governor (\<open>Module/seeker-cpufreq/user.c\<close>,
  \<open>Module/include/seeker_cpufreq.h\<close>): clients register a \<open>struct scpufreq_user\<close> with an
  \<open>inform\<close> callback and are told of every frequency change. The linked list of
  \<open>scpufreq_user_list\<close> nodes is the list of their \<open>user\<close> pointers, in link order; the
  structs themselves live in \<open>user_store\<close>, because registration writes the identifier
  into the client's struct. Each call runs under \<open>user_lock\<close>, so it is one step.
\<close>

subsection \<open>State\<close>

text \<open>A callback is named by a number (a function pointer; \<open>None\<close> is NULL).\<close>

record scpufreq_user =
  inform :: "nat option"
  user_id :: u32

record usr_st =
  user_store :: "nat \<Rightarrow> scpufreq_user"
  user_head :: "nat list"
  current_highest_id :: u32

definition ERR_USER_EXISTS :: int where "ERR_USER_EXISTS = - 1"
definition ERR_USER_MEM_LOW :: int where "ERR_USER_MEM_LOW = - 2"
definition ERR_INV_USER :: int where "ERR_INV_USER = - 3"
definition ERR_INV_CALLBACK :: int where "ERR_INV_CALLBACK = - 4"

lemmas err_defs = ERR_USER_EXISTS_def ERR_USER_MEM_LOW_def ERR_INV_USER_def ERR_INV_CALLBACK_def

subsection \<open>Operations\<close>

text \<open>
  A failed \<open>kmalloc\<close> leaves NULL behind the last node (or in \<open>user_head\<close>), that is, the
  list as it was.
\<close>

definition create_user ::
    "kenv \<Rightarrow> nat option \<Rightarrow> 'a usr_st_scheme \<Rightarrow> int \<times> 'a usr_st_scheme" where
  "create_user env u s =
     (case u of
        None \<Rightarrow> (ERR_INV_USER, s)
      | Some p \<Rightarrow>
          if inform (user_store s p) = None then (ERR_INV_CALLBACK, s)
          else if \<not> kmalloc_ok env then (ERR_USER_MEM_LOW, s)
          else (0, s\<lparr>user_head := user_head s @ [p],
                     user_store := (user_store s)
                       (p := (user_store s p)\<lparr>user_id := current_highest_id s\<rparr>),
                     current_highest_id := current_highest_id s + 1\<rparr>))"

text \<open>Unlink the first node whose user carries the identifier; \<open>None\<close> if there is none.\<close>

fun unlink_user :: "(nat \<Rightarrow> u32) \<Rightarrow> u32 \<Rightarrow> nat list \<Rightarrow> nat list option" where
  "unlink_user ident x [] = None"
| "unlink_user ident x (i # rest) =
     (if ident i \<noteq> x then map_option ((#) i) (unlink_user ident x rest) else Some rest)"

definition destroy_user ::
    "nat option \<Rightarrow> 'a usr_st_scheme \<Rightarrow> int \<times> 'a usr_st_scheme" where
  "destroy_user u s =
     (case u of
        None \<Rightarrow> (ERR_INV_USER, s)
      | Some p \<Rightarrow>
          if inform (user_store s p) = None then (ERR_INV_CALLBACK, s)
          else
            (case unlink_user (\<lambda>i. user_id (user_store s i)) (user_id (user_store s p))
                    (user_head s) of
               None \<Rightarrow> (ERR_INV_USER, s)
             | Some rest \<Rightarrow> (0, s\<lparr>user_head := rest\<rparr>)))"

text \<open>
  The walk over the users: \<open>call c cpu state\<close> runs callback \<open>c\<close>; the return codes are or-ed
  and only decide whether a warning is printed.
\<close>

fun inform_walk ::
    "(nat \<Rightarrow> int \<Rightarrow> int \<Rightarrow> 'a usr_st_scheme \<Rightarrow> int \<times> 'a usr_st_scheme) \<Rightarrow> int \<Rightarrow> int \<Rightarrow>
     nat list \<Rightarrow> int \<times> 'a usr_st_scheme \<Rightarrow> int \<times> 'a usr_st_scheme" where
  "inform_walk call cpu state [] (dummy_ret, s) = (dummy_ret, s)"
| "inform_walk call cpu state (i # rest) (dummy_ret, s) =
     inform_walk call cpu state rest
       (case inform (user_store s i) of
          None \<Rightarrow> (dummy_ret, s)
        | Some c \<Rightarrow> (case call c cpu state s of (r, t) \<Rightarrow> (dummy_ret OR r, t)))"

definition inform_freq_change ::
    "(nat \<Rightarrow> int \<Rightarrow> int \<Rightarrow> 'a usr_st_scheme \<Rightarrow> int \<times> 'a usr_st_scheme) \<Rightarrow> int \<Rightarrow> int \<Rightarrow>
     'a usr_st_scheme \<Rightarrow> 'a usr_st_scheme" where
  "inform_freq_change call cpu state s =
     snd (inform_walk call cpu state (user_head s) (0, s))"

definition register_scpufreq_user ::
    "kenv \<Rightarrow> nat option \<Rightarrow> 'a usr_st_scheme \<Rightarrow> int \<times> 'a usr_st_scheme" where
  "register_scpufreq_user env u s = create_user env u s"

definition deregister_scpufreq_user ::
    "nat option \<Rightarrow> 'a usr_st_scheme \<Rightarrow> int \<times> 'a usr_st_scheme" where
  "deregister_scpufreq_user u s = destroy_user u s"

definition init_user_interface :: "'a usr_st_scheme \<Rightarrow> 'a usr_st_scheme" where
  "init_user_interface s = s\<lparr>user_head := []\<rparr>"

text \<open>The walk that frees every node ends with the empty list.\<close>

fun free_nodes :: "nat list \<Rightarrow> nat list" where
  "free_nodes [] = []"
| "free_nodes (i # rest) = free_nodes rest"

definition exit_user_interface :: "'a usr_st_scheme \<Rightarrow> 'a usr_st_scheme" where
  "exit_user_interface s = s\<lparr>user_head := free_nodes (user_head s)\<rparr>"

subsection \<open>Well-formed registries\<close>

text \<open>
  Every registered identifier was handed out by the counter, no struct is registered twice
  and no two registered structs share an identifier.
\<close>

definition users_ok :: "'a usr_st_scheme \<Rightarrow> bool" where
  "users_ok s \<longleftrightarrow>
     distinct (map (\<lambda>p. user_id (user_store s p)) (user_head s)) \<and>
     (\<forall>p \<in> set (user_head s). user_id (user_store s p) < current_highest_id s) \<and>
     (\<forall>p \<in> set (user_head s). inform (user_store s p) \<noteq> None)"

lemma unlink_user_None: "unlink_user ident x ps = None \<longleftrightarrow> (\<forall>p \<in> set ps. ident p \<noteq> x)"
  by (induction ps) auto

lemma unlink_user_append:
  "\<forall>p \<in> set ps. ident p \<noteq> x \<Longrightarrow> ident q = x \<Longrightarrow> unlink_user ident x (ps @ [q]) = Some ps"
  by (induction ps) auto

lemma unlink_user_remove1:
  "distinct (map ident ps) \<Longrightarrow> p \<in> set ps \<Longrightarrow> unlink_user ident (ident p) ps = Some (remove1 p ps)"
  by (induction ps) auto

lemma destroy_user_registered:
  assumes "users_ok s" and "p \<in> set (user_head s)"
  shows "destroy_user (Some p) s = (0, s\<lparr>user_head := remove1 p (user_head s)\<rparr>)"
proof -
  have "unlink_user (\<lambda>i. user_id (user_store s i)) (user_id (user_store s p)) (user_head s) =
      Some (remove1 p (user_head s))"
    using assms by (intro unlink_user_remove1 [where ident = "\<lambda>i. user_id (user_store s i)"])
      (simp_all add: users_ok_def)
  moreover obtain c where "inform (user_store s p) = Some c"
    using assms by (auto simp: users_ok_def)
  ultimately show ?thesis by (simp add: destroy_user_def)
qed

lemma create_user_ok:
  assumes "users_ok s" and "p \<notin> set (user_head s)" and "current_highest_id s \<noteq> - 1"
    and "create_user env (Some p) s = (0, t)"
  shows "users_ok t \<and> user_head t = user_head s @ [p]"
proof -
  have lt: "current_highest_id s < current_highest_id s + 1"
    using assms(3) by (rule word_less_inc)
  have keep: "user_id (user_store s q) < current_highest_id s"
    if "q \<in> set (user_head s)" for q
    using that assms(1) by (simp add: users_ok_def)
  have ne: "current_highest_id s \<noteq> user_id (user_store s q)"
    if "q \<in> set (user_head s)" for q
    using keep [OF that] by auto
  have map_eq: "map (\<lambda>q. user_id (if q = p then f else user_store s q)) (user_head s) =
      map (\<lambda>q. user_id (user_store s q)) (user_head s)" for f
    using assms(2) by (intro map_cong) auto
  show ?thesis
    using assms lt keep ne
    by (fastforce simp: create_user_def users_ok_def err_defs map_eq fun_upd_def
        split: if_splits intro: less_trans)
qed

lemma inform_walk_frame:
  assumes "\<And>c s. P s \<Longrightarrow> P (snd (call c cpu state s))" and "P s"
  shows "P (snd (inform_walk call cpu state us (r, s)))"
  using assms(2)
proof (induction us arbitrary: r s)
  case Nil
  then show ?case by simp
next
  case (Cons u us)
  show ?case
  proof (cases "inform (user_store s u)")
    case None
    with Cons show ?thesis by simp
  next
    case (Some c)
    obtain r' t where call: "call c cpu state s = (r', t)" by fastforce
    with assms(1) [OF Cons.prems, of c] have "P t" by simp
    with Some call Cons.IH show ?thesis by simp
  qed
qed

lemma inform_freq_change_preserves:
  assumes "\<And>c s. P s \<Longrightarrow> P (snd (call c cpu state s))" and "P s"
  shows "P (inform_freq_change call cpu state s)"
  unfolding inform_freq_change_def
  by (rule inform_walk_frame [where P = P]) (use assms in auto)

text \<open>
  When the callbacks leave the registry alone, the walk runs every registered callback once,
  in the order of registration.
\<close>

lemma inform_walk_fold:
  assumes "\<And>c cpu state s. user_store (snd (call c cpu state s)) = user_store s"
  shows "snd (inform_walk call cpu state us (r, s)) =
         fold (\<lambda>c t. snd (call c cpu state t))
           (List.map_filter (\<lambda>u. inform (user_store s u)) us) s"
proof (induction us arbitrary: r s)
  case Nil
  then show ?case by (simp add: map_filter_simps)
next
  case (Cons u us)
  show ?case
  proof (cases "inform (user_store s u)")
    case None
    with Cons show ?thesis by (simp add: map_filter_simps)
  next
    case (Some c)
    obtain r' t where call: "call c cpu state s = (r', t)" by fastforce
    have "user_store t = user_store s"
      using assms [of c cpu state s] call by simp
    with Some call Cons show ?thesis by (simp add: map_filter_simps)
  qed
qed

subsection \<open>Properties\<close>

definition ex_usr :: usr_st where
  "ex_usr = \<lparr>user_store = (\<lambda>_. \<lparr>inform = Some 0, user_id = 0\<rparr>), user_head = [],
     current_highest_id = 0\<rparr>"

text \<open>
  C39: a client with a callback that registers while memory is available is appended to the
  list under an identifier of its own, the registry stays well-formed, and
  deregistering it afterwards succeeds and restores exactly the list there was before.
\<close>

theorem register_deregister_roundtrip:
  assumes "users_ok s" and "p \<notin> set (user_head s)" and "current_highest_id s \<noteq> - 1"
    and "inform (user_store s p) \<noteq> None" and "kmalloc_ok env"
  shows "case register_scpufreq_user env (Some p) s of (r, t) \<Rightarrow>
    r = 0 \<and> users_ok t \<and> user_head t = user_head s @ [p] \<and>
    deregister_scpufreq_user (Some p) t = (0, t\<lparr>user_head := user_head s\<rparr>)"
proof -
  obtain t where t: "create_user env (Some p) s = (0, t)"
    using assms(4,5) by (auto simp: create_user_def)
  from create_user_ok [OF assms(1-3) t]
  have ok: "users_ok t" "user_head t = user_head s @ [p]" by auto
  have "destroy_user (Some p) t = (0, t\<lparr>user_head := remove1 p (user_head t)\<rparr>)"
    by (rule destroy_user_registered) (use ok in auto)
  moreover have "remove1 p (user_head t) = user_head s"
    using ok(2) assms(2) by (simp add: remove1_append)
  ultimately show ?thesis
    using t ok by (simp add: register_scpufreq_user_def deregister_scpufreq_user_def)
qed

lemma register_deregister_roundtrip_witness:
  "fst (register_scpufreq_user ex_env (Some 3) ex_usr) = 0 \<and>
   deregister_scpufreq_user (Some 3) (snd (register_scpufreq_user ex_env (Some 3) ex_usr)) =
     (0, (snd (register_scpufreq_user ex_env (Some 3) ex_usr))\<lparr>user_head := []\<rparr>)"
  using register_deregister_roundtrip [of ex_usr 3 ex_env]
  by (simp add: users_ok_def ex_usr_def ex_env_def split: prod.splits)

text \<open>
  when the callbacks leave the registered structs alone, a frequency change runs every
  registered callback exactly once, in the order of registration, each on the state the
  previous one left, with the CPU and state of the change.
\<close>

theorem inform_freq_change_in_order:
  assumes "\<And>c cpu state s. user_store (snd (call c cpu state s)) = user_store s"
  shows "inform_freq_change call cpu state s =
    fold (\<lambda>c t. snd (call c cpu state t))
      (List.map_filter (\<lambda>u. inform (user_store s u)) (user_head s)) s"
  unfolding inform_freq_change_def by (rule inform_walk_fold) (rule assms)

lemma inform_freq_change_in_order_witness:
  "current_highest_id (inform_freq_change (\<lambda>c cpu state s. (0, s\<lparr>current_highest_id := 7\<rparr>)) 1 2
     (ex_usr\<lparr>user_head := [4, 5]\<rparr>)) = 7"
  using inform_freq_change_in_order
    [of "\<lambda>c cpu state s. (0, s\<lparr>current_highest_id := 7\<rparr>)" 1 2 "ex_usr\<lparr>user_head := [4, 5]\<rparr>"]
  by (simp add: ex_usr_def map_filter_simps)

end
