(* ===== verification/Cpu_Freq.thy ===== *)
theory Cpu_Freq
  imports Freq_Users "HOL-Library.Multiset"
begin

text \<open>
  The frequency tables of the cpufreq governor (\<open>Module/seeker-cpufreq/freq.c\<close>): per CPU the
  sorted table of frequencies (the performance states), setting a state through the kernel's
  driver, and the construction of the tables at module load, with the user's optional list
  of allowed states. \<open>struct cpufreq_policy\<close> belongs to the kernel; the module keeps
  pointers to it, so policies live in a store indexed by pointer.
\<close>

subsection \<open>State\<close>

definition MAX_STATES :: int where "MAX_STATES = 8"

record cpufreq_policy =
  policy_cpu :: u32
  policy_cur :: u32
  transition_latency :: u32

record freq_info_t =
  fi_cpu :: u32
  cur_freq :: u32
  num_states :: u32
  table :: "u32 arr"
  valid_entry :: "u32 arr"
  latency :: u32
  policy :: "nat option"

record freq_st = usr_st +
  freq_info :: "freq_info_t arr"
  policies :: "nat \<Rightarrow> cpufreq_policy"
  allowed_states :: "int arr"
  allowed_states_length :: int
  governor_registered :: bool

text \<open>The callbacks registered clients provide, over any extension of the governor's state.\<close>

type_synonym 's informs = "nat \<Rightarrow> int \<Rightarrow> int \<Rightarrow> 's \<Rightarrow> int \<times> 's"

definition upd_freq_info ::
    "int \<Rightarrow> (freq_info_t \<Rightarrow> freq_info_t) \<Rightarrow> 'a freq_st_scheme \<Rightarrow> 'a freq_st_scheme" where
  "upd_freq_info cpu f s = s\<lparr>freq_info := (freq_info s)(cpu := f (freq_info s cpu))\<rparr>"

subsection \<open>Reading and setting the frequency of a CPU\<close>

definition get_freq :: "u32 \<Rightarrow> 'a freq_st_scheme \<Rightarrow> u32" where
  "get_freq cpu s =
     (let fi = freq_info s (uint cpu) in
      if 0 \<le> fi_cpu fi \<and> cur_freq fi \<noteq> - 1 then cur_freq fi else - 1)"

definition DRIVER_TARGET_LOCKING :: bool where "DRIVER_TARGET_LOCKING = True"
definition DRIVER_TARGET_NONLOCKING :: bool where "DRIVER_TARGET_NONLOCKING = False"

text \<open>
  \<open>attempt\<close> tells the two calls apart that \<open>internal_set_freq\<close> may make: the driver is free
  to answer differently the second time.
\<close>

definition driver_target :: "kenv \<Rightarrow> cpufreq_policy \<Rightarrow> u32 \<Rightarrow> bool \<Rightarrow> nat \<Rightarrow> int" where
  "driver_target env pol frequency locking attempt =
     (if locking = DRIVER_TARGET_NONLOCKING
      then cpufreq_target env (uint (policy_cpu pol)) frequency DRIVER_TARGET_NONLOCKING attempt
      else cpufreq_target env (uint (policy_cpu pol)) frequency DRIVER_TARGET_LOCKING attempt)"

definition EAGAIN :: int where "EAGAIN = 11"

definition internal_set_freq ::
    "kenv \<Rightarrow> 'a freq_st_scheme informs \<Rightarrow> u32 \<Rightarrow> u32 \<Rightarrow> bool \<Rightarrow> 'a freq_st_scheme \<Rightarrow>
     int \<times> 'a freq_st_scheme" where
  "internal_set_freq env call cpu freq_ind locking s =
     (if NR_CPUS env \<le> uint cpu \<or> num_states (freq_info s (uint cpu)) \<le> freq_ind then (- 1, s)
      else
        (case policy (freq_info s (uint cpu)) of
           None \<Rightarrow> (- 1, s)
         | Some p \<Rightarrow>
             (let f = table (freq_info s (uint cpu)) (uint freq_ind);
                  t = s\<lparr>policies := (policies s)(p := (policies s p)\<lparr>policy_cur := f\<rparr>)\<rparr>;
                  r0 = driver_target env (policies t p) f locking 0;
                  ret_val = (if r0 = - EAGAIN
                             then driver_target env (policies t p) f locking 1 else r0)
              in if ret_val \<noteq> 0 then (ret_val, t)
                 else (ret_val, inform_freq_change call (sint cpu) (sint freq_ind) t))))"

definition set_freq ::
    "kenv \<Rightarrow> 'a freq_st_scheme informs \<Rightarrow> u32 \<Rightarrow> u32 \<Rightarrow> 'a freq_st_scheme \<Rightarrow>
     int \<times> 'a freq_st_scheme" where
  "set_freq env call cpu freq_ind s =
     internal_set_freq env call cpu freq_ind DRIVER_TARGET_LOCKING s"

text \<open>\<open>__set_freq\<close>, the variant that takes no lock.\<close>

definition nolock_set_freq ::
    "kenv \<Rightarrow> 'a freq_st_scheme informs \<Rightarrow> u32 \<Rightarrow> u32 \<Rightarrow> 'a freq_st_scheme \<Rightarrow>
     int \<times> 'a freq_st_scheme" where
  "nolock_set_freq env call cpu freq_ind s =
     internal_set_freq env call cpu freq_ind DRIVER_TARGET_NONLOCKING s"

definition inc_freq ::
    "kenv \<Rightarrow> 'a freq_st_scheme informs \<Rightarrow> u32 \<Rightarrow> 'a freq_st_scheme \<Rightarrow>
     int \<times> 'a freq_st_scheme" where
  "inc_freq env call cpu s =
     (if cur_freq (freq_info s (uint cpu)) = num_states (freq_info s (uint cpu)) - 1 then (0, s)
      else set_freq env call cpu (cur_freq (freq_info s (uint cpu)) + 1) s)"

definition dec_freq ::
    "kenv \<Rightarrow> 'a freq_st_scheme informs \<Rightarrow> u32 \<Rightarrow> 'a freq_st_scheme \<Rightarrow>
     int \<times> 'a freq_st_scheme" where
  "dec_freq env call cpu s =
     (if cur_freq (freq_info s (uint cpu)) = 0 then (0, s)
      else set_freq env call cpu (cur_freq (freq_info s (uint cpu)) - 1) s)"

definition get_max_states :: "int \<Rightarrow> 'a freq_st_scheme \<Rightarrow> int" where
  "get_max_states cpu s = sint (num_states (freq_info s cpu))"

definition gov_init_freq_info_cpu :: "int \<Rightarrow> nat \<Rightarrow> 'a freq_st_scheme \<Rightarrow> 'a freq_st_scheme" where
  "gov_init_freq_info_cpu cpu pol s =
     upd_freq_info cpu
       (\<lambda>fi. fi\<lparr>policy := Some pol, latency := transition_latency (policies s pol)\<rparr>) s"

definition gov_exit_freq_info_cpu :: "int \<Rightarrow> 'a freq_st_scheme \<Rightarrow> 'a freq_st_scheme" where
  "gov_exit_freq_info_cpu cpu s = upd_freq_info cpu (\<lambda>fi. fi\<lparr>policy := None\<rparr>) s"

subsection \<open>Sorting the table\<close>

definition swap_step :: "int \<Rightarrow> u32 arr \<Rightarrow> u32 arr" where
  "swap_step j t = (if t j \<le> t (j + 1) then t else t(j := t (j + 1), j + 1 := t j))"

definition sort_pass :: "int \<Rightarrow> u32 arr \<Rightarrow> u32 arr" where
  "sort_pass len t = for_up 0 (len - 1) swap_step t"

definition sort_table :: "u32 arr \<Rightarrow> int \<Rightarrow> u32 arr" where
  "sort_table t len = for_up 0 (len - 1) (\<lambda>i. sort_pass len) t"

subsection \<open>Pruning to the allowed states\<close>

text \<open>The first loop of \<open>prune_states\<close>: clamp the user's list and mark its entries with 2.\<close>

definition mark_allowed ::
    "u32 \<Rightarrow> int \<Rightarrow> int arr \<times> u32 arr \<Rightarrow> int arr \<times> u32 arr" where
  "mark_allowed num i st =
     (case st of (allowed, valid) \<Rightarrow>
        let a = (if allowed i < 0 then 0 else allowed i);
            b = (if uint num \<le> a then uint num - 1 else a)
        in (allowed(i := b), valid(b := 2)))"

text \<open>Shift the entries above \<open>i\<close> down by one; the last cell keeps its value.\<close>

definition shift_down :: "int \<Rightarrow> u32 arr \<Rightarrow> u32 arr" where
  "shift_down i a = for_up i (MAX_STATES - 1) (\<lambda>j a. a(j := a (j + 1))) a"

text \<open>
  The second loop may decrement its own counter, so nothing in its text bounds it: it
  is a partial function and \<open>None\<close> means that it does not end.
\<close>

partial_function (option) prune_loop ::
    "int \<Rightarrow> int \<Rightarrow> u32 arr \<Rightarrow> u32 arr \<Rightarrow> u32 \<Rightarrow> (u32 arr \<times> u32 arr \<times> u32) option" where
  "prune_loop i len valid tab num =
     (if i < len then
        if valid i = 2 then prune_loop (i + 1) len valid tab num
        else prune_loop i len (shift_down i valid) (shift_down i tab) (num - 1)
      else Some (valid, tab, num))"

definition prune_states :: "int \<Rightarrow> 'a freq_st_scheme \<Rightarrow> 'a freq_st_scheme option" where
  "prune_states cpu s =
     (let fi = freq_info s cpu in
      case for_up 0 (uint (num_states fi)) (mark_allowed (num_states fi))
             (allowed_states s, valid_entry fi) of
        (allowed, valid) \<Rightarrow>
          (case prune_loop 0 (allowed_states_length s) valid (table fi) (num_states fi) of
             None \<Rightarrow> None
           | Some (va, ta, num) \<Rightarrow>
               Some (upd_freq_info cpu (\<lambda>fi. fi\<lparr>valid_entry := va, table := ta, num_states := num\<rparr>)
                      (s\<lparr>allowed_states := allowed\<rparr>))))"

subsection \<open>Building the tables\<close>

fun read_table :: "u32 \<Rightarrow> u32 list \<Rightarrow> freq_info_t \<Rightarrow> freq_info_t" where
  "read_table invalid [] fi = fi"
| "read_table invalid (f # fs) fi =
     (if f = invalid then read_table invalid fs fi
      else if MAX_STATES \<le> sint (num_states fi) then fi
      else read_table invalid fs
        (fi\<lparr>table := (table fi)(sint (num_states fi) := f),
            valid_entry := (valid_entry fi)(sint (num_states fi) := 1),
            num_states := num_states fi + 1\<rparr>))"

text \<open>The body of the loop over the CPUs, up to the cut of \<open>allowed_states_length\<close>.\<close>

definition load_table :: "kenv \<Rightarrow> int \<Rightarrow> 'a freq_st_scheme \<Rightarrow> 'a freq_st_scheme" where
  "load_table env i s =
     (let fi = (freq_info s i)\<lparr>fi_cpu := of_int i, cur_freq := - 1, num_states := 0\<rparr>;
          fi = read_table (CPUFREQ_ENTRY_INVALID env) (cpufreq_frequency_get_table env i) fi;
          fi = fi\<lparr>valid_entry :=
                 for_up (sint (num_states fi)) MAX_STATES (\<lambda>j a. a(j := 0)) (valid_entry fi)\<rparr>;
          fi = fi\<lparr>table := sort_table (table fi) (sint (num_states fi))\<rparr>
      in s\<lparr>freq_info := (freq_info s)(i := fi),
           allowed_states_length :=
             (if sint (num_states fi) < allowed_states_length s then sint (num_states fi)
              else allowed_states_length s)\<rparr>)"

definition init_freq_cpu :: "kenv \<Rightarrow> int \<Rightarrow> 'a freq_st_scheme \<Rightarrow> 'a freq_st_scheme option" where
  "init_freq_cpu env i s =
     (let s = load_table env i s
      in if 0 < allowed_states_length s then prune_states i s else Some s)"

definition init_freqs :: "kenv \<Rightarrow> 'a freq_st_scheme \<Rightarrow> (int \<times> 'a freq_st_scheme) option" where
  "init_freqs env s =
     map_option (\<lambda>t. (0, t))
       (for_up 0 (num_online_cpus env) (\<lambda>i st. Option.bind st (init_freq_cpu env i)) (Some s))"

subsection \<open>The sort is correct\<close>

text \<open>Positions from \<open>m\<close> on already hold their final value: nothing below them is larger.\<close>

definition final_from :: "int \<Rightarrow> int \<Rightarrow> u32 arr \<Rightarrow> bool" where
  "final_from m len t \<longleftrightarrow> (\<forall>a b. 0 \<le> a \<and> a < b \<and> b < len \<and> m \<le> b \<longrightarrow> t a \<le> t b)"

definition bubble_inv :: "int \<Rightarrow> int \<Rightarrow> int \<Rightarrow> u32 arr \<Rightarrow> bool" where
  "bubble_inv m len j t \<longleftrightarrow>
     final_from m len t \<and>
     (\<forall>k. 0 \<le> k \<and> k \<le> min j (m - 1) \<longrightarrow> t k \<le> t (min j (m - 1)))"

lemma swap_step_at:
  "swap_step j t k =
     (if t j \<le> t (j + 1) then t k
      else if k = j then t (j + 1) else if k = j + 1 then t j else t k)"
  by (simp add: swap_step_def)

lemma swap_step_bubble_inv:
  assumes inv: "bubble_inv m len j t" and "0 \<le> j" and "j < len - 1" and "1 \<le> m"
  shows "bubble_inv m len (j + 1) (swap_step j t)"
proof (cases "m \<le> j + 1")
  case True
  have "t j \<le> t (j + 1)"
    using inv True assms(2,3) unfolding bubble_inv_def final_from_def by auto
  then have "swap_step j t = t" by (simp add: swap_step_def)
  moreover have "min (j + 1) (m - 1) = min j (m - 1)" using True by simp
  ultimately show ?thesis using inv by (simp add: bubble_inv_def)
next
  case False
  then have mj: "min j (m - 1) = j" "min (j + 1) (m - 1) = j + 1" by auto
  have max: "t k \<le> t j" if "0 \<le> k" "k \<le> j" for k
    using inv that mj by (auto simp: bubble_inv_def)
  have fin: "t a \<le> t b" if "0 \<le> a" "a < b" "b < len" "m \<le> b" for a b
    using inv that by (auto simp: bubble_inv_def final_from_def)
  have "final_from m len (swap_step j t)"
    unfolding final_from_def swap_step_at
    using fin assms(2) False by auto
  moreover have "swap_step j t k \<le> swap_step j t (j + 1)" if "0 \<le> k" "k \<le> j + 1" for k
    unfolding swap_step_at using max [of k] max [of j] that assms(2)
    by (cases "k = j + 1"; cases "k = j") (auto intro: order_trans)
  ultimately show ?thesis by (simp add: bubble_inv_def mj)
qed

lemma sort_pass_final:
  assumes "final_from m len t" and "1 \<le> m" and "m \<le> len"
  shows "final_from (m - 1) len (sort_pass len t)"
proof -
  have "bubble_inv m len 0 t"
    using assms by (auto simp: bubble_inv_def min_def)
  then have "bubble_inv m len (len - 1) (sort_pass len t)"
    unfolding sort_pass_def
    by (rule for_up_inv [where P = "bubble_inv m len"])
      (use assms in \<open>auto intro: swap_step_bubble_inv\<close>)
  moreover have "min (len - 1) (m - 1) = m - 1" using assms(3) by simp
  ultimately show ?thesis
    unfolding bubble_inv_def final_from_def by (smt (verit))
qed

lemma sort_table_final:
  assumes "1 \<le> len"
  shows "final_from 1 len (sort_table t len)"
proof -
  have "final_from (len - (len - 1)) len (sort_table t len)"
    unfolding sort_table_def
  proof (rule for_up_inv [where P = "\<lambda>i. final_from (len - i) len"])
    show "final_from (len - 0) len t" by (auto simp: final_from_def)
    show "final_from (len - (i + 1)) len (sort_pass len u)"
      if "0 \<le> i" "i < len - 1" "final_from (len - i) len u" for i u
      using sort_pass_final [OF that(3)] that by (simp add: algebra_simps)
  qed (use assms in auto)
  then show ?thesis by simp
qed

lemma sort_table_sorted:
  "0 \<le> a \<Longrightarrow> a < b \<Longrightarrow> b < len \<Longrightarrow> sort_table t len a \<le> sort_table t len b"
  using sort_table_final [of len t] by (auto simp: final_from_def)

definition table_mset :: "int \<Rightarrow> u32 arr \<Rightarrow> u32 multiset" where
  "table_mset len t = image_mset t (mset_set {0..<len})"

lemma table_mset_remove:
  assumes "0 \<le> j" and "j + 1 < len"
  shows "table_mset len t =
    {#t j, t (j + 1)#} + image_mset t (mset_set ({0..<len} - {j, j + 1}))"
proof -
  have "{0..<len} = insert j (insert (j + 1) ({0..<len} - {j, j + 1}))"
    using assms by auto
  then have "mset_set {0..<len} = mset_set (insert j (insert (j + 1) ({0..<len} - {j, j + 1})))"
    by simp
  also have "\<dots> = {#j, j + 1#} + mset_set ({0..<len} - {j, j + 1})"
    by (subst mset_set.insert) auto
  finally show ?thesis by (simp add: table_mset_def)
qed

lemma swap_step_mset:
  assumes "0 \<le> j" and "j < len - 1"
  shows "table_mset len (swap_step j t) = table_mset len t"
proof -
  have "image_mset (swap_step j t) (mset_set ({0..<len} - {j, j + 1})) =
        image_mset t (mset_set ({0..<len} - {j, j + 1}))"
    by (intro image_mset_cong) (auto simp: swap_step_at)
  moreover have "{#swap_step j t j, swap_step j t (j + 1)#} = {#t j, t (j + 1)#}"
    by (simp add: swap_step_at)
  ultimately show ?thesis
    using assms by (simp add: table_mset_remove)
qed

lemma sort_table_mset: "table_mset len (sort_table t len) = table_mset len t"
  unfolding sort_table_def sort_pass_def
  by (rule for_up_preserves [where P = "\<lambda>u. table_mset len u = table_mset len t"], simp)
    (rule for_up_preserves [where P = "\<lambda>u. table_mset len u = table_mset len t"],
      simp_all add: swap_step_mset)

lemma sort_table_outside:
  assumes "k < 0 \<or> len \<le> k"
  shows "sort_table t len k = t k"
  unfolding sort_table_def sort_pass_def
  by (rule for_up_preserves [where P = "\<lambda>u. u k = t k"], simp)
    (rule for_up_preserves [where P = "\<lambda>u. u k = t k"],
      use assms in \<open>auto simp: swap_step_at\<close>)

subsection \<open>When pruning ends\<close>

lemma shift_down_at:
  "shift_down i a k = (if i \<le> k \<and> k < MAX_STATES - 1 then a (k + 1) else a k)"
proof (cases "i \<le> MAX_STATES - 1")
  case True
  have "shift_down i a =
      (\<lambda>k. if i \<le> k \<and> k < MAX_STATES - 1 then a (k + 1) else a k)"
    unfolding shift_down_def
    by (rule for_up_inv [where P = "\<lambda>j b. b = (\<lambda>k. if i \<le> k \<and> k < j then a (k + 1) else a k)"])
      (use True in \<open>auto simp: fun_eq_iff\<close>)
  then show ?thesis by simp
next
  case False
  then show ?thesis by (auto simp: shift_down_def)
qed

text \<open>How many entries from \<open>i\<close> on carry the mark of an allowed state.\<close>

definition marked :: "int \<Rightarrow> u32 arr \<Rightarrow> int" where
  "marked i valid = int (card {k. i \<le> k \<and> k < MAX_STATES \<and> valid k = 2})"

lemma finite_marked: "finite {k. i \<le> k \<and> k < MAX_STATES \<and> p k}" for i :: int
  by (rule finite_subset [of _ "{i..<MAX_STATES}"]) auto

lemma marked_nonneg [simp]: "0 \<le> marked i valid"
  by (simp add: marked_def)

lemma marked_step:
  assumes "i < MAX_STATES"
  shows "marked i valid = (if valid i = 2 then 1 else 0) + marked (i + 1) valid"
proof -
  have "{k. i \<le> k \<and> k < MAX_STATES \<and> valid k = 2} =
        (if valid i = 2 then {i} else {}) \<union> {k. i + 1 \<le> k \<and> k < MAX_STATES \<and> valid k = 2}"
    (is "?A = ?B")
  proof (rule set_eqI)
    fix x
    have "i \<le> x \<longleftrightarrow> x = i \<or> i + 1 \<le> x" by linarith
    then show "x \<in> ?A \<longleftrightarrow> x \<in> ?B" using assms by auto
  qed
  then show ?thesis
    by (auto simp: marked_def card_insert_if finite_marked)
qed

lemma marked_shift:
  assumes "i < MAX_STATES" and "valid (MAX_STATES - 1) \<noteq> 2"
  shows "marked i (shift_down i valid) = marked (i + 1) valid"
proof -
  have "{k. i + 1 \<le> k \<and> k < MAX_STATES \<and> valid k = 2} =
        (\<lambda>k. k + 1) ` {k. i \<le> k \<and> k < MAX_STATES \<and> shift_down i valid k = 2}"
  proof (intro equalityI subsetI)
    fix k assume "k \<in> {k. i + 1 \<le> k \<and> k < MAX_STATES \<and> valid k = 2}"
    then show "k \<in> (\<lambda>k. k + 1) ` {k. i \<le> k \<and> k < MAX_STATES \<and> shift_down i valid k = 2}"
      by (intro image_eqI [of _ _ "k - 1"]) (auto simp: shift_down_at)
  next
    fix k assume "k \<in> (\<lambda>k. k + 1) ` {k. i \<le> k \<and> k < MAX_STATES \<and> shift_down i valid k = 2}"
    then obtain l where l: "k = l + 1" "i \<le> l" "l < MAX_STATES" "shift_down i valid l = 2"
      by auto
    then have "l \<noteq> MAX_STATES - 1" using assms(2) by (auto simp: shift_down_at)
    with l show "k \<in> {k. i + 1 \<le> k \<and> k < MAX_STATES \<and> valid k = 2}"
      by (auto simp: shift_down_at)
  qed
  then show ?thesis by (simp add: marked_def card_image)
qed

text \<open>With too few marked entries left, the loop shifts for ever.\<close>

lemma prune_loop_hangs:
  assumes "0 \<le> i" and "len \<le> MAX_STATES" and "valid (MAX_STATES - 1) \<noteq> 2"
    and "marked i valid < len - i"
  shows "prune_loop i len valid tab num = None"
proof (rule ccontr)
  assume "prune_loop i len valid tab num \<noteq> None"
  then obtain r where ret: "prune_loop i len valid tab num = Some r" by auto
  have "\<not> (0 \<le> i \<and> len \<le> MAX_STATES \<and> valid (MAX_STATES - 1) \<noteq> 2 \<and> marked i valid < len - i)"
  proof (rule prune_loop.raw_induct [where P = "\<lambda>i len valid tab num r. \<not> (0 \<le> i \<and>
      len \<le> MAX_STATES \<and> valid (MAX_STATES - 1) \<noteq> 2 \<and> marked i valid < len - i)", OF _ ret])
    fix f i len and valid tab :: "u32 arr" and num r
    assume IH: "\<And>i len valid tab num r. f i len valid tab num = Some r \<Longrightarrow>
        \<not> (0 \<le> i \<and> len \<le> MAX_STATES \<and> valid (MAX_STATES - 1) \<noteq> 2 \<and> marked i valid < len - i)"
      and eq: "(if i < len
        then if valid i = 2 then f (i + 1) len valid tab num
             else f i len (shift_down i valid) (shift_down i tab) (num - 1)
        else Some (valid, tab, num)) = Some r"
    show "\<not> (0 \<le> i \<and> len \<le> MAX_STATES \<and> valid (MAX_STATES - 1) \<noteq> 2 \<and> marked i valid < len - i)"
    proof
      assume h: "0 \<le> i \<and> len \<le> MAX_STATES \<and> valid (MAX_STATES - 1) \<noteq> 2 \<and>
        marked i valid < len - i"
      then have lt: "i < len" using marked_nonneg [of i valid] by linarith
      then have i8: "i < MAX_STATES" using h by simp
      show False
      proof (cases "valid i = 2")
        case True
        with eq lt have "f (i + 1) len valid tab num = Some r" by simp
        from IH [OF this] h True i8 show False by (simp add: marked_step)
      next
        case False
        with eq lt have "f i len (shift_down i valid) (shift_down i tab) (num - 1) = Some r"
          by simp
        from IH [OF this] h False i8 show False
          by (simp add: marked_shift marked_step [of i valid] shift_down_at)
      qed
    qed
  qed
  with assms show False by simp
qed

text \<open>With enough of them it ends; each round brings the first marked entry closer.\<close>

lemma marked_first:
  assumes "0 < marked i valid"
  obtains d where "valid (i + int d) = 2" and "i + int d < MAX_STATES"
proof -
  have "{k. i \<le> k \<and> k < MAX_STATES \<and> valid k = 2} \<noteq> {}"
  proof
    assume "{k. i \<le> k \<and> k < MAX_STATES \<and> valid k = 2} = {}"
    then have "marked i valid = 0" unfolding marked_def by (simp only: card.empty of_nat_0)
    with assms show False by simp
  qed
  then obtain k where "i \<le> k" "k < MAX_STATES" "valid k = 2" by blast
  then show thesis using that [of "nat (k - i)"] by simp
qed

lemma marked_shift_le: "i < MAX_STATES \<Longrightarrow> marked (i + 1) valid \<le> marked i (shift_down i valid)"
proof -
  assume i: "i < MAX_STATES"
  have "(\<lambda>k. k - 1) ` {k. i + 1 \<le> k \<and> k < MAX_STATES \<and> valid k = 2} \<subseteq>
        {k. i \<le> k \<and> k < MAX_STATES \<and> shift_down i valid k = 2}"
    by (auto simp: shift_down_at)
  then have "card ((\<lambda>k. k - 1) ` {k. i + 1 \<le> k \<and> k < MAX_STATES \<and> valid k = 2}) \<le>
        card {k. i \<le> k \<and> k < MAX_STATES \<and> shift_down i valid k = 2}"
    by (rule card_mono [OF finite_marked])
  then show ?thesis by (simp add: marked_def card_image inj_on_def)
qed

lemma prune_loop_to_mark:
  assumes "i < len" and "valid (i + int d) = 2" and "i + int d < MAX_STATES"
  shows "\<exists>valid' tab' num'. prune_loop i len valid tab num = prune_loop (i + 1) len valid' tab' num' \<and>
           marked i valid - 1 \<le> marked (i + 1) valid' \<and> valid' (MAX_STATES - 1) = valid (MAX_STATES - 1)"
  using assms
proof (induction d arbitrary: valid tab num)
  case 0
  then have "prune_loop i len valid tab num = prune_loop (i + 1) len valid tab num"
    by (subst prune_loop.simps) simp
  with 0 show ?case by (auto simp: marked_step)
next
  case (Suc d)
  show ?case
  proof (cases "valid i = 2")
    case True
    then have "prune_loop i len valid tab num = prune_loop (i + 1) len valid tab num"
      using Suc.prems by (subst prune_loop.simps) simp
    with True Suc.prems show ?thesis by (auto simp: marked_step)
  next
    case False
    have run: "prune_loop i len valid tab num =
        prune_loop i len (shift_down i valid) (shift_down i tab) (num - 1)"
      using False Suc.prems by (subst prune_loop.simps) simp
    have "marked i valid \<le> marked i (shift_down i valid)"
      using False Suc.prems marked_shift_le [of i valid] by (simp add: marked_step [of i valid])
    moreover have "\<exists>v t n. prune_loop i len (shift_down i valid) (shift_down i tab) (num - 1) =
        prune_loop (i + 1) len v t n \<and> marked i (shift_down i valid) - 1 \<le> marked (i + 1) v \<and>
        v (MAX_STATES - 1) = shift_down i valid (MAX_STATES - 1)"
      by (rule Suc.IH) (use Suc.prems in \<open>auto simp: shift_down_at algebra_simps\<close>)
    moreover have "shift_down i valid (MAX_STATES - 1) = valid (MAX_STATES - 1)" by (simp add: shift_down_at)
    ultimately show ?thesis unfolding run by (metis diff_right_mono order_trans)
  qed
qed

lemma prune_loop_ends:
  assumes "0 \<le> i" and "len - i \<le> marked i valid"
  shows "\<exists>r. prune_loop i len valid tab num = Some r"
  using assms
proof (induction "nat (len - i)" arbitrary: i valid tab num)
  case 0
  then show ?case by (subst prune_loop.simps) simp
next
  case (Suc n)
  then have lt: "i < len" by linarith
  then have "0 < marked i valid" using Suc.prems by linarith
  then obtain d where "valid (i + int d) = 2" and "i + int d < MAX_STATES"
    by (rule marked_first)
  from prune_loop_to_mark [where i = i and len = len and valid = valid and d = d, OF lt this]
  obtain v t k
    where run: "prune_loop i len valid tab num = prune_loop (i + 1) len v t k"
      and "marked i valid - 1 \<le> marked (i + 1) v" by blast
  then have "\<exists>r. prune_loop (i + 1) len v t k = Some r"
    using Suc by (intro Suc.hyps(1)) auto
  with run show ?case by simp
qed

text \<open>
  A mark in the last cell never goes away, as shifting copies that cell: then every position finds a
  mark.
\<close>

lemma prune_loop_last:
  assumes "0 \<le> i" and "len \<le> MAX_STATES" and "valid (MAX_STATES - 1) = 2"
  shows "\<exists>r. prune_loop i len valid tab num = Some r"
  using assms
proof (induction "nat (len - i)" arbitrary: i valid tab num)
  case 0
  then show ?case by (subst prune_loop.simps) simp
next
  case (Suc n)
  then have lt: "i < len" by linarith
  have d: "i + int (nat (MAX_STATES - 1 - i)) = MAX_STATES - 1" using lt Suc.prems by simp
  obtain v t k where run: "prune_loop i len valid tab num = prune_loop (i + 1) len v t k"
      and "v (MAX_STATES - 1) = 2"
    using prune_loop_to_mark [OF lt, of valid "nat (MAX_STATES - 1 - i)" tab num] Suc.prems(3) unfolding d by auto
  then have "\<exists>r. prune_loop (i + 1) len v t k = Some r"
    using Suc by (intro Suc.hyps(1)) auto
  with run show ?case by simp
qed

text \<open>The first loop marks exactly the clamped entries of the user's list.\<close>

definition clamp_state :: "u32 \<Rightarrow> int \<Rightarrow> int" where
  "clamp_state num a = max 0 (min a (uint num - 1))"

definition mark_inv ::
    "u32 \<Rightarrow> int arr \<Rightarrow> u32 arr \<Rightarrow> int \<Rightarrow> int arr \<times> u32 arr \<Rightarrow> bool" where
  "mark_inv num allowed valid n st \<longleftrightarrow>
     (\<forall>k. snd st k = (if k \<in> (\<lambda>i. clamp_state num (allowed i)) ` {0..<n} then 2 else valid k)) \<and>
     (\<forall>i. n \<le> i \<longrightarrow> fst st i = allowed i)"

lemma mark_allowed_inv:
  assumes "0 \<le> n" and "n \<le> uint num"
  shows "mark_inv num allowed valid n (for_up 0 n (mark_allowed num) (allowed, valid))"
proof (rule for_up_inv [where P = "mark_inv num allowed valid"])
  show "mark_inv num allowed valid 0 (allowed, valid)" by (simp add: mark_inv_def)
  fix j st
  assume j: "0 \<le> j" "j < n" and st: "mark_inv num allowed valid j st"
  obtain al va where [simp]: "st = (al, va)" by fastforce
  have al: "al j = allowed j" using st by (simp add: mark_inv_def)
  have step: "mark_allowed num j (al, va) =
    (al(j := clamp_state num (allowed j)), va(clamp_state num (allowed j) := 2))"
    using al j assms by (simp add: mark_allowed_def Let_def clamp_state_def)
  have "{0..<j + 1} = insert j {0..<j}" using j by auto
  then show "mark_inv num allowed valid (j + 1) (mark_allowed num j st)"
    using st unfolding \<open>st = (al, va)\<close> step by (simp add: mark_inv_def)
qed (use assms in auto)

text \<open>
  Pruning hangs the module when the user's list, read up to the CPU's number of states and
  clamped, names fewer distinct states than \<open>allowed_states_length\<close> says.
\<close>

definition distinct_allowed :: "u32 \<Rightarrow> int arr \<Rightarrow> int" where
  "distinct_allowed num allowed =
     int (card ((\<lambda>i. clamp_state num (allowed i)) ` {0..<uint num}))"

lemma clamp_state_bounds:
  "0 < uint num \<Longrightarrow> 0 \<le> clamp_state num a \<and> clamp_state num a < uint num"
  by (auto simp: clamp_state_def)

lemma marked_after_marking:
  assumes "uint num \<le> MAX_STATES" and "\<forall>k. 0 \<le> k \<and> k < MAX_STATES \<longrightarrow> valid k \<noteq> 2"
    and "for_up 0 (uint num) (mark_allowed num) (allowed, valid) = (al, va)"
  shows "marked 0 va = distinct_allowed num allowed"
    and "va (MAX_STATES - 1) = 2 \<longleftrightarrow> MAX_STATES - 1 \<in> (\<lambda>i. clamp_state num (allowed i)) ` {0..<uint num}"
proof -
  let ?A = "(\<lambda>i. clamp_state num (allowed i)) ` {0..<uint num}"
  have va: "va k = (if k \<in> ?A then 2 else valid k)" for k
    using mark_allowed_inv [of "uint num" num allowed valid] assms(3) by (simp add: mark_inv_def)
  have sub: "k \<in> ?A \<Longrightarrow> 0 \<le> k \<and> k < uint num" for k
    using clamp_state_bounds [of num] by force
  have two: "va k = 2 \<longleftrightarrow> k \<in> ?A" if "0 \<le> k" "k < MAX_STATES" for k
  proof (cases "k \<in> ?A")
    case True
    then show ?thesis unfolding va by simp
  next
    case False
    then have "va k = valid k" unfolding va by (simp only: if_False)
    then show ?thesis using False assms(2) that by simp
  qed
  have "{k. 0 \<le> k \<and> k < MAX_STATES \<and> va k = 2} = ?A"
  proof (intro equalityI subsetI)
    fix k assume k: "k \<in> ?A"
    then have "0 \<le> k" "k < MAX_STATES" using sub [OF k] assms(1) by linarith+
    with two k show "k \<in> {k. 0 \<le> k \<and> k < MAX_STATES \<and> va k = 2}" by blast
  qed (use two in blast)
  then show "marked 0 va = distinct_allowed num allowed"
    by (simp add: marked_def distinct_allowed_def)
  show "va (MAX_STATES - 1) = 2 \<longleftrightarrow> MAX_STATES - 1 \<in> ?A" by (rule two) (simp_all add: MAX_STATES_def)
qed

text \<open>What a failed or refused \<open>set_freq\<close> leaves alone, and what a successful one calls.\<close>

lemma internal_set_freq_cases:
  obtains (refused) "internal_set_freq env call cpu f locking s = (- 1, s)"
      and "NR_CPUS env \<le> uint cpu \<or> num_states (freq_info s (uint cpu)) \<le> f \<or>
           policy (freq_info s (uint cpu)) = None"
  | (failed) p r where "policy (freq_info s (uint cpu)) = Some p" and "r \<noteq> 0"
      and "internal_set_freq env call cpu f locking s =
        (r, s\<lparr>policies := (policies s)(p := (policies s p)
             \<lparr>policy_cur := table (freq_info s (uint cpu)) (uint f)\<rparr>)\<rparr>)"
  | (success) p where "policy (freq_info s (uint cpu)) = Some p"
      and "uint cpu < NR_CPUS env" and "f < num_states (freq_info s (uint cpu))"
      and "internal_set_freq env call cpu f locking s =
        (0, inform_freq_change call (sint cpu) (sint f)
             (s\<lparr>policies := (policies s)(p := (policies s p)
               \<lparr>policy_cur := table (freq_info s (uint cpu)) (uint f)\<rparr>)\<rparr>))"
proof (cases "NR_CPUS env \<le> uint cpu \<or> num_states (freq_info s (uint cpu)) \<le> f \<or>
    policy (freq_info s (uint cpu)) = None")
  case True
  then have "internal_set_freq env call cpu f locking s = (- 1, s)"
    by (auto simp: internal_set_freq_def)
  with True show thesis by (rule refused [rotated])
next
  case False
  then obtain p where p: "policy (freq_info s (uint cpu)) = Some p"
    and cpu: "uint cpu < NR_CPUS env" and f: "f < num_states (freq_info s (uint cpu))"
    by auto
  let ?f = "table (freq_info s (uint cpu)) (uint f)"
  let ?t = "s\<lparr>policies := (policies s)(p := (policies s p)\<lparr>policy_cur := ?f\<rparr>)\<rparr>"
  let ?r0 = "driver_target env (policies ?t p) ?f locking 0"
  let ?r = "if ?r0 = - EAGAIN then driver_target env (policies ?t p) ?f locking 1 else ?r0"
  have run: "internal_set_freq env call cpu f locking s =
      (if ?r \<noteq> 0 then (?r, ?t) else (?r, inform_freq_change call (sint cpu) (sint f) ?t))"
    using cpu [unfolded not_le [symmetric]] f [unfolded not_le [symmetric]]
    by (simp add: internal_set_freq_def Let_def p)
  show thesis
  proof (cases "?r = 0")
    case True
    show thesis by (rule success [OF p cpu f]) (simp only: run True if_False refl simp_thms)
  next
    case False
    show thesis by (rule failed [OF p False]) (simp only: run False if_True simp_thms)
  qed
qed

subsection \<open>What the table holds\<close>

lemma sint_of_nat_small: "k \<le> 8 \<Longrightarrow> sint (of_nat k :: u32) = int k"
  by (simp add: signed_of_nat signed_take_bit_int_eq_self)

abbreviation valid_freqs :: "u32 \<Rightarrow> u32 list \<Rightarrow> u32 list" where
  "valid_freqs inval fs \<equiv> filter (\<lambda>f. f \<noteq> inval) fs"

lemma read_table_spec:
  assumes "num_states fi = of_nat k" and "k \<le> 8"
  shows "num_states (read_table inval fs fi) = of_nat (min 8 (k + length (valid_freqs inval fs))) \<and>
    (\<forall>j < min 8 (k + length (valid_freqs inval fs)) - k. table (read_table inval fs fi) (int (k + j)) = valid_freqs inval fs ! j) \<and>
    (\<forall>j < k. table (read_table inval fs fi) (int j) = table fi (int j))"
  using assms(1,2) 
proof (induction inval fs fi arbitrary: k rule: read_table.induct)
  case (1 invalid fi)
  then show ?case by (simp add: min_def)
next
  case (2 invalid f fs fi)
  show ?case
  proof (cases "f = invalid \<or> k = 8")
    case True
    with 2 show ?thesis
      by (auto simp: sint_of_nat_small MAX_STATES_def)
  next
    case False
    then have k: "k < 8" "f \<noteq> invalid" using "2.prems" by auto
    let ?fi = "fi\<lparr>table := (table fi)(sint (num_states fi) := f),
            valid_entry := (valid_entry fi)(sint (num_states fi) := 1),
            num_states := num_states fi + 1\<rparr>"
    let ?r = "read_table invalid fs ?fi"
    have run: "read_table invalid (f # fs) fi = ?r"
      using k "2.prems" by (simp add: sint_of_nat_small MAX_STATES_def)
    have num: "num_states ?fi = of_nat (Suc k)" using "2.prems" by simp
    have IH: "num_states ?r = of_nat (min 8 (Suc k + length (valid_freqs invalid fs))) \<and>
      (\<forall>j < min 8 (Suc k + length (valid_freqs invalid fs)) - Suc k.
          table ?r (int (Suc k + j)) = valid_freqs invalid fs ! j) \<and>
      (\<forall>j < Suc k. table ?r (int j) = table ?fi (int j))"
      by (rule "2.IH"(2)) (use k "2.prems" num in \<open>auto simp: sint_of_nat_small MAX_STATES_def\<close>)
    have at_k: "table ?r (int k) = f"
      using IH "2.prems" k by (simp add: sint_of_nat_small)
    have below: "table ?r (int j) = table fi (int j)" if "j < k" for j
      using IH "2.prems" k that by (simp add: sint_of_nat_small)
    have above: "table ?r (int (k + j)) = (f # valid_freqs invalid fs) ! j"
      if "j < min 8 (k + length (f # valid_freqs invalid fs)) - k" for j
    proof (cases j)
      case 0
      with at_k show ?thesis by simp
    next
      case (Suc i)
      with that k have "i < min 8 (Suc k + length (valid_freqs invalid fs)) - Suc k" by auto
      with IH have "table ?r (int (Suc k + i)) = valid_freqs invalid fs ! i" by blast
      with Suc show ?thesis by simp
    qed
    show ?thesis unfolding run using IH below above k by simp
  qed
qed

subsection \<open>Properties\<close>

lemma sort_table_sorted_list: "sorted (map (sort_table t len) [0..len - 1])"
proof -
  have "sorted_wrt (\<lambda>a b. sort_table t len a \<le> sort_table t len b) [0..len - 1]"
    by (rule sorted_wrt_mono_rel [OF _ sorted_wrt_upto]) (use sort_table_sorted in auto)
  then show ?thesis by (simp add: sorted_map)
qed

lemma sort_table_mset_list:
  "mset (map (sort_table t len) [0..len - 1]) = mset (map t [0..len - 1])"
proof -
  have "mset (map f [0..len - 1]) = table_mset len f" for f :: "u32 arr"
  proof -
    have "mset [0..len - 1] = mset_set (set [0..len - 1])"
      by (rule mset_set_set [symmetric]) simp
    also have "set [0..len - 1] = {0..<len}" by auto
    finally show ?thesis by (simp add: table_mset_def)
  qed
  then show ?thesis by (simp add: sort_table_mset)
qed

text \<open>
  \<open>sort_table\<close> leaves the first \<open>len\<close> cells in ascending order, as a permutation of what
  they held, and touches no cell outside them.
\<close>

theorem sort_table_correct:
  "sorted (map (sort_table t len) [0..len - 1]) \<and>
   mset (map (sort_table t len) [0..len - 1]) = mset (map t [0..len - 1]) \<and>
   sort_table t len = (\<lambda>k. if 0 \<le> k \<and> k < len then sort_table t len k else t k)"
  using sort_table_outside [of _ len t]
  by (intro conjI ext) (auto simp del: mset_map simp: sort_table_sorted_list sort_table_mset_list)

text \<open>
  C24: after a CPU's table is loaded (at most eight states, no cell marked as allowed yet, the list at
  most eight long, all of which \<open>init_freqs\<close> sees to), pruning ends if and only if the user's list,
  read up to the CPU's number of states and clamped into range, names at least as many distinct
  states as its stated length, or the CPU has all eight states and the list names the last of them:
  its mark is copied for ever. Otherwise, for instance when a state is listed twice, the module load
  hangs in the loop.
\<close>

theorem prune_states_ends_iff:
  assumes "uint (num_states (freq_info s cpu)) \<le> MAX_STATES"
    and "\<forall>k. 0 \<le> k \<and> k < MAX_STATES \<longrightarrow> valid_entry (freq_info s cpu) k \<noteq> 2"
    and "allowed_states_length s \<le> MAX_STATES"
  shows "prune_states cpu s \<noteq> None \<longleftrightarrow>
    allowed_states_length s \<le> distinct_allowed (num_states (freq_info s cpu)) (allowed_states s) \<or>
    MAX_STATES - 1 \<in> (\<lambda>i. clamp_state (num_states (freq_info s cpu)) (allowed_states s i)) `
      {0..<uint (num_states (freq_info s cpu))}"
proof -
  let ?fi = "freq_info s cpu"
  obtain al va where mark: "for_up 0 (uint (num_states ?fi)) (mark_allowed (num_states ?fi))
      (allowed_states s, valid_entry ?fi) = (al, va)" by fastforce
  note m = marked_after_marking [OF assms(1,2) mark]
  let ?run = "prune_loop 0 (allowed_states_length s) va (table ?fi) (num_states ?fi)"
  have "prune_states cpu s \<noteq> None \<longleftrightarrow> ?run \<noteq> None"
    by (simp add: prune_states_def mark Let_def split: option.splits)
  moreover have "?run = None" if "marked 0 va < allowed_states_length s" "va (MAX_STATES - 1) \<noteq> 2"
    by (rule prune_loop_hangs) (use assms(3) that in auto)
  moreover have "?run \<noteq> None" if "allowed_states_length s \<le> marked 0 va"
    using prune_loop_ends [of 0 "allowed_states_length s" va] that by fastforce
  moreover have "?run \<noteq> None" if "va (MAX_STATES - 1) = 2"
    using prune_loop_last [of 0 "allowed_states_length s" va] assms(3) that by fastforce
  ultimately show ?thesis
    unfolding m [symmetric] by (cases "marked 0 va < allowed_states_length s"; cases "va (MAX_STATES - 1) = 2") auto
qed

definition ex_freq :: freq_st where
  "ex_freq = usr_st.extend ex_usr (freq_st.fields
     (\<lambda>_. \<lparr>fi_cpu = 0, cur_freq = - 1, num_states = 3, table = (\<lambda>k. of_int k + 1),
            valid_entry = (\<lambda>_. 1), latency = 0, policy = Some 0\<rparr>)
     (\<lambda>_. \<lparr>policy_cpu = 1, policy_cur = 0, transition_latency = 9\<rparr>)
     ((\<lambda>_. 0)(0 := 2, 1 := 2)) 3 False)"

lemmas ex_freq_simps = ex_freq_def ex_usr_def usr_st.defs freq_st.defs

lemma prune_states_ends_iff_witness: "prune_states 0 ex_freq = None"
proof -
  have "{0..<3::int} = {0, 1, 2}" by auto
  then have i: "(\<lambda>i. clamp_state 3 (((\<lambda>_. 0)(0 := 2, 1 := 2)) i)) ` {0..<3::int} = {0, 2}"
    by (auto simp: clamp_state_def)
  then have "distinct_allowed 3 ((\<lambda>_. 0)(0 := 2, 1 := 2)) = 2"
    by (simp add: distinct_allowed_def)
  moreover have "num_states (freq_info ex_freq 0) = 3" "allowed_states_length ex_freq = 3"
    "allowed_states ex_freq = (\<lambda>_. 0)(0 := 2, 1 := 2)"
    "\<forall>k. valid_entry (freq_info ex_freq 0) k \<noteq> 2"
    by (simp_all add: ex_freq_simps)
  ultimately show ?thesis
    using prune_states_ends_iff [of ex_freq 0] i by (simp add: MAX_STATES_def)
qed

text \<open>
  C23: loading a CPU's table keeps the valid frequencies of the driver's table, at most the
  first eight of them, counts them and stores them in ascending order.
\<close>

theorem load_table_correct:
  "let fi = freq_info (load_table env i s) i;
       fs = take 8 (valid_freqs (CPUFREQ_ENTRY_INVALID env) (cpufreq_frequency_get_table env i))
   in num_states fi = of_nat (length fs) \<and>
      mset (map (table fi) [0..int (length fs) - 1]) = mset fs \<and>
      sorted (map (table fi) [0..int (length fs) - 1])"
proof -
  let ?inv = "CPUFREQ_ENTRY_INVALID env" and ?fs = "cpufreq_frequency_get_table env i"
  let ?fi = "(freq_info s i)\<lparr>fi_cpu := of_int i, cur_freq := - 1, num_states := 0\<rparr>"
  define r where "r = read_table ?inv ?fs ?fi"
  define n where "n = length (take 8 (valid_freqs ?inv ?fs))"
  have r: "num_states r = of_nat n" "\<forall>j < n. table r (int j) = valid_freqs ?inv ?fs ! j"
    using read_table_spec [of ?fi 0 ?inv ?fs] by (simp_all add: r_def n_def min.commute)
  have n: "n \<le> 8" by (simp add: n_def)
  have fi: "num_states (freq_info (load_table env i s) i) = num_states r"
    "table (freq_info (load_table env i s) i) = sort_table (table r) (sint (num_states r))"
    by (simp_all add: load_table_def r_def Let_def)
  have len: "sint (num_states r) = int n" using r(1) n by (simp add: sint_of_nat_small)
  have "map (table r) [0..int n - 1] = take 8 (valid_freqs ?inv ?fs)"
  proof (rule nth_equalityI)
    show "length (map (table r) [0..int n - 1]) = length (take 8 (valid_freqs ?inv ?fs))"
      by (simp add: n_def)
    fix j assume "j < length (map (table r) [0..int n - 1])"
    then have "j < n" by simp
    then show "map (table r) [0..int n - 1] ! j = take 8 (valid_freqs ?inv ?fs) ! j"
      using r(2) n by (simp add: n_def)
  qed
  then show ?thesis
    using sort_table_sorted_list [of "table r" "int n"] sort_table_mset_list [of "table r" "int n"]
    unfolding Let_def fi len n_def [symmetric] by (simp add: r(1))
qed

end
