(* ===== verification/Freq_Governor.thy ===== *)
theory Freq_Governor
  imports Cpu_Freq
begin

text \<open>
  The governor callbacks and the load and unload of the cpufreq module
  (\<open>Module/seeker-cpufreq/interface.c\<close>, \<open>Module/seeker-cpufreq/main.c\<close>). The kernel's
  registration of a governor is the flag \<open>governor_registered\<close>.
\<close>

subsection \<open>Governor callbacks\<close>

datatype gov_event = CPUFREQ_GOV_START | CPUFREQ_GOV_STOP | CPUFREQ_GOV_LIMITS | CPUFREQ_GOV_UNKNOWN

definition cpufreq_seeker_setspeed ::
    "kenv \<Rightarrow> 'a freq_st_scheme informs \<Rightarrow> nat \<Rightarrow> u32 \<Rightarrow> 'a freq_st_scheme \<Rightarrow>
     int \<times> 'a freq_st_scheme" where
  "cpufreq_seeker_setspeed env call pol freq s =
     nolock_set_freq env call (policy_cpu (policies s pol)) freq s"

text \<open>\<open>sprintf(buf, "%d", x)\<close>.\<close>

fun dec_digits :: "nat \<Rightarrow> string" where
  "dec_digits n =
     (if n < 10 then [char_of (48 + n)] else dec_digits (n div 10) @ [char_of (48 + n mod 10)])"

declare dec_digits.simps [simp del]

definition sprintf_d :: "int \<Rightarrow> string" where
  "sprintf_d x = (if x < 0 then CHR ''-'' # dec_digits (nat (- x)) else dec_digits (nat x))"

definition cpufreq_seeker_showspeed :: "nat \<Rightarrow> 'a freq_st_scheme \<Rightarrow> int \<times> string" where
  "cpufreq_seeker_showspeed pol s =
     (let buf = sprintf_d (sint (policy_cur (policies s pol)))
      in (int (length buf) + 1, buf))"

definition cpufreq_seeker_governor ::
    "nat \<Rightarrow> gov_event \<Rightarrow> 'a freq_st_scheme \<Rightarrow> int \<times> 'a freq_st_scheme" where
  "cpufreq_seeker_governor pol event s =
     (let cpu = uint (policy_cpu (policies s pol)) in
      (0, case event of
            CPUFREQ_GOV_START \<Rightarrow> gov_init_freq_info_cpu cpu pol s
          | CPUFREQ_GOV_STOP \<Rightarrow> gov_exit_freq_info_cpu cpu s
          | CPUFREQ_GOV_LIMITS \<Rightarrow> s
          | CPUFREQ_GOV_UNKNOWN \<Rightarrow> s))"

definition register_self :: "'a freq_st_scheme \<Rightarrow> 'a freq_st_scheme" where
  "register_self s = s\<lparr>governor_registered := True\<rparr>"

definition deregister_self :: "'a freq_st_scheme \<Rightarrow> 'a freq_st_scheme" where
  "deregister_self s = s\<lparr>governor_registered := False\<rparr>"

subsection \<open>Load and unload\<close>

definition seeker_cpufreq_init ::
    "kenv \<Rightarrow> 'a freq_st_scheme \<Rightarrow> (int \<times> 'a freq_st_scheme) option" where
  "seeker_cpufreq_init env s =
     (let s = init_user_interface (register_self s) in
      (case init_freqs env s of
         None \<Rightarrow> None
       | Some (_, s) \<Rightarrow>
           (case init_freqs env s of
              None \<Rightarrow> None
            | Some (ret, s) \<Rightarrow>
                Some (if ret \<noteq> 0 then (- ENODEV, deregister_self s) else (0, s)))))"

definition seeker_cpufreq_exit :: "'a freq_st_scheme \<Rightarrow> 'a freq_st_scheme" where
  "seeker_cpufreq_exit s = deregister_self (exit_user_interface s)"

subsection \<open>Facts\<close>

lemma free_nodes_Nil: "free_nodes us = []"
  by (induction us) auto

lemma seeker_cpufreq_exit_state:
  "user_head (seeker_cpufreq_exit s) = []" "\<not> governor_registered (seeker_cpufreq_exit s)"
  by (simp_all add: seeker_cpufreq_exit_def deregister_self_def exit_user_interface_def free_nodes_Nil)

text \<open>After a stop event the CPU's frequency cannot be set until the next start event.\<close>

lemma stopped_set_freq_refused:
  assumes "snd (cpufreq_seeker_governor pol CPUFREQ_GOV_STOP s) = t"
    and "uint cpu = uint (policy_cpu (policies s pol))"
  shows "internal_set_freq env call cpu f locking t = (- 1, t)"
proof -
  have "policy (freq_info t (uint cpu)) = None"
    using assms by (auto simp: cpufreq_seeker_governor_def Let_def gov_exit_freq_info_cpu_def
        upd_freq_info_def)
  then show ?thesis by (simp add: internal_set_freq_def)
qed

lemma started_policy:
  "policy (freq_info (snd (cpufreq_seeker_governor pol CPUFREQ_GOV_START s))
     (uint (policy_cpu (policies s pol)))) = Some pol"
  by (simp add: cpufreq_seeker_governor_def Let_def gov_init_freq_info_cpu_def upd_freq_info_def)

text \<open>The loader makes every CPU's current state unknown, and nothing else writes it.\<close>

lemma prune_states_cur_freq:
  "prune_states i s = Some t \<Longrightarrow>
     (\<lambda>k. cur_freq (freq_info t k)) = (\<lambda>k. cur_freq (freq_info s k))"
  by (auto simp: prune_states_def Let_def upd_freq_info_def split: prod.splits option.splits)

lemma read_table_cur_freq: "cur_freq (read_table inval fs fi) = cur_freq fi"
  by (induction inval fs fi rule: read_table.induct) auto

lemma load_table_cur_freq:
  "cur_freq (freq_info (load_table env i s) k) = (if k = i then - 1 else cur_freq (freq_info s k))"
  by (simp add: load_table_def Let_def read_table_cur_freq)

lemma init_freq_cpu_cur_freq:
  assumes "init_freq_cpu env i s = Some t"
  shows "cur_freq (freq_info t k) = (if k = i then - 1 else cur_freq (freq_info s k))"
proof -
  have "(\<lambda>k. cur_freq (freq_info t k)) = (\<lambda>k. cur_freq (freq_info (load_table env i s) k))"
    using assms by (auto simp: init_freq_cpu_def Let_def dest: prune_states_cur_freq split: if_splits)
  then show ?thesis by (metis load_table_cur_freq)
qed

lemma init_freqs_cur_freq:
  fixes s t :: "'a freq_st_scheme"
  assumes run: "init_freqs env s = Some (r, t)" and "0 \<le> cpu" and "cpu < num_online_cpus env"
  shows "cur_freq (freq_info t cpu) = - 1"
proof -
  let ?loop = "\<lambda>n. for_up 0 n (\<lambda>i st. Option.bind st (init_freq_cpu env i)) (Some s)"
  define P where "P = (\<lambda>n (st :: 'a freq_st_scheme option). \<forall>t. st = Some t \<longrightarrow>
      (\<forall>k. 0 \<le> k \<and> k < n \<longrightarrow> cur_freq (freq_info t k) = (- 1 :: u32)))"
  have "P (num_online_cpus env) (?loop (num_online_cpus env))"
  proof (rule for_up_inv [where P = P])
    show "P 0 (Some s)" by (auto simp: P_def)
    show "0 \<le> num_online_cpus env" using assms by simp
    fix j st
    assume "P j st"
    then show "P (j + 1) (Option.bind st (init_freq_cpu env j))"
      unfolding P_def by (cases st) (auto simp: init_freq_cpu_cur_freq)
  qed
  moreover have "?loop (num_online_cpus env) = Some t"
    using run by (auto simp: init_freqs_def)
  ultimately show ?thesis using assms by (simp add: P_def)
qed

subsection \<open>Properties\<close>

text \<open>
  once the governor is stopped on a CPU, both ways of setting its frequency are
  refused and change nothing; the next start event reinstates the policy it was given.
\<close>

theorem stopped_governor_refuses:
  "let t = snd (cpufreq_seeker_governor pol CPUFREQ_GOV_STOP s);
       cpu = policy_cpu (policies s pol)
   in set_freq env call cpu f t = (- 1, t) \<and> nolock_set_freq env call cpu f t = (- 1, t) \<and>
      policy (freq_info (snd (cpufreq_seeker_governor pol CPUFREQ_GOV_START t)) (uint cpu)) = Some pol"
proof -
  have "policies (snd (cpufreq_seeker_governor pol CPUFREQ_GOV_STOP s)) = policies s"
    by (simp add: cpufreq_seeker_governor_def Let_def gov_exit_freq_info_cpu_def upd_freq_info_def)
  then show ?thesis
    using started_policy
      [where pol = pol and s = "snd (cpufreq_seeker_governor pol CPUFREQ_GOV_STOP s)"]
    by (simp add: Let_def set_freq_def nolock_set_freq_def stopped_set_freq_refused [OF refl refl])
qed

text \<open>
  nothing ever records the current state of a CPU: after the tables are loaded
  \<open>get_freq\<close> answers -1 for every CPU, \<open>inc_freq\<close> sets the lowest state whatever the CPU
  runs at, and \<open>dec_freq\<close> is refused.
\<close>

theorem init_freqs_cur_unknown:
  assumes "init_freqs env s = Some (r, t)" and "uint cpu < num_online_cpus env"
    and "0 < num_states (freq_info t (uint cpu))" and "num_states (freq_info t (uint cpu)) \<le> 8"
  shows "get_freq cpu t = - 1 \<and> inc_freq env call cpu t = set_freq env call cpu 0 t \<and>
    dec_freq env call cpu t = (- 1, t)"
proof -
  let ?n = "num_states (freq_info t (uint cpu))"
  have cur: "cur_freq (freq_info t (uint cpu)) = - 1"
    by (rule init_freqs_cur_freq [OF assms(1)]) (use assms(2) in auto)
  have "?n \<noteq> 0" using assms(3) by simp
  then have ne: "- 1 \<noteq> ?n - 1" by auto
  have "?n \<le> - 2" by (rule order_trans [OF assms(4)]) simp
  then have "set_freq env call cpu (- 2) t = (- 1, t)"
    by (simp add: set_freq_def internal_set_freq_def)
  with cur ne show ?thesis
    by (simp add: get_freq_def inc_freq_def dec_freq_def Let_def)
qed

lemma init_freqs_cur_unknown_witness:
  "\<exists>t. init_freqs ex_env (ex_freq\<lparr>allowed_states_length := 0\<rparr>) = Some (0, t) \<and> get_freq 1 t = - 1"
proof -
  let ?s = "ex_freq\<lparr>allowed_states_length := 0\<rparr>"
  let ?t = "load_table ex_env 1 (load_table ex_env 0 ?s)"
  have len: "num_states (freq_info (load_table ex_env i s) i) = 3"
    "allowed_states_length s = 0 \<Longrightarrow> allowed_states_length (load_table ex_env i s) = 0"
    for i and s :: freq_st
    by (simp_all add: load_table_def ex_env_def MAX_STATES_def Let_def)
  have run: "init_freqs ex_env ?s = Some (0, ?t)"
    using len by (simp add: init_freqs_def ex_env_def exec init_freq_cpu_def Let_def)
  show ?thesis
    using init_freqs_cur_unknown [OF run, of 1] run len(1) [of 1] by (simp add: ex_env_def)
qed

end
