(* ===== verification/Seeker_Log.thy ===== *)
theory Seeker_Log
  imports Cpu_Freq
begin

text \<open>
  The log of the scheduler (\<open>Module/seeker-scheduler/log.c\<close>,
  \<open>Module/include/log_public.h\<close>): a linked list of blocks on the heap of a slab cache.
  Writers append under \<open>log_lock\<close>; the reader of \<open>/dev/seeker_log\<close> removes blocks from the
  front without the lock and never takes the last one. The heap maps addresses to live
  blocks, so a use of a freed block shows as a lookup that fails, which the operations
  return as \<open>None\<close>.
\<close>

subsection \<open>Entries\<close>

record log_scheduler_t =
  sch_interval :: u64
  sch_pid :: u32
  sch_cpu :: u32
  sch_state :: u32
  sch_cycles :: u64
  sch_state_req :: u32
  sch_state_given :: u32
  sch_ipc :: u32
  sch_inst :: u64

record log_state_t =
  st_cpu :: int
  st_state :: int
  residency_time :: u64

record log_mutator_t =
  mut_interval :: u64
  mut_count :: u32
  cpus_req :: "u32 arr"
  cpus_given :: "u32 arr"

record log_pid_t =
  pid_name :: string
  pid_pid :: u32

text \<open>The tagged union; \<open>LOG_UNSET\<close> is the content of a block nobody has filled yet.\<close>

datatype log_t =
    LOG_SCH log_scheduler_t
  | LOG_MUT log_mutator_t
  | LOG_PID log_pid_t
  | LOG_STATE log_state_t
  | LOG_UNSET

text \<open>\<open>sizeof(log_t)\<close> on x86-64 (the mutator entry is the largest member).\<close>

definition sizeof_log_t :: nat where "sizeof_log_t = 88"

record log_block =
  entry :: log_t
  nxt :: "nat option"

record log_st = freq_st +
  log_heap :: "nat \<Rightarrow> log_block option"
  start_log :: "nat option"
  current_log :: "nat option"
  first_read :: bool
  dev_created :: bool
  dev_open :: bool
  log_cachep :: bool
  log_lock :: bool
  log_mdev_registered :: bool
  log_cache_live :: bool

subsection \<open>Writing\<close>

definition get_log :: "kenv \<Rightarrow> 'a log_st_scheme \<Rightarrow> nat option \<times> 'a log_st_scheme" where
  "get_log env s =
     (if current_log s = None then (None, s)
      else
        let t = s\<lparr>log_lock := True\<rparr> in
        if \<not> dev_open t \<or> current_log t = None \<or> \<not> log_cachep t
        then (None, t\<lparr>log_lock := False\<rparr>)
        else
          (case kmem_cache_alloc env (\<lambda>a. log_heap t a \<noteq> None) of
             None \<Rightarrow> (None, t\<lparr>log_lock := False\<rparr>)
           | Some p \<Rightarrow>
               (Some p, t\<lparr>log_heap := (log_heap t)(p \<mapsto> \<lparr>entry = LOG_UNSET, nxt = None\<rparr>)\<rparr>)))"

text \<open>Writing the fields of \<open>p->entry\<close>, which the callers do between the two calls.\<close>

definition set_entry :: "nat \<Rightarrow> log_t \<Rightarrow> 'a log_st_scheme \<Rightarrow> 'a log_st_scheme" where
  "set_entry p e s =
     s\<lparr>log_heap := (log_heap s)(p := map_option (\<lambda>b. b\<lparr>entry := e\<rparr>) (log_heap s p))\<rparr>"

text \<open>\<open>current_log\<close> is not NULL here: \<open>get_log\<close> checked it and the lock is held since.\<close>

definition put_log :: "nat option \<Rightarrow> 'a log_st_scheme \<Rightarrow> 'a log_st_scheme" where
  "put_log p s =
     (case p of
        None \<Rightarrow> s
      | Some a \<Rightarrow>
          (case current_log s of
             None \<Rightarrow> s
           | Some c \<Rightarrow>
               s\<lparr>log_heap := (log_heap s)
                   (c := map_option (\<lambda>b. b\<lparr>nxt := Some a\<rparr>) (log_heap s c)),
                 current_log := Some a, log_lock := False\<rparr>))"

text \<open>The writers' pattern: get a block, fill it if there is one, put it.\<close>

definition log_entry :: "kenv \<Rightarrow> log_t \<Rightarrow> 'a log_st_scheme \<Rightarrow> 'a log_st_scheme" where
  "log_entry env e s =
     (case get_log env s of
        (None, t) \<Rightarrow> put_log None t
      | (Some p, t) \<Rightarrow> put_log (Some p) (set_entry p e t))"

subsection \<open>Freeing and reading\<close>

definition log_free :: "nat option \<Rightarrow> 'a log_st_scheme \<Rightarrow> 'a log_st_scheme" where
  "log_free p s =
     (case p of
        None \<Rightarrow> s
      | Some a \<Rightarrow>
          if \<not> log_cachep s then s else s\<lparr>log_heap := (log_heap s)(a := None)\<rparr>)"

partial_function (option) free_chain ::
    "nat option \<Rightarrow> 'a log_st_scheme \<Rightarrow> 'a log_st_scheme option" where
  "free_chain c1 s =
     (case c1 of
        None \<Rightarrow> Some s
      | Some a \<Rightarrow>
          (case log_heap s a of
             None \<Rightarrow> None
           | Some b \<Rightarrow> free_chain (nxt b) (log_free (Some a) s)))"

definition purge_log :: "'a log_st_scheme \<Rightarrow> 'a log_st_scheme option" where
  "purge_log s =
     (if start_log s = None \<or> current_log s = None then Some s
      else free_chain (start_log s) (s\<lparr>start_log := None, current_log := None\<rparr>))"

text \<open>
  The copying loop of the reader: \<open>i\<close> bytes are copied so far, \<open>out\<close> is the user's buffer
  as a list of entries.
\<close>

function read_loop ::
    "nat \<Rightarrow> nat \<Rightarrow> log_t list \<Rightarrow> 'a log_st_scheme \<Rightarrow>
     (nat \<times> log_t list \<times> 'a log_st_scheme) option" where
  "read_loop cnt i out s =
     (if i + sizeof_log_t \<le> cnt then
        (case start_log s of
           None \<Rightarrow> None
         | Some a \<Rightarrow>
             (case log_heap s a of
                None \<Rightarrow> None
              | Some b \<Rightarrow>
                  if nxt b \<noteq> None \<and> start_log s \<noteq> current_log s
                  then read_loop cnt (i + sizeof_log_t) (out @ [entry b])
                         (log_free (Some a) (s\<lparr>start_log := nxt b\<rparr>))
                  else Some (i, out, s)))
      else Some (i, out, s))"
  by pat_completeness auto
termination
  by (relation "measure (\<lambda>(cnt, i, out, s). cnt - i)") (auto simp: sizeof_log_t_def)

declare read_loop.simps [simp del]

text \<open>\<open>args\<close>: neither the buffer nor the file pointer is NULL.\<close>

definition seeker_log_read ::
    "bool \<Rightarrow> nat \<Rightarrow> 'a log_st_scheme \<Rightarrow> (nat \<times> log_t list \<times> 'a log_st_scheme) option" where
  "seeker_log_read args cnt s =
     (case start_log s of
        None \<Rightarrow> Some (0, [], s)
      | Some a \<Rightarrow>
          if \<not> args \<or> start_log s = current_log s then Some (0, [], s)
          else if first_read s then
            (case log_heap s a of
               None \<Rightarrow> None
             | Some b \<Rightarrow>
                 if nxt b = None then Some (0, [], s)
                 else read_loop cnt 0 []
                        ((log_free (Some a) (s\<lparr>start_log := nxt b\<rparr>))\<lparr>first_read := False\<rparr>))
          else read_loop cnt 0 [] s)"

subsection \<open>Setting up and tearing down\<close>

definition log_init :: "kenv \<Rightarrow> 'a log_st_scheme \<Rightarrow> int \<times> 'a log_st_scheme" where
  "log_init env s =
     (let s = s\<lparr>log_lock := False\<rparr> in
      if misc_register_ret env < 0 then (- 1, s)
      else
        let s = s\<lparr>log_mdev_registered := True\<rparr>;
            s = s\<lparr>log_cachep := kmem_cache_create_ok env, log_cache_live := kmem_cache_create_ok env\<rparr>
        in if \<not> log_cachep s then (- 1, s\<lparr>log_mdev_registered := False\<rparr>)
           else
             (case kmem_cache_alloc env (\<lambda>a. log_heap s a \<noteq> None) of
                None \<Rightarrow> (- 1, s\<lparr>current_log := None, log_cache_live := False,
                               log_mdev_registered := False\<rparr>)
              | Some a \<Rightarrow>
                  (0, s\<lparr>log_heap := (log_heap s)(a \<mapsto> \<lparr>entry = LOG_UNSET, nxt = None\<rparr>),
                        current_log := Some a, start_log := Some a,
                        dev_created := True, first_read := True\<rparr>)))"

definition log_exit :: "'a log_st_scheme \<Rightarrow> 'a log_st_scheme option" where
  "log_exit s =
     (let s = (if dev_open s then s\<lparr>dev_open := False\<rparr> else s) in
      if dev_created s then
        map_option (\<lambda>t. t\<lparr>log_cache_live := False, dev_created := False\<rparr>)
          (purge_log (s\<lparr>log_mdev_registered := False\<rparr>))
      else Some s)"

subsection \<open>The list behind the pointers\<close>

fun chain :: "(nat \<Rightarrow> log_block option) \<Rightarrow> nat list \<Rightarrow> bool" where
  "chain h [] = False"
| "chain h [a] = (case h a of None \<Rightarrow> False | Some b \<Rightarrow> nxt b = None)"
| "chain h (a # c # ps) =
     ((case h a of None \<Rightarrow> False | Some b \<Rightarrow> nxt b = Some c) \<and> chain h (c # ps))"

text \<open>
  \<open>log_rep s ps\<close>: the live blocks are exactly the addresses \<open>ps\<close>, linked in that order
  from \<open>start_log\<close> to \<open>current_log\<close>, with nothing leaked.
\<close>

definition log_rep :: "'a log_st_scheme \<Rightarrow> nat list \<Rightarrow> bool" where
  "log_rep s ps \<longleftrightarrow>
     chain (log_heap s) ps \<and> distinct ps \<and> start_log s = Some (hd ps) \<and>
     current_log s = Some (last ps) \<and> dom (log_heap s) = set ps"

definition block_entry :: "'a log_st_scheme \<Rightarrow> nat \<Rightarrow> log_t" where
  "block_entry s a = (case log_heap s a of None \<Rightarrow> LOG_UNSET | Some b \<Rightarrow> entry b)"

text \<open>
  The abstract log: the entries put and not yet read. The first block carries no entry
  until the first read has dropped it.
\<close>

definition log_abs :: "'a log_st_scheme \<Rightarrow> log_t list \<Rightarrow> bool" where
  "log_abs s q \<longleftrightarrow>
     (\<exists>ps. log_rep s ps \<and> q = map (block_entry s) (if first_read s then tl ps else ps))"

lemma chain_cong: "(\<And>a. a \<in> set ps \<Longrightarrow> h a = k a) \<Longrightarrow> chain h ps = chain k ps"
  by (induction h ps rule: chain.induct) auto

lemma chain_head:
  "chain h (a # ps) \<Longrightarrow>
     \<exists>b. h a = Some b \<and> nxt b = (case ps of [] \<Rightarrow> None | c # _ \<Rightarrow> Some c)"
  by (cases ps) (auto split: option.splits)

lemma chain_nonempty: "chain h ps \<Longrightarrow> ps \<noteq> []"
  by auto

lemma chain_tl:
  assumes "chain h (a # c # ps)" and "a \<notin> set (c # ps)"
  shows "chain (h(a := None)) (c # ps)"
proof -
  have "chain (h(a := None)) (c # ps) = chain h (c # ps)"
    by (rule chain_cong) (use assms(2) in auto)
  with assms(1) show ?thesis by simp
qed

lemma chain_append:
  assumes "chain h ps" and "distinct (ps @ [p])"
    and "h (last ps) = Some b" and "k (last ps) = Some (b\<lparr>nxt := Some p\<rparr>)"
    and "k p = Some \<lparr>entry = e, nxt = None\<rparr>"
    and "\<And>a. a \<noteq> last ps \<Longrightarrow> a \<noteq> p \<Longrightarrow> k a = h a"
  shows "chain k (ps @ [p])"
  using assms
proof (induction h ps rule: chain.induct)
  case (1 h)
  then show ?case by simp
next
  case (2 h a)
  then show ?case by simp
next
  case (3 h a c ps)
  have "last (c # ps) \<in> set (c # ps)" by (rule last_in_set) simp
  then have "a \<noteq> last (c # ps)" using "3.prems"(2) by (metis append_Cons distinct.simps(2) Un_iff set_append)
  then have "k a = h a" using "3.prems" by auto
  moreover have "chain k ((c # ps) @ [p])"
    by (rule "3.IH") (use "3.prems" in auto)
  ultimately show ?case using "3.prems" by simp
qed

lemma log_rep_nonempty: "log_rep s ps \<Longrightarrow> ps \<noteq> []"
  by (auto simp: log_rep_def)

lemma log_rep_live: "log_rep s ps \<Longrightarrow> a \<in> set ps \<Longrightarrow> \<exists>b. log_heap s a = Some b"
  unfolding log_rep_def by auto

lemma chain_unique: "chain h ps \<Longrightarrow> chain h qs \<Longrightarrow> hd ps = hd qs \<Longrightarrow> ps = qs"
proof (induction h ps arbitrary: qs rule: chain.induct)
  case (1 h)
  then show ?case by simp
  next
  case (2 h a)
  from "2.prems" obtain rs where "qs = a # rs" by (cases qs) auto
  with "2.prems" show ?case by (cases rs) (auto split: option.splits)
  next
  case (3 h a c ps)
  from "3.prems" obtain rs where qs: "qs = a # rs" by (cases qs) auto
  with "3.prems" obtain d ts where rs: "rs = d # ts" by (cases rs) (auto split: option.splits)
  from "3.prems" qs rs have "d = c" and "chain h (d # ts)" by (auto split: option.splits)
  with "3.IH" [of "d # ts"] "3.prems" qs rs show ?case by auto
qed

lemma log_rep_unique:
  assumes "log_rep s ps" and "log_rep s qs"
  shows "ps = qs"
  by (rule chain_unique [of "log_heap s"]) (use assms in \<open>simp_all add: log_rep_def\<close>)

subsection \<open>Writing appends\<close>

definition log_ready :: "kenv \<Rightarrow> 'a log_st_scheme \<Rightarrow> bool" where
  "log_ready env s \<longleftrightarrow>
     dev_open s \<and> log_cachep s \<and> current_log s \<noteq> None \<and>
     kmem_cache_alloc env (\<lambda>a. log_heap s a \<noteq> None) \<noteq> None"

text \<open>Without a reader, a block or a cache the operation leaves the log as it was.\<close>

lemma log_entry_not_ready:
  "\<not> log_ready env s \<Longrightarrow>
     log_entry env e s = (if current_log s = None then s else s\<lparr>log_lock := False\<rparr>)"
  by (auto simp: log_entry_def get_log_def log_ready_def put_log_def Let_def split: option.splits)

lemma log_entry_rep:
  assumes rep: "log_rep s ps" and "log_ready env s" and "alloc_fresh env"
  obtains p where "p \<notin> set ps" and "log_rep (log_entry env e s) (ps @ [p])"
    and "\<And>a. a \<in> set ps \<Longrightarrow> block_entry (log_entry env e s) a = block_entry s a"
    and "block_entry (log_entry env e s) p = e"
    and "first_read (log_entry env e s) = first_read s"
proof -
  obtain p where p: "kmem_cache_alloc env (\<lambda>a. log_heap s a \<noteq> None) = Some p"
    using assms(2) by (auto simp: log_ready_def)
  have free: "log_heap s p = None"
    using alloc_freshD [OF assms(3) p] by simp
  have ps: "ps \<noteq> []" by (rule log_rep_nonempty [OF rep])
  have new: "p \<notin> set ps" using rep free unfolding log_rep_def by blast
  have cur: "current_log s = Some (last ps)" using rep by (simp add: log_rep_def)
  obtain b where b: "log_heap s (last ps) = Some b"
    using log_rep_live [OF rep] ps by force
  have ne: "last ps \<noteq> p" using free b by auto
  let ?k = "(log_heap s)(p \<mapsto> \<lparr>entry = e, nxt = None\<rparr>, last ps \<mapsto> b\<lparr>nxt := Some p\<rparr>)"
  have run: "log_entry env e s =
      s\<lparr>log_lock := False, log_heap := ?k, current_log := Some p\<rparr>"
    using assms(2) p cur b ne
    by (auto simp: log_entry_def get_log_def log_ready_def put_log_def set_entry_def Let_def
        fun_upd_twist)
  have "chain ?k (ps @ [p])"
    by (rule chain_append [where h = "log_heap s" and b = b])
      (use rep b ne new in \<open>auto simp: log_rep_def\<close>)
  then have "log_rep (log_entry env e s) (ps @ [p])"
    using rep ps new b unfolding run by (auto simp: log_rep_def dom_def)
  moreover have "block_entry (log_entry env e s) a = block_entry s a" if "a \<in> set ps" for a
    using that new b unfolding run by (auto simp: block_entry_def)
  moreover have "block_entry (log_entry env e s) p = e" and
    "first_read (log_entry env e s) = first_read s"
    using ne unfolding run by (auto simp: block_entry_def)
  ultimately show thesis using that new by blast
qed

lemma log_entry_abs:
  assumes "log_abs s q" and "log_ready env s" and "alloc_fresh env"
  shows "log_abs (log_entry env e s) (q @ [e])"
proof -
  obtain ps where rep: "log_rep s ps"
    and q: "q = map (block_entry s) (if first_read s then tl ps else ps)"
    using assms(1) by (auto simp: log_abs_def)
  from rep assms(2,3) obtain p where "p \<notin> set ps" and "log_rep (log_entry env e s) (ps @ [p])"
    and same: "\<And>a. a \<in> set ps \<Longrightarrow> block_entry (log_entry env e s) a = block_entry s a"
    and "block_entry (log_entry env e s) p = e"
    and "first_read (log_entry env e s) = first_read s"
    by (rule log_entry_rep [where e = e]) blast
  moreover have "set (tl ps) \<subseteq> set ps" by (cases ps) auto
  ultimately show ?thesis
    using log_rep_nonempty [OF rep] same unfolding log_abs_def q
    by (intro exI [of _ "ps @ [p]"]) (auto simp: tl_append split: list.splits)
qed

text \<open>The lock is free again after the writer's pattern.\<close>

lemma log_entry_lock: "\<not> log_lock s \<Longrightarrow> \<not> log_lock (log_entry env e s)"
  by (auto simp: log_entry_def get_log_def put_log_def set_entry_def Let_def split: option.splits)

subsection \<open>Reading takes from the front\<close>

text \<open>Dropping the first block of a list with more than one.\<close>

lemma drop_first_rep:
  assumes rep: "log_rep s (a # c # ps)" and "log_cachep s"
  defines "t \<equiv> log_free (Some a) (s\<lparr>start_log := Some c\<rparr>)"
  shows "log_rep t (c # ps)" and "\<And>x. x \<in> set (c # ps) \<Longrightarrow> block_entry t x = block_entry s x"
    and "first_read t = first_read s" and "log_cachep t"
proof -
  have a: "a \<notin> set (c # ps)" and "chain (log_heap s) (a # c # ps)" and d: "distinct (c # ps)"
    using rep by (auto simp: log_rep_def)
  then have "chain ((log_heap s)(a := None)) (c # ps)" by (intro chain_tl)
  moreover have "dom (log_heap s) - {a} = set (c # ps)"
    using rep a by (auto simp: log_rep_def)
  moreover have t: "t = s\<lparr>start_log := Some c, log_heap := (log_heap s)(a := None)\<rparr>"
    using assms(2) by (simp add: t_def log_free_def)
  ultimately show "log_rep t (c # ps)"
    using rep d by (auto simp: log_rep_def)
  show "block_entry t x = block_entry s x" if "x \<in> set (c # ps)" for x
    using that a by (auto simp: t block_entry_def)
  show "first_read t = first_read s" and "log_cachep t"
    using assms(2) by (simp_all add: t)
qed

definition copied :: "nat \<Rightarrow> nat \<Rightarrow> nat" where
  "copied bytes len = min (bytes div sizeof_log_t) (len - 1)"

lemma copied_Suc:
  "sizeof_log_t \<le> bytes \<Longrightarrow> copied bytes (Suc (Suc n)) = Suc (copied (bytes - sizeof_log_t) (Suc n))"
  by (simp add: copied_def sizeof_log_t_def le_div_geq)

lemma read_loop_rep:
  assumes "log_rep s ps" and "log_cachep s" and "i \<le> cnt"
  shows "\<exists>t. read_loop cnt i out s =
      Some (i + sizeof_log_t * copied (cnt - i) (length ps),
            out @ map (block_entry s) (take (copied (cnt - i) (length ps)) ps), t) \<and>
    log_rep t (drop (copied (cnt - i) (length ps)) ps) \<and>
    (\<forall>a \<in> set (drop (copied (cnt - i) (length ps)) ps). block_entry t a = block_entry s a) \<and>
    first_read t = first_read s \<and> log_cachep t"
  using assms
proof (induction ps arbitrary: i out s)
  case Nil
  then show ?case by (auto dest: log_rep_nonempty)
next
  case (Cons a ps)
  show ?case
  proof (cases "i + sizeof_log_t \<le> cnt")
    case False
    then have "cnt - i < sizeof_log_t" using Cons.prems(3) by linarith
    then have "copied (cnt - i) n = 0" for n by (simp add: copied_def)
    with False Cons.prems show ?thesis by (simp add: read_loop.simps)
  next
    case True
    have start: "start_log s = Some a" using Cons.prems by (simp add: log_rep_def)
    show ?thesis
    proof (cases ps)
      case Nil
      then obtain b where "log_heap s a = Some b" "nxt b = None"
        using Cons.prems by (auto simp: log_rep_def split: option.splits)
      with start Nil Cons.prems show ?thesis
        by (simp add: read_loop.simps copied_def)
    next
      case (Cons c qs)
      note rep = Cons.prems(1) [unfolded Cons]
      let ?s = "log_free (Some a) (s\<lparr>start_log := Some c\<rparr>)"
      obtain b where b: "log_heap s a = Some b" "nxt b = Some c"
        using rep by (auto simp: log_rep_def split: option.splits)
      have "a \<noteq> last ps" using rep Cons by (auto simp: log_rep_def)
      then have cur: "start_log s \<noteq> current_log s"
        using rep start Cons by (auto simp: log_rep_def)
      have run: "read_loop cnt i out s =
          read_loop cnt (i + sizeof_log_t) (out @ [block_entry s a]) ?s"
        using True start b cur by (subst read_loop.simps) (simp add: block_entry_def)
      note next_rep = drop_first_rep [OF rep Cons.prems(2)]
      let ?k = "copied (cnt - (i + sizeof_log_t)) (length ps)"
      have k: "copied (cnt - i) (length (a # ps)) = Suc ?k"
        using True Cons by (simp add: copied_Suc diff_diff_left)
      have "\<exists>t. read_loop cnt (i + sizeof_log_t) (out @ [block_entry s a]) ?s =
          Some (i + sizeof_log_t + sizeof_log_t * ?k,
                (out @ [block_entry s a]) @ map (block_entry ?s) (take ?k ps), t) \<and>
        log_rep t (drop ?k ps) \<and>
        (\<forall>x \<in> set (drop ?k ps). block_entry t x = block_entry ?s x) \<and>
        first_read t = first_read ?s \<and> log_cachep t"
        by (rule Cons.IH) (use next_rep Cons True in auto)
      then obtain t where t: "read_loop cnt (i + sizeof_log_t) (out @ [block_entry s a]) ?s =
          Some (i + sizeof_log_t + sizeof_log_t * ?k,
                (out @ [block_entry s a]) @ map (block_entry ?s) (take ?k ps), t)"
        "log_rep t (drop ?k ps)" "first_read t = first_read ?s" "log_cachep t"
        and keep: "\<forall>x \<in> set (drop ?k ps). block_entry t x = block_entry ?s x" by blast
      have same: "block_entry ?s x = block_entry s x" if "x \<in> set ps" for x
        using next_rep(2) that Cons by simp
      have "map (block_entry ?s) (take ?k ps) = map (block_entry s) (take ?k ps)"
        using same by (intro map_cong) (auto dest: in_set_takeD)
      moreover have "block_entry t x = block_entry s x" if "x \<in> set (drop ?k ps)" for x
        using keep that same [OF in_set_dropD [OF that]] by simp
      ultimately show ?thesis
        using t next_rep(3) unfolding run k by (intro exI [of _ t]) simp
    qed
  qed
qed

lemma log_rep_first_read [simp]: "log_rep (s\<lparr>first_read := b\<rparr>) ps = log_rep s ps"
  by (simp add: log_rep_def)

lemma block_entry_first_read [simp]: "block_entry (s\<lparr>first_read := b\<rparr>) = block_entry s"
  by (simp add: block_entry_def fun_eq_iff)

text \<open>
  A read returns the oldest pending entries, as many whole ones as fit the buffer, never
  the newest one, and leaves the rest pending.
\<close>

lemma seeker_log_read_abs:
  fixes cnt :: nat
  assumes "log_abs s q" and "log_cachep s"
  defines "k \<equiv> copied cnt (length q)"
  shows "\<exists>t. seeker_log_read True cnt s = Some (sizeof_log_t * k, take k q, t) \<and>
    log_abs t (drop k q) \<and> log_cachep t"
proof -
  obtain ps where rep: "log_rep s ps"
    and q: "q = map (block_entry s) (if first_read s then tl ps else ps)"
    using assms(1) by (auto simp: log_abs_def)
  obtain a qs where ps: "ps = a # qs" using log_rep_nonempty [OF rep] by (cases ps) auto
  have start: "start_log s = Some a" using rep ps by (simp add: log_rep_def)
  have loop: "\<exists>t. read_loop cnt 0 [] u = Some (sizeof_log_t * copied cnt (length rs),
        take (copied cnt (length rs)) (map (block_entry u) rs), t) \<and>
      log_abs t (drop (copied cnt (length rs)) (map (block_entry u) rs)) \<and> log_cachep t"
    if u: "log_rep u rs" "log_cachep u" "\<not> first_read u" for u rs
  proof -
    let ?k = "copied cnt (length rs)"
    obtain t where "read_loop cnt 0 [] u =
        Some (sizeof_log_t * ?k, map (block_entry u) (take ?k rs), t)"
      and "log_rep t (drop ?k rs)" and "log_cachep t" and "first_read t = first_read u"
      and eq: "\<forall>a \<in> set (drop ?k rs). block_entry t a = block_entry u a"
      using read_loop_rep [OF u(1,2), of 0 cnt "[]"] by auto
    moreover have "drop ?k (map (block_entry u) rs) = map (block_entry t) (drop ?k rs)"
      using eq by (simp add: drop_map)
    ultimately show ?thesis
      using u(3) unfolding log_abs_def by (auto simp: take_map intro!: exI [of _ "drop ?k rs"])
  qed
  show ?thesis
  proof (cases qs)
    case Nil
    then have "k = 0" using ps q by (simp add: k_def copied_def)
    moreover have "start_log s = current_log s"
      using rep ps Nil by (simp add: log_rep_def)
    moreover from this have "seeker_log_read True cnt s = Some (0, [], s)"
      by (auto simp: seeker_log_read_def split: option.splits)
    ultimately show ?thesis
      using assms(1,2) by simp
  next
    case (Cons c rs)
    note rep' = rep [unfolded ps Cons]
    have "start_log s \<noteq> current_log s"
      using rep' by (auto simp: log_rep_def split: if_splits)
    moreover obtain b where b: "log_heap s a = Some b" "nxt b = Some c"
      using rep' by (auto simp: log_rep_def split: option.splits)
    ultimately have read: "seeker_log_read True cnt s =
        (if first_read s
         then read_loop cnt 0 [] ((log_free (Some a) (s\<lparr>start_log := Some c\<rparr>))\<lparr>first_read := False\<rparr>)
         else read_loop cnt 0 [] s)"
      using start by (simp add: seeker_log_read_def)
    note next_rep = drop_first_rep [OF rep' assms(2)]
    show ?thesis
    proof (cases "first_read s")
      case True
      then have "q = map (block_entry (log_free (Some a) (s\<lparr>start_log := Some c\<rparr>))) (c # rs)"
        using next_rep(2) q ps Cons by simp
      then show ?thesis
        using loop [of "(log_free (Some a) (s\<lparr>start_log := Some c\<rparr>))\<lparr>first_read := False\<rparr>" "c # rs"]
          next_rep(1,4) True unfolding k_def read by simp
    next
      case False
      then show ?thesis
        using loop [OF rep assms(2)] q ps unfolding k_def read by simp
    qed
  qed
qed

subsection \<open>Purging frees every block\<close>

lemma free_chain_rep:
  assumes "chain (log_heap s) ps" and "distinct ps" and "log_cachep s"
  shows "free_chain (Some (hd ps)) s =
    Some (s\<lparr>log_heap := (\<lambda>a. if a \<in> set ps then None else log_heap s a)\<rparr>)"
  using assms
proof (induction ps arbitrary: s)
  case Nil
  then show ?case by simp
next
  case (Cons a ps)
  from chain_head [OF Cons.prems(1)]
  obtain b where b: "log_heap s a = Some b" "nxt b = (case ps of [] \<Rightarrow> None | c # _ \<Rightarrow> Some c)"
    by blast
  let ?s = "s\<lparr>log_heap := (log_heap s)(a := None)\<rparr>"
  have step: "free_chain (Some (hd (a # ps))) s = free_chain (nxt b) ?s"
    using b(1) Cons.prems(3) by (subst free_chain.simps) (simp add: log_free_def)
  show ?case
  proof (cases ps)
    case Nil
    then have "free_chain (nxt b) ?s = Some ?s"
      using b(2) by (subst free_chain.simps) simp
    moreover have "(log_heap s)(a := None) = (\<lambda>x. if x \<in> set (a # ps) then None else log_heap s x)"
      using Nil by auto
    ultimately show ?thesis unfolding step by simp
  next
    case (Cons c qs)
    have "free_chain (Some (hd ps)) ?s =
        Some (?s\<lparr>log_heap := (\<lambda>x. if x \<in> set ps then None else log_heap ?s x)\<rparr>)"
    proof (rule Cons.IH)
      show "chain (log_heap ?s) ps"
        using Cons.prems(1,2) chain_tl [of "log_heap s" a c qs] Cons by simp
    qed (use Cons.prems in auto)
    moreover have "(\<lambda>x. if x \<in> set ps then None else log_heap ?s x) =
        (\<lambda>x. if x \<in> set (a # ps) then None else log_heap s x)"
      by auto
    ultimately show ?thesis unfolding step using b(2) Cons by simp
  qed
qed

lemma purge_log_rep:
  assumes "log_rep s ps" and "log_cachep s"
  shows "purge_log s =
    Some (s\<lparr>start_log := None, current_log := None, log_heap := Map.empty\<rparr>)"
proof -
  let ?s = "s\<lparr>start_log := None, current_log := None\<rparr>"
  have "free_chain (Some (hd ps)) ?s =
      Some (?s\<lparr>log_heap := (\<lambda>a. if a \<in> set ps then None else log_heap ?s a)\<rparr>)"
    by (rule free_chain_rep) (use assms in \<open>auto simp: log_rep_def\<close>)
  moreover have "(\<lambda>a. if a \<in> set ps then None else log_heap ?s a) = Map.empty"
    using assms(1) by (auto simp: log_rep_def fun_eq_iff)
  ultimately show ?thesis
    using assms(1) by (simp add: purge_log_def log_rep_def)
qed

subsection \<open>The log as a queue\<close>

text \<open>
  What the writers and the reader rely on: a representation relation, a writer that
  appends when it accepts the entry, and a reader that takes from the front. From the
  laws alone follows what a monitoring tool needs of any interleaving of writes and
  reads: nothing is lost, repeated or reordered.
\<close>

datatype 'e log_op = Put 'e | Take nat

fun run_ops ::
    "('e \<Rightarrow> 's \<Rightarrow> 's) \<Rightarrow> (nat \<Rightarrow> 's \<Rightarrow> ('e list \<times> 's) option) \<Rightarrow> 'e log_op list \<Rightarrow> 's \<Rightarrow>
     ('e list \<times> 's) option" where
  "run_ops put take_op [] s = Some ([], s)"
| "run_ops put take_op (Put e # ops) s = run_ops put take_op ops (put e s)"
| "run_ops put take_op (Take n # ops) s =
     (case take_op n s of
        None \<Rightarrow> None
      | Some (xs, t) \<Rightarrow> map_option (\<lambda>(ys, u). (xs @ ys, u)) (run_ops put take_op ops t))"

text \<open>The entries accepted along the run.\<close>

fun accepted ::
    "('e \<Rightarrow> 's \<Rightarrow> 's) \<Rightarrow> (nat \<Rightarrow> 's \<Rightarrow> ('e list \<times> 's) option) \<Rightarrow> ('s \<Rightarrow> bool) \<Rightarrow>
     'e log_op list \<Rightarrow> 's \<Rightarrow> 'e list" where
  "accepted put take_op accepts [] s = []"
| "accepted put take_op accepts (Put e # ops) s =
     (if accepts s then [e] else []) @ accepted put take_op accepts ops (put e s)"
| "accepted put take_op accepts (Take n # ops) s =
     (case take_op n s of None \<Rightarrow> [] | Some (xs, t) \<Rightarrow> accepted put take_op accepts ops t)"

locale log_queue =
  fixes abs_rel :: "'s \<Rightarrow> 'e list \<Rightarrow> bool"
    and accepts :: "'s \<Rightarrow> bool"
    and put :: "'e \<Rightarrow> 's \<Rightarrow> 's"
    and take_op :: "nat \<Rightarrow> 's \<Rightarrow> ('e list \<times> 's) option"
  assumes put_abs: "abs_rel s q \<Longrightarrow> abs_rel (put e s) (if accepts s then q @ [e] else q)"
    and take_abs: "abs_rel s q \<Longrightarrow>
      \<exists>k t. take_op n s = Some (take k q, t) \<and> abs_rel t (drop k q)"
begin

lemma run_fifo:
  "abs_rel s q \<Longrightarrow>
     \<exists>out t rest. run_ops put take_op ops s = Some (out, t) \<and> abs_rel t rest \<and>
       out @ rest = q @ accepted put take_op accepts ops s"
proof (induction ops arbitrary: s q)
  case Nil
  then show ?case by auto
next
  case (Cons op ops)
  show ?case
  proof (cases op)
    case (Put e)
    with Cons.IH [OF put_abs [OF Cons.prems, of e]] show ?thesis by (cases "accepts s") simp_all
  next
    case (Take n)
    from take_abs [OF Cons.prems, of n] obtain k t
      where t: "take_op n s = Some (take k q, t)" "abs_rel t (drop k q)" by blast
    from Cons.IH [OF t(2)] obtain out u rest
      where u: "run_ops put take_op ops t = Some (out, u)" "abs_rel u rest"
        "out @ rest = drop k q @ accepted put take_op accepts ops t" by blast
    have "take k q @ out @ rest = q @ accepted put take_op accepts ops t"
      unfolding u(3) by simp
    with t u(1,2) Take show ?thesis by auto
  qed
qed

end

lemma log_entry_cachep [simp]: "log_cachep (log_entry env e s) = log_cachep s"
  by (auto simp: log_entry_def get_log_def put_log_def set_entry_def Let_def split: option.splits)

lemma log_abs_lock [simp]: "log_abs (s\<lparr>log_lock := b\<rparr>) q = log_abs s q"
proof -
  have "block_entry (s\<lparr>log_lock := b\<rparr>) = block_entry s" by (simp add: block_entry_def fun_eq_iff)
  then show ?thesis by (simp add: log_abs_def log_rep_def)
qed

lemma log_entry_abs_cases:
  assumes "log_abs s q" and "alloc_fresh env"
  shows "log_abs (log_entry env e s) (if log_ready env s then q @ [e] else q)"
  using assms log_entry_abs [OF assms(1) _ assms(2)] by (simp add: log_entry_not_ready)

text \<open>
  The reader as the interface sees it: a buffer of \<open>cnt\<close> bytes, the copied entries and
  the new state. A writer of the model's own definitions satisfies the laws under any
  environment whose allocator hands out fresh blocks.
\<close>

definition log_take ::
    "nat \<Rightarrow> 'a log_st_scheme \<Rightarrow> (log_t list \<times> 'a log_st_scheme) option" where
  "log_take cnt s = map_option snd (seeker_log_read True cnt s)"

interpretation lq: log_queue
  "\<lambda>(env :: kenv, s :: 'a log_st_scheme) q. log_abs s q \<and> log_cachep s \<and> alloc_fresh env"
  "\<lambda>(env :: kenv, s :: 'a log_st_scheme). log_ready env s"
  "\<lambda>e (env :: kenv, s :: 'a log_st_scheme). (env, log_entry env e s)"
  "\<lambda>cnt (env :: kenv, s :: 'a log_st_scheme). map_option (\<lambda>(xs, t). (xs, (env, t))) (log_take cnt s)"
proof (unfold_locales, goal_cases)
  case (1 s q e)
  then show ?case
    using log_entry_abs_cases [of "snd s" q "fst s" e] by (cases s) (auto split: if_splits)
next
  case (2 s q n)
  then show ?case
    using seeker_log_read_abs [of "snd s" q n] by (cases s) (auto simp: log_take_def)
qed

subsection \<open>Properties\<close>

definition ex_log :: log_st where
  "ex_log = freq_st.extend ex_freq
     (log_st.fields Map.empty None None False False True False True False False)"

lemmas ex_log_simps = ex_log_def ex_freq_def ex_usr_def usr_st.defs freq_st.defs log_st.defs

text \<open>
  on a module load whose device, cache and first block can be had, \<open>log_init\<close> succeeds,
  leaves the lock free and sets up the empty log; whenever it fails, it leaves no block
  allocated that was not there before.
\<close>

theorem log_init_empty_log:
  assumes "log_heap s = Map.empty"
  shows "if 0 \<le> misc_register_ret env \<and> kmem_cache_create_ok env \<and>
            kmem_cache_alloc env (\<lambda>_. False) \<noteq> None
         then fst (log_init env s) = 0 \<and> log_abs (snd (log_init env s)) [] \<and>
              log_cachep (snd (log_init env s)) \<and> \<not> log_lock (snd (log_init env s))
         else fst (log_init env s) = - 1 \<and> log_heap (snd (log_init env s)) = Map.empty"
  using assms
  by (auto simp: log_init_def Let_def log_abs_def log_rep_def intro!: exI [of _ "[_]"] split: if_splits)

lemma log_init_empty_log_witness: "log_abs (snd (log_init ex_env ex_log)) []"
  using log_init_empty_log [of ex_log ex_env]
  by (simp add: ex_log_simps ex_env_def ex_alloc_def)

text \<open>
  a read of \<open>cnt\<close> bytes from \<open>/dev/seeker_log\<close> hands out the oldest pending entries in
  order, as many whole ones as fit but never the newest, reports their size, keeps the
  rest pending and never touches a block that was freed.
\<close>

theorem seeker_log_read_oldest:
  assumes "log_abs s q" and "log_cachep s"
  shows "\<exists>t. seeker_log_read True cnt s =
      Some (sizeof_log_t * copied cnt (length q), take (copied cnt (length q)) q, t) \<and>
    log_abs t (drop (copied cnt (length q)) q)"
  using seeker_log_read_abs [OF assms] by blast

lemma ex_log_ready:
  "log_abs (snd (log_init ex_env ex_log)) []" "log_cachep (snd (log_init ex_env ex_log))"
  "log_ready ex_env (snd (log_init ex_env ex_log))"
  by (auto simp: ex_log_simps ex_env_def ex_alloc_def log_init_def Let_def log_abs_def log_rep_def
      log_ready_def intro!: exI [of _ "[0]"])

lemma seeker_log_read_oldest_witness:
  "\<exists>t. seeker_log_read True 200 (snd (log_init ex_env ex_log)) = Some (0, [], t) \<and> log_abs t []"
  using seeker_log_read_oldest [OF ex_log_ready(1,2), of 200]
  by (simp add: copied_def sizeof_log_t_def)

text \<open>
  C4: over any interleaving of writers and reads, what the reads have returned, followed
  by what is still pending, is what was pending at the start followed by the entries the
  log accepted, in the order of the writes: nothing is lost, repeated or reordered.
\<close>

theorem log_fifo:
  assumes "log_abs s q" and "log_cachep s" and "alloc_fresh env"
  defines "put \<equiv> \<lambda>e (env :: kenv, s). (env, log_entry env e s)"
    and "take_op \<equiv> \<lambda>cnt (env :: kenv, s). map_option (\<lambda>(xs, t). (xs, (env, t))) (log_take cnt s)"
    and "accepts \<equiv> \<lambda>(env :: kenv, s). log_ready env s"
  shows "\<exists>out env' t rest. run_ops put take_op ops (env, s) = Some (out, env', t) \<and>
    log_abs t rest \<and> out @ rest = q @ accepted put take_op accepts ops (env, s)"
  using lq.run_fifo [of "(env, s)" q ops] assms(1-3)
  unfolding put_def take_op_def accepts_def by (auto split: prod.splits)

lemma log_fifo_witness:
  "\<exists>out env' t rest.
     run_ops (\<lambda>e (env :: kenv, s). (env, log_entry env e s))
       (\<lambda>cnt (env :: kenv, s). map_option (\<lambda>(xs, t). (xs, (env, t))) (log_take cnt s))
       [Put LOG_UNSET] (ex_env, snd (log_init ex_env ex_log)) = Some (out, env', t) \<and>
     log_abs t rest \<and> out @ rest = [LOG_UNSET]"
  using log_fifo [OF ex_log_ready(1,2) ex_alloc_fresh, of "[Put LOG_UNSET]"]
  by (simp add: ex_log_ready(3))

text \<open>
  C40: unloading the module frees every block of the log, in any state of the queue,
  without touching a freed one, and afterwards the writers' pattern is a no-op.
\<close>

theorem log_exit_frees_all:
  assumes "log_abs s q" and "log_cachep s" and "dev_created s"
  shows "\<exists>t. log_exit s = Some t \<and> log_heap t = Map.empty \<and> \<not> dev_open t \<and>
    \<not> log_cache_live t \<and> log_entry env e t = t"
proof -
  obtain ps where rep: "log_rep s ps" using assms(1) by (auto simp: log_abs_def)
  let ?s = "(if dev_open s then s\<lparr>dev_open := False\<rparr> else s)\<lparr>log_mdev_registered := False\<rparr>"
  have "log_rep ?s ps" using rep by (simp add: log_rep_def)
  then have "purge_log ?s =
      Some (?s\<lparr>start_log := None, current_log := None, log_heap := Map.empty\<rparr>)"
    by (rule purge_log_rep) (use assms(2) in simp)
  then show ?thesis
    using assms(3)
    by (auto simp: log_exit_def Let_def log_entry_def get_log_def put_log_def)
qed

lemma log_exit_frees_all_witness:
  "\<exists>t. log_exit (snd (log_init ex_env ex_log)) = Some t \<and> log_heap t = Map.empty"
  using log_exit_frees_all [OF ex_log_ready(1,2)]
  by (auto simp: ex_log_simps ex_env_def ex_alloc_def log_init_def Let_def)

end
