(* ===== verification/Cpu_States.thy ===== *)
theory Cpu_States
  imports Seeker_Log
begin

text \<open>
  The performance states of the CPUs as the scheduler sees them
  (\<open>Module/seeker-scheduler/state.c\<close>, \<open>state.h\<close>): per state its mask of CPUs, their number and
  the demand the tasks put on it; per CPU its current state. The callback
  \<open>seeker_cpufreq_inform\<close> keeps them in step with the governor, and every change is
  logged with the time the CPU spent in its state.
\<close>

subsection \<open>State\<close>

record state_desc =
  sd_state :: int
  cpumask :: "int set"
  cpus :: int
  demand :: int

record state_st = log_st +
  total_online_cpus :: int
  max_state_possible :: "int arr"
  total_states :: int
  cur_cpu_state :: "int arr"
  states :: "state_desc arr"
  states_seq_lock :: nat
  high_state :: int
  low_state :: int
  mid_state :: int
  current_jiffies :: "u64 arr"
  state_logger_started :: bool
  state_logger_pending :: bool
  init_layout :: "int arr"
  init_layout_length :: int
  base_state :: int

definition upd_state ::
    "int \<Rightarrow> (state_desc \<Rightarrow> state_desc) \<Rightarrow> 'a state_st_scheme \<Rightarrow> 'a state_st_scheme" where
  "upd_state i f s = s\<lparr>states := (states s)(i := f (states s i))\<rparr>"

text \<open>The sequence lock: odd while a writer is inside.\<close>

definition write_seqlock :: "'a state_st_scheme \<Rightarrow> 'a state_st_scheme" where
  "write_seqlock s = s\<lparr>states_seq_lock := states_seq_lock s + 1\<rparr>"

definition write_sequnlock :: "'a state_st_scheme \<Rightarrow> 'a state_st_scheme" where
  "write_sequnlock s = s\<lparr>states_seq_lock := states_seq_lock s + 1\<rparr>"

definition BOUNDS :: "int \<Rightarrow> int \<Rightarrow> int \<Rightarrow> int" where
  "BOUNDS v l h = (if v < l then l else if h \<le> v then h - 1 else v)"

text \<open>An \<open>int\<close> compared with an \<open>unsigned int\<close>.\<close>

definition as_unsigned :: "int \<Rightarrow> int" where
  "as_unsigned i = i mod 2 ^ 32"

subsection \<open>Demand\<close>

definition demand_inc :: "int \<Rightarrow> 'a state_st_scheme \<Rightarrow> 'a state_st_scheme" where
  "demand_inc state s = upd_state state (\<lambda>d. d\<lparr>demand := demand d + 1\<rparr>) s"

definition demand_dec :: "int \<Rightarrow> 'a state_st_scheme \<Rightarrow> 'a state_st_scheme" where
  "demand_dec state s = upd_state state (\<lambda>d. d\<lparr>demand := demand d - 1\<rparr>) s"

definition demand_get :: "int \<Rightarrow> 'a state_st_scheme \<Rightarrow> int" where
  "demand_get state s = demand (states s state)"

definition demand_clear :: "int \<Rightarrow> 'a state_st_scheme \<Rightarrow> 'a state_st_scheme" where
  "demand_clear state s = upd_state state (\<lambda>d. d\<lparr>demand := 0\<rparr>) s"

subsection \<open>Logging and the callback\<close>

definition log_cpu_state :: "kenv \<Rightarrow> int \<Rightarrow> 'a state_st_scheme \<Rightarrow> 'a state_st_scheme" where
  "log_cpu_state env cpu s =
     (if jiffies env = current_jiffies s cpu then s
      else
        (case get_log env s of (p, t) \<Rightarrow>
           let e = LOG_STATE \<lparr>st_cpu = cpu, st_state = cur_cpu_state t cpu,
                     residency_time =
                       ((jiffies env - current_jiffies t cpu) * 1000) div of_int (HZ env)\<rparr>;
               t = (case p of None \<Rightarrow> t | Some a \<Rightarrow> set_entry a e t);
               t = t\<lparr>current_jiffies := (current_jiffies t)(cpu := jiffies env)\<rparr>
           in put_log p t))"

definition seeker_cpufreq_inform ::
    "kenv \<Rightarrow> int \<Rightarrow> int \<Rightarrow> 'a state_st_scheme \<Rightarrow> int \<times> 'a state_st_scheme" where
  "seeker_cpufreq_inform env cpu state s =
     (let s = (if cur_cpu_state s cpu \<noteq> state then
                 let s = write_seqlock s;
                     s = upd_state state (\<lambda>d. d\<lparr>cpumask := insert cpu (cpumask d)\<rparr>) s;
                     s = upd_state (cur_cpu_state s cpu)
                           (\<lambda>d. d\<lparr>cpumask := cpumask d - {cpu}\<rparr>) s;
                     s = upd_state state (\<lambda>d. d\<lparr>cpus := cpus d + 1\<rparr>) s;
                     s = upd_state (cur_cpu_state s cpu) (\<lambda>d. d\<lparr>cpus := cpus d - 1\<rparr>) s;
                     s = s\<lparr>cur_cpu_state := (cur_cpu_state s)(cpu := state)\<rparr>
                 in write_sequnlock s
               else s);
          s = log_cpu_state env cpu s
      in (0, s\<lparr>cur_cpu_state := (cur_cpu_state s)(cpu := state)\<rparr>))"

text \<open>
  The scheduler's user struct and its callback, by number; the scheduler is the only
  module of the repository that registers one.
\<close>

definition seeker_scheduler_user :: nat where "seeker_scheduler_user = 0"
definition inform_callback :: nat where "inform_callback = 0"

definition sched_call :: "kenv \<Rightarrow> 'a state_st_scheme informs" where
  "sched_call env c cpu state s =
     (if c = inform_callback then seeker_cpufreq_inform env cpu state s else (0, s))"

definition sched_set_freq ::
    "kenv \<Rightarrow> int \<Rightarrow> int \<Rightarrow> 'a state_st_scheme \<Rightarrow> int \<times> 'a state_st_scheme" where
  "sched_set_freq env cpu state s =
     set_freq env (sched_call env) (of_int cpu) (of_int state) s"

subsection \<open>The state logger\<close>

definition state_logger :: "kenv \<Rightarrow> 'a state_st_scheme \<Rightarrow> 'a state_st_scheme" where
  "state_logger env s =
     (let s = for_up 0 (total_online_cpus s) (log_cpu_state env) s
      in if state_logger_started s then s\<lparr>state_logger_pending := True\<rparr> else s)"

definition start_state_logger :: "'a state_st_scheme \<Rightarrow> 'a state_st_scheme" where
  "start_state_logger s =
     (if state_logger_started s then s
      else s\<lparr>state_logger_pending := True, state_logger_started := True\<rparr>)"

definition stop_state_logger :: "'a state_st_scheme \<Rightarrow> 'a state_st_scheme" where
  "stop_state_logger s =
     (if \<not> state_logger_started s then s
      else s\<lparr>state_logger_started := False, state_logger_pending := False\<rparr>)"

text \<open>Opening and closing \<open>/dev/seeker_log\<close> (in \<open>log.c\<close>).\<close>

definition seeker_log_open :: "'a state_st_scheme \<Rightarrow> int \<times> 'a state_st_scheme" where
  "seeker_log_open s = (0, (start_state_logger s)\<lparr>dev_open := True\<rparr>)"

definition seeker_log_close :: "'a state_st_scheme \<Rightarrow> int \<times> 'a state_st_scheme" where
  "seeker_log_close s = (0, stop_state_logger (s\<lparr>dev_open := False\<rparr>))"

subsection \<open>Initialising the states\<close>

definition read_max_states :: "int \<Rightarrow> 'a state_st_scheme \<Rightarrow> 'a state_st_scheme" where
  "read_max_states i s =
     (let s = s\<lparr>max_state_possible := (max_state_possible s)(i := get_max_states i s)\<rparr>
      in if total_states s < as_unsigned (max_state_possible s i)
         then s\<lparr>total_states := as_unsigned (max_state_possible s i)\<rparr> else s)"

definition clear_state :: "int \<Rightarrow> 'a state_st_scheme \<Rightarrow> 'a state_st_scheme" where
  "clear_state i s =
     (let s = upd_state i (\<lambda>d. d\<lparr>sd_state := i\<rparr>) s;
          s = upd_state i (\<lambda>d. d\<lparr>cpus := 0\<rparr>) s;
          s = demand_clear i s
      in upd_state i (\<lambda>d. d\<lparr>cpumask := {}\<rparr>) s)"

text \<open>The last four statements of the bodies that set up the CPUs.\<close>

definition place_cpu :: "kenv \<Rightarrow> int \<Rightarrow> int \<Rightarrow> 'a state_st_scheme \<Rightarrow> 'a state_st_scheme" where
  "place_cpu env i l s =
     (let s = snd (sched_set_freq env i l s);
          s = upd_state l (\<lambda>d. d\<lparr>cpumask := insert i (cpumask d)\<rparr>) s;
          s = upd_state l (\<lambda>d. d\<lparr>cpus := cpus d + 1\<rparr>) s
      in s\<lparr>cur_cpu_state := (cur_cpu_state s)(i := l)\<rparr>)"

definition layout_cpu :: "kenv \<Rightarrow> int \<Rightarrow> 'a state_st_scheme \<Rightarrow> 'a state_st_scheme" where
  "layout_cpu env i s =
     (let s = s\<lparr>init_layout := (init_layout s)
                  (i := BOUNDS (init_layout s i) 0 (total_states s))\<rparr>
      in place_cpu env i (init_layout s i) s)"

text \<open>
  \<open>init_cpu_states\<close> in three parts: the number of states, the empty states and the length
  of the layout, and then the loops that set up the CPUs.
\<close>

definition size_states :: "kenv \<Rightarrow> 'a state_st_scheme \<Rightarrow> 'a state_st_scheme" where
  "size_states env s =
     (let s = s\<lparr>states_seq_lock := 0\<rparr>;
          s = s\<lparr>current_jiffies :=
                  for_up 0 (total_online_cpus s) (\<lambda>i a. a(i := jiffies env)) (current_jiffies s)\<rparr>;
          s = for_up 0 (total_online_cpus s) read_max_states s;
          s = s\<lparr>low_state := 0, high_state := total_states s - 1,
                mid_state := total_states s div 2\<rparr>
      in s\<lparr>base_state := BOUNDS (base_state s) 0 (total_states s)\<rparr>)"

definition reset_cpu_states :: "kenv \<Rightarrow> 'a state_st_scheme \<Rightarrow> 'a state_st_scheme" where
  "reset_cpu_states env s =
     (let s = size_states env s;
          s = for_up 0 (total_states s) clear_state s;
          s = (if init_layout_length s = 0 then
                 s\<lparr>init_layout :=
                     for_up 0 (total_online_cpus s) (\<lambda>i a. a(i := 0)) (init_layout s),
                   init_layout_length := total_online_cpus s\<rparr>
               else s)
      in if total_online_cpus s < init_layout_length s
         then s\<lparr>init_layout_length := total_online_cpus s\<rparr> else s)"

definition init_cpu_states ::
    "kenv \<Rightarrow> 'a state_st_scheme \<Rightarrow> int \<times> 'a state_st_scheme" where
  "init_cpu_states env s =
     (let s = reset_cpu_states env s;
          s = for_up 0 (init_layout_length s) (layout_cpu env) s;
          s = for_up (init_layout_length s) (total_online_cpus s) (\<lambda>i. place_cpu env i 0) s
      in case register_scpufreq_user env (Some seeker_scheduler_user) s of
           (r, s) \<Rightarrow> if r \<noteq> 0 then (- 1, s) else (0, s))"

definition exit_cpu_states :: "'a state_st_scheme \<Rightarrow> 'a state_st_scheme" where
  "exit_cpu_states s = snd (deregister_scpufreq_user (Some seeker_scheduler_user) s)"

subsection \<open>What logging leaves alone\<close>

lemma log_cpu_state_entry:
  "log_cpu_state env cpu s =
     (if jiffies env = current_jiffies s cpu then s
      else (log_entry env (LOG_STATE \<lparr>st_cpu = cpu, st_state = cur_cpu_state s cpu,
              residency_time =
                ((jiffies env - current_jiffies s cpu) * 1000) div of_int (HZ env)\<rparr>) s)
           \<lparr>current_jiffies := (current_jiffies s)(cpu := jiffies env)\<rparr>)"
  by (auto simp: log_cpu_state_def log_entry_def get_log_def put_log_def set_entry_def Let_def
      split: option.splits)

lemma log_entry_updates:
  "log_entry env e s = s\<lparr>log_heap := log_heap (log_entry env e s),
     current_log := current_log (log_entry env e s), log_lock := log_lock (log_entry env e s)\<rparr>"
  by (cases "log_ready env s")
    (auto simp: log_entry_not_ready log_entry_def get_log_def put_log_def set_entry_def
      log_ready_def Let_def)

lemma log_entry_frame:
  obtains h c l where "log_entry env e s = s\<lparr>log_heap := h, current_log := c, log_lock := l\<rparr>"
  using log_entry_updates [of env e s] by (rule that)

lemma log_cpu_state_frame:
  obtains h c l j where "log_cpu_state env cpu s =
    s\<lparr>log_heap := h, current_log := c, log_lock := l, current_jiffies := j\<rparr>"
proof (cases "jiffies env = current_jiffies s cpu")
  case True
  then have "log_cpu_state env cpu s =
      s\<lparr>log_heap := log_heap s, current_log := current_log s, log_lock := log_lock s,
        current_jiffies := current_jiffies s\<rparr>"
    by (simp add: log_cpu_state_entry)
  then show thesis by (rule that)
next
  case False
  obtain h c l where "log_entry env (LOG_STATE \<lparr>st_cpu = cpu, st_state = cur_cpu_state s cpu,
        residency_time = ((jiffies env - current_jiffies s cpu) * 1000) div of_int (HZ env)\<rparr>) s =
      s\<lparr>log_heap := h, current_log := c, log_lock := l\<rparr>"
    by (rule log_entry_frame)
  with False have "log_cpu_state env cpu s = s\<lparr>log_heap := h, current_log := c, log_lock := l,
      current_jiffies := (current_jiffies s)(cpu := jiffies env)\<rparr>"
    by (simp add: log_cpu_state_entry)
  then show thesis by (rule that)
qed

subsection \<open>Masks, counts and current states agree\<close>

text \<open>The CPUs below \<open>n\<close> have valid states, and the masks and counts are theirs.\<close>

definition placed :: "int \<Rightarrow> 'a state_st_scheme \<Rightarrow> bool" where
  "placed n s \<longleftrightarrow>
     (\<forall>c. 0 \<le> c \<and> c < n \<longrightarrow> 0 \<le> cur_cpu_state s c \<and> cur_cpu_state s c < total_states s) \<and>
     (\<forall>i. 0 \<le> i \<and> i < total_states s \<longrightarrow>
        cpumask (states s i) = {c. 0 \<le> c \<and> c < n \<and> cur_cpu_state s c = i} \<and>
        cpus (states s i) = count_if (\<lambda>c. cur_cpu_state s c = i) n)"

definition states_ok :: "'a state_st_scheme \<Rightarrow> bool" where
  "states_ok s = placed (total_online_cpus s) s"

definition same_states :: "'a state_st_scheme \<Rightarrow> 'a state_st_scheme \<Rightarrow> bool" where
  "same_states s t \<longleftrightarrow>
     total_online_cpus s = total_online_cpus t \<and> total_states s = total_states t \<and>
     cur_cpu_state s = cur_cpu_state t \<and>
     (\<forall>i. cpumask (states s i) = cpumask (states t i) \<and> cpus (states s i) = cpus (states t i))"

lemma same_states_ok: "same_states s t \<Longrightarrow> states_ok s = states_ok t"
  by (simp add: same_states_def states_ok_def placed_def)

lemma inform_same [simp]:
  "cur_cpu_state s cpu = state \<Longrightarrow>
     snd (seeker_cpufreq_inform env cpu state s) = log_cpu_state env cpu s"
  by (rule log_cpu_state_frame [of env cpu s]) (auto simp: seeker_cpufreq_inform_def)

lemma inform_ok:
  assumes ok: "states_ok s" and cpu: "0 \<le> cpu" "cpu < total_online_cpus s"
    and state: "0 \<le> state" "state < total_states s"
  shows "states_ok (snd (seeker_cpufreq_inform env cpu state s))"
proof (cases "cur_cpu_state s cpu = state")
  case True
  obtain h c l j where "log_cpu_state env cpu s =
      s\<lparr>log_heap := h, current_log := c, log_lock := l, current_jiffies := j\<rparr>"
    by (rule log_cpu_state_frame)
  with True ok show ?thesis by (simp add: states_ok_def placed_def)
next
  case False
  let ?old = "cur_cpu_state s cpu"
  define cur where "cur = (cur_cpu_state s)(cpu := state)"
  define u where "u = s\<lparr>states := (states s)
       (state := (states s state)\<lparr>cpumask := insert cpu (cpumask (states s state)),
                                   cpus := cpus (states s state) + 1\<rparr>,
        ?old := (states s ?old)\<lparr>cpumask := cpumask (states s ?old) - {cpu},
                                   cpus := cpus (states s ?old) - 1\<rparr>),
     cur_cpu_state := cur, states_seq_lock := states_seq_lock s + 2\<rparr>"
  have run: "snd (seeker_cpufreq_inform env cpu state s) =
      (log_cpu_state env cpu u)\<lparr>cur_cpu_state := (cur_cpu_state (log_cpu_state env cpu u))(cpu := state)\<rparr>"
    using False
    by (simp add: seeker_cpufreq_inform_def u_def cur_def write_seqlock_def write_sequnlock_def
        upd_state_def Let_def fun_upd_twist)
  obtain h c l j where log: "log_cpu_state env cpu u =
      u\<lparr>log_heap := h, current_log := c, log_lock := l, current_jiffies := j\<rparr>"
    by (rule log_cpu_state_frame)
  have cnt: "count_if (\<lambda>c. cur c = i) (total_online_cpus s) =
      count_if (\<lambda>c. cur_cpu_state s c = i) (total_online_cpus s) +
      (if state = i then 1 else 0) - (if ?old = i then 1 else 0)" for i
    by (subst count_if_upd [where k = cpu and p = "\<lambda>c. cur_cpu_state s c = i"])
      (use cpu in \<open>auto simp: cur_def\<close>)
  have mask: "{c. 0 \<le> c \<and> c < total_online_cpus s \<and> cur c = i} =
      (if i = state then insert cpu {c. 0 \<le> c \<and> c < total_online_cpus s \<and> cur_cpu_state s c = i}
       else {c. 0 \<le> c \<and> c < total_online_cpus s \<and> cur_cpu_state s c = i} - {cpu})" for i
    using cpu by (auto simp: cur_def)
  have range: "0 \<le> cur c \<and> cur c < total_states s" if "0 \<le> c" "c < total_online_cpus s" for c
    using ok that state by (auto simp: cur_def states_ok_def placed_def)
  have "0 \<le> ?old" and "?old < total_states s"
    using ok cpu by (auto simp: states_ok_def placed_def)
  then have "states_ok (u\<lparr>log_heap := h, current_log := c, log_lock := l, current_jiffies := j\<rparr>)"
    using ok False range unfolding states_ok_def placed_def u_def
    by (auto simp: cnt mask)
  moreover have "cur(cpu := state) = cur" by (simp add: cur_def)
  ultimately show ?thesis
    unfolding run log by (simp add: u_def states_ok_def placed_def)
qed

text \<open>Without a registered user a frequency change touches the kernel's policies only.\<close>

lemma sched_set_freq_no_users:
  assumes "user_head s = []"
  obtains p where "snd (sched_set_freq env i l s) = s\<lparr>policies := p\<rparr>"
proof -
  have "snd (sched_set_freq env i l s) = s\<lparr>policies := policies (snd (sched_set_freq env i l s))\<rparr>"
    unfolding sched_set_freq_def set_freq_def
    by (rule internal_set_freq_cases [of env "sched_call env" "of_int i" "of_int l"
          DRIVER_TARGET_LOCKING s])
      (use assms in \<open>simp_all add: inform_freq_change_def\<close>)
  then show thesis by (rule that)
qed

definition same_setup :: "'a state_st_scheme \<Rightarrow> 'a state_st_scheme \<Rightarrow> bool" where
  "same_setup s t \<longleftrightarrow>
     user_head t = user_head s \<and> total_states t = total_states s \<and>
     total_online_cpus t = total_online_cpus s \<and> init_layout_length t = init_layout_length s"

lemma place_cpu_placed:
  assumes "placed i s" and "user_head s = []" and "0 \<le> i" and "0 \<le> l" and "l < total_states s"
  shows "placed (i + 1) (place_cpu env i l s) \<and> same_setup s (place_cpu env i l s)"
proof -
  obtain p where p: "snd (sched_set_freq env i l s) = s\<lparr>policies := p\<rparr>"
    by (rule sched_set_freq_no_users [OF assms(2)])
  define cur where "cur = (cur_cpu_state s)(i := l)"
  have run: "place_cpu env i l s = s\<lparr>policies := p, states := (states s)
      (l := (states s l)\<lparr>cpumask := insert i (cpumask (states s l)), cpus := cpus (states s l) + 1\<rparr>),
      cur_cpu_state := cur\<rparr>"
    by (simp add: place_cpu_def cur_def p upd_state_def Let_def)
  have "count_if (\<lambda>c. cur c = st) i = count_if (\<lambda>c. cur_cpu_state s c = st) i" for st
    by (rule count_if_cong) (auto simp: cur_def)
  then have cnt: "count_if (\<lambda>c. cur c = st) (i + 1) =
      count_if (\<lambda>c. cur_cpu_state s c = st) i + (if l = st then 1 else 0)" for st
    using assms(3) by (simp add: count_if_Suc) (simp add: cur_def)
  have mask: "{c. 0 \<le> c \<and> c \<le> i \<and> cur c = st} =
      (if st = l then insert i {c. 0 \<le> c \<and> c < i \<and> cur_cpu_state s c = st}
       else {c. 0 \<le> c \<and> c < i \<and> cur_cpu_state s c = st})" for st
    using assms(3) by (auto simp: cur_def)
  have range: "0 \<le> cur c \<and> cur c < total_states s" if "0 \<le> c" "c < i + 1" for c
    using assms(1,4,5) that by (cases "c = i") (auto simp: cur_def placed_def)
  have "placed (i + 1) (place_cpu env i l s)"
    using assms(1,3,4,5) range unfolding run placed_def by (auto simp: cnt mask)
  then show ?thesis unfolding run by (simp add: same_setup_def)
qed

lemma BOUNDS_in: "0 < h \<Longrightarrow> 0 \<le> BOUNDS v 0 h \<and> BOUNDS v 0 h < h"
  by (auto simp: BOUNDS_def)

lemma layout_cpu_placed:
  assumes "placed i s" and "user_head s = []" and "0 \<le> i" and "0 < total_states s"
  shows "placed (i + 1) (layout_cpu env i s) \<and> same_setup s (layout_cpu env i s)"
proof -
  let ?s = "s\<lparr>init_layout := (init_layout s)(i := BOUNDS (init_layout s i) 0 (total_states s))\<rparr>"
  have "placed (i + 1) (place_cpu env i (init_layout ?s i) ?s) \<and>
      same_setup ?s (place_cpu env i (init_layout ?s i) ?s)"
    by (rule place_cpu_placed) (use assms BOUNDS_in [of "total_states s"] in \<open>simp_all add: placed_def\<close>)
  then show ?thesis by (simp add: layout_cpu_def same_setup_def)
qed

lemma place_loop_placed:
  assumes "placed i s" and "user_head s = []" and "0 \<le> i" and "i \<le> n" and "0 < total_states s"
    and step: "\<And>j t. placed j t \<Longrightarrow> user_head t = [] \<Longrightarrow> 0 \<le> j \<Longrightarrow> 0 < total_states t \<Longrightarrow>
        placed (j + 1) (f j t) \<and> same_setup t (f j t)"
  shows "placed n (for_up i n f s) \<and> same_setup s (for_up i n f s)"
proof (rule for_up_inv [where P = "\<lambda>j t. placed j t \<and> same_setup s t"])
  show "placed i s \<and> same_setup s s" using assms(1) by (simp add: same_setup_def)
  show "placed (j + 1) (f j t) \<and> same_setup s (f j t)"
    if "i \<le> j" "j < n" "placed j t \<and> same_setup s t" for j t
    using step [of j t] that assms(2,3,5) by (simp add: same_setup_def)
qed (rule assms(4))

lemma clear_states_at:
  "for_up 0 n clear_state s =
     s\<lparr>states := (\<lambda>k. if 0 \<le> k \<and> k < n
                    then (states s k)\<lparr>sd_state := k, cpus := 0, demand := 0, cpumask := {}\<rparr>
                    else states s k)\<rparr>"
proof -
  have eq: "clear_state i t = t\<lparr>states := (states t)
      (i := (states t i)\<lparr>sd_state := i, cpus := 0, demand := 0, cpumask := {}\<rparr>)\<rparr>" for i t
    by (simp add: clear_state_def upd_state_def demand_clear_def Let_def)
  have "for_up i n clear_state s =
     s\<lparr>states := for_up i n
        (\<lambda>j a. a(j := (a j)\<lparr>sd_state := j, cpus := 0, demand := 0, cpumask := {}\<rparr>)) (states s)\<rparr>" for i
  proof (induction "nat (n - i)" arbitrary: i s)
    case 0
    then show ?case by simp
  next
    case (Suc k)
    then have "i < n" and "k = nat (n - (i + 1))" by auto
    from Suc.hyps(1) [OF this(2)] this(1) show ?case by (simp add: for_up_step eq)
  qed
  then show ?thesis
    by (simp add: for_up_map [of 0 n "\<lambda>j d. d\<lparr>sd_state := j, cpus := 0, demand := 0, cpumask := {}\<rparr>"])
qed

text \<open>The number of states of the system: the largest of any CPU and of the value it had before.\<close>

definition max_states :: "int \<Rightarrow> 'a state_st_scheme \<Rightarrow> int" where
  "max_states n s =
     Max (insert (total_states s) ((\<lambda>i. as_unsigned (get_max_states i s)) ` {0..<n}))"

lemma max_states_Suc:
  assumes "0 \<le> n"
  shows "max_states (n + 1) s = max (max_states n s) (as_unsigned (get_max_states n s))"
proof -
  have "{0..<n + 1} = insert n {0..<n}" using assms by auto
  then have "insert (total_states s) ((\<lambda>i. as_unsigned (get_max_states i s)) ` {0..<n + 1}) =
      insert (as_unsigned (get_max_states n s))
        (insert (total_states s) ((\<lambda>i. as_unsigned (get_max_states i s)) ` {0..<n}))"
    by (simp add: insert_commute)
  then show ?thesis by (simp add: max_states_def max.commute)
qed

lemma read_max_states_loop:
  assumes "0 \<le> n"
  obtains m where
    "for_up 0 n read_max_states s = s\<lparr>max_state_possible := m, total_states := max_states n s\<rparr>"
proof -
  have "\<exists>m. for_up 0 n read_max_states s =
      s\<lparr>max_state_possible := m, total_states := max_states n s\<rparr>"
  proof (rule for_up_inv [where P = "\<lambda>j t. 0 \<le> j \<and>
        (\<exists>m. t = s\<lparr>max_state_possible := m, total_states := max_states j s\<rparr>)", THEN conjunct2])
    have "s = s\<lparr>max_state_possible := max_state_possible s, total_states := max_states 0 s\<rparr>"
      by (simp add: max_states_def)
    then show "0 \<le> (0::int) \<and>
        (\<exists>m. s = s\<lparr>max_state_possible := m, total_states := max_states 0 s\<rparr>)" by blast
  next
    fix j t
    assume "0 \<le> j \<and> (\<exists>m. t = s\<lparr>max_state_possible := m, total_states := max_states j s\<rparr>)"
    then obtain m where j: "0 \<le> j"
      and t: "t = s\<lparr>max_state_possible := m, total_states := max_states j s\<rparr>" by blast
    have "read_max_states j t = s\<lparr>max_state_possible := m(j := get_max_states j s),
        total_states := max_states (j + 1) s\<rparr>"
      by (simp add: read_max_states_def t max_states_Suc [OF j] get_max_states_def max_def Let_def)
    with j show "0 \<le> j + 1 \<and> (\<exists>m. read_max_states j t =
        s\<lparr>max_state_possible := m, total_states := max_states (j + 1) s\<rparr>)"
      by auto
  qed (rule assms)
  then show thesis using that by blast
qed

text \<open>
  After initialisation the masks, counts and current states agree, whatever layout the
  user asked for and whether or not setting the frequencies succeeded.
\<close>

lemma size_states_spec:
  fixes env :: kenv
  assumes "0 \<le> total_online_cpus s" and "0 < max_states (total_online_cpus s) s"
  defines "t \<equiv> size_states env s"
  shows "user_head t = user_head s \<and> total_online_cpus t = total_online_cpus s \<and>
    total_states t = max_states (total_online_cpus s) s \<and>
    init_layout_length t = init_layout_length s \<and>
    0 \<le> base_state t \<and> base_state t < total_states t \<and> high_state t = total_states t - 1"
proof -
  define u where "u = s\<lparr>states_seq_lock := 0, current_jiffies :=
      for_up 0 (total_online_cpus s) (\<lambda>i a. a(i := jiffies env)) (current_jiffies s)\<rparr>"
  have eq: "total_online_cpus u = total_online_cpus s" "max_states n u = max_states n s"
    "init_layout_length u = init_layout_length s" "user_head u = user_head s" for n
    by (simp_all add: u_def max_states_def get_max_states_def)
  obtain m where m: "for_up 0 (total_online_cpus u) read_max_states u =
      u\<lparr>max_state_possible := m, total_states := max_states (total_online_cpus s) s\<rparr>"
    using read_max_states_loop [of "total_online_cpus u" u] assms(1) eq by auto
  define v where "v = for_up 0 (total_online_cpus u) read_max_states u"
  have t: "t = v\<lparr>low_state := 0, high_state := total_states v - 1, mid_state := total_states v div 2,
      base_state := BOUNDS (base_state v) 0 (total_states v)\<rparr>"
    unfolding t_def size_states_def v_def u_def Let_def by simp
  have "total_states v = max_states (total_online_cpus s) s" "user_head v = user_head s"
    "total_online_cpus v = total_online_cpus s" "init_layout_length v = init_layout_length s"
    unfolding v_def m by (simp_all add: eq)
  with BOUNDS_in [OF assms(2), of "base_state v"] show ?thesis
    unfolding t by simp
qed

lemma reset_cpu_states_spec:
  fixes env :: kenv
  assumes "0 \<le> total_online_cpus s" and "0 \<le> init_layout_length s"
    and "0 < max_states (total_online_cpus s) s"
  defines "t \<equiv> reset_cpu_states env s"
  shows "placed 0 t \<and> user_head t = user_head s \<and> total_online_cpus t = total_online_cpus s \<and>
    total_states t = max_states (total_online_cpus s) s \<and>
    0 \<le> init_layout_length t \<and> init_layout_length t \<le> total_online_cpus s \<and>
    0 \<le> base_state t \<and> base_state t < total_states t \<and> high_state t = total_states t - 1"
proof -
  define u where "u = size_states env s"
  note u = size_states_spec [OF assms(1,3), of env, folded u_def]
  define w where "w = for_up 0 (total_states u) clear_state u"
  define x where "x = (if init_layout_length w = 0 then
      w\<lparr>init_layout := for_up 0 (total_online_cpus w) (\<lambda>i a. a(i := 0)) (init_layout w),
        init_layout_length := total_online_cpus w\<rparr> else w)"
  have t: "t = (if total_online_cpus x < init_layout_length x
      then x\<lparr>init_layout_length := total_online_cpus x\<rparr> else x)"
    unfolding t_def reset_cpu_states_def Let_def x_def w_def u_def by (rule refl)
  have w: "placed 0 w" "user_head w = user_head s" "total_online_cpus w = total_online_cpus s"
    "total_states w = total_states u" "init_layout_length w = init_layout_length s"
    "base_state w = base_state u" "high_state w = high_state u"
    using u by (simp_all add: w_def clear_states_at placed_def)
  have x: "placed 0 x" "user_head x = user_head s" "total_online_cpus x = total_online_cpus s"
    "total_states x = total_states u" "0 \<le> init_layout_length x"
    "base_state x = base_state u" "high_state x = high_state u"
    using w assms(1,2) by (simp_all add: x_def placed_def)
  show ?thesis
    using x u assms(1) unfolding t by (simp add: placed_def)
qed

lemma register_scpufreq_user_frame:
  "states_ok (snd (register_scpufreq_user env p s)) = states_ok s"
  "total_states (snd (register_scpufreq_user env p s)) = total_states s"
  by (auto simp: register_scpufreq_user_def create_user_def states_ok_def placed_def
      split: option.splits)

lemma init_cpu_states_placed:
  assumes "user_head s = []" and "0 \<le> total_online_cpus s" and "0 \<le> init_layout_length s"
    and "0 < max_states (total_online_cpus s) s"
  shows "states_ok (snd (init_cpu_states env s)) \<and>
    total_states (snd (init_cpu_states env s)) = max_states (total_online_cpus s) s"
proof -
  let ?r = "reset_cpu_states env s"
  let ?l = "for_up 0 (init_layout_length ?r) (layout_cpu env) ?r"
  let ?p = "for_up (init_layout_length ?l) (total_online_cpus ?l) (\<lambda>i. place_cpu env i 0) ?l"
  note r = reset_cpu_states_spec [OF assms(2-4), of env]
  have l: "placed (init_layout_length ?r) ?l \<and> same_setup ?r ?l"
    by (rule place_loop_placed) (use r assms layout_cpu_placed in auto)
  then have len: "init_layout_length ?l = init_layout_length ?r"
    "total_online_cpus ?l = total_online_cpus s" "user_head ?l = []" "total_states ?l = total_states ?r"
    using r assms(1) by (auto simp: same_setup_def)
  have "placed (total_online_cpus s) ?p \<and> same_setup ?l ?p"
    unfolding len by (rule place_loop_placed) (use r l len assms place_cpu_placed in auto)
  then have "states_ok ?p \<and> total_states ?p = max_states (total_online_cpus s) s"
    using len r by (simp add: states_ok_def same_setup_def)
  moreover have "snd (init_cpu_states env s) =
      snd (register_scpufreq_user env (Some seeker_scheduler_user) ?p)"
    by (simp add: init_cpu_states_def Let_def case_prod_beta)
  ultimately show ?thesis
    by (simp add: register_scpufreq_user_frame)
qed

subsection \<open>What a frequency change can do\<close>

text \<open>The fields a frequency change may touch: the kernel's policies, the log, the states.\<close>

definition freq_frame :: "'a state_st_scheme \<Rightarrow> 'a state_st_scheme \<Rightarrow> bool" where
  "freq_frame s t \<longleftrightarrow>
     t = s\<lparr>policies := policies t, log_heap := log_heap t, current_log := current_log t,
           log_lock := log_lock t, cur_cpu_state := cur_cpu_state t, states := states t,
           states_seq_lock := states_seq_lock t, current_jiffies := current_jiffies t\<rparr>"

lemma freq_frame_refl [simp]: "freq_frame s s"
  by (simp add: freq_frame_def)

lemma freq_frame_trans: "freq_frame s t \<Longrightarrow> freq_frame t u \<Longrightarrow> freq_frame s u"
  unfolding freq_frame_def
  by (cases s, cases t, cases u) simp

lemma log_cpu_state_frame': "freq_frame s (log_cpu_state env cpu s)"
  by (rule log_cpu_state_frame [of env cpu s]) (simp add: freq_frame_def)

lemma inform_frame: "freq_frame s (snd (seeker_cpufreq_inform env cpu state s))"
proof -
  define u where "u = (if cur_cpu_state s cpu \<noteq> state then
       let s = write_seqlock s;
           s = upd_state state (\<lambda>d. d\<lparr>cpumask := insert cpu (cpumask d)\<rparr>) s;
           s = upd_state (cur_cpu_state s cpu) (\<lambda>d. d\<lparr>cpumask := cpumask d - {cpu}\<rparr>) s;
           s = upd_state state (\<lambda>d. d\<lparr>cpus := cpus d + 1\<rparr>) s;
           s = upd_state (cur_cpu_state s cpu) (\<lambda>d. d\<lparr>cpus := cpus d - 1\<rparr>) s;
           s = s\<lparr>cur_cpu_state := (cur_cpu_state s)(cpu := state)\<rparr>
       in write_sequnlock s
     else s)"
  have "freq_frame s u"
    by (simp add: u_def freq_frame_def write_seqlock_def write_sequnlock_def upd_state_def Let_def)
  moreover have "freq_frame u (log_cpu_state env cpu u)"
    by (rule log_cpu_state_frame')
  moreover have "freq_frame v (v\<lparr>cur_cpu_state := c\<rparr>)" for v :: "'a state_st_scheme" and c
    by (simp add: freq_frame_def)
  moreover have "snd (seeker_cpufreq_inform env cpu state s) = (log_cpu_state env cpu u)
      \<lparr>cur_cpu_state := (cur_cpu_state (log_cpu_state env cpu u))(cpu := state)\<rparr>"
    unfolding seeker_cpufreq_inform_def u_def by (simp only: Let_def snd_conv)
  ultimately show ?thesis
    by (metis freq_frame_trans)
qed

text \<open>
  A frequency change preserves whatever its callback and the kernel's policies preserve.
\<close>

lemma sched_set_freq_preserves:
  assumes "0 \<le> i" and "i < 2 ^ 31" and "0 \<le> st" and "st < 2 ^ 31"
    and "P s" and "\<And>s p. P s \<Longrightarrow> P (s\<lparr>policies := p\<rparr>)"
    and "\<And>s. P s \<Longrightarrow> P (snd (seeker_cpufreq_inform env i st s))"
  shows "P (snd (sched_set_freq env i st s))"
proof -
  have idx: "sint (of_int i :: u32) = i" "sint (of_int st :: u32) = st"
    using assms(1-4) by (simp_all add: sint_sbintrunc' signed_take_bit_int_eq_self)
  show ?thesis
    unfolding sched_set_freq_def set_freq_def
  proof (cases rule: internal_set_freq_cases [of env "sched_call env" "of_int i" "of_int st"
        DRIVER_TARGET_LOCKING s])
    case refused
    then show "P (snd (internal_set_freq env (sched_call env) (of_int i) (of_int st)
        DRIVER_TARGET_LOCKING s))" using assms(5) by simp
  next
    case (failed p r)
    then show "P (snd (internal_set_freq env (sched_call env) (of_int i) (of_int st)
        DRIVER_TARGET_LOCKING s))" using assms(5,6) by simp
  next
    case (success p)
    have "P (inform_freq_change (sched_call env) i st u)" if "P u" for u
      by (rule inform_freq_change_preserves [where P = P])
        (use that assms(7) in \<open>auto simp: sched_call_def\<close>)
    then show "P (snd (internal_set_freq env (sched_call env) (of_int i) (of_int st)
        DRIVER_TARGET_LOCKING s))" using success(4) assms(5,6) idx by simp
  qed
qed

lemma sched_set_freq_frame:
  "freq_frame s (snd (sched_set_freq env i st s))"
proof -
  have inf: "freq_frame u (inform_freq_change (sched_call env) c f u)" for c f u
    by (rule inform_freq_change_preserves [where P = "freq_frame u"])
      (auto simp: sched_call_def intro: freq_frame_trans [OF _ inform_frame])
  have pol: "freq_frame s (s\<lparr>policies := p\<rparr>)" for p
    by (simp add: freq_frame_def)
  show ?thesis
    unfolding sched_set_freq_def set_freq_def
    by (cases rule: internal_set_freq_cases [of env "sched_call env" "of_int i" "of_int st"
          DRIVER_TARGET_LOCKING s])
      (auto intro: pol freq_frame_trans [OF pol inf])
qed

lemma freq_frameE:
  assumes "freq_frame s t"
  obtains p h c l cur st sq cj where
    "t = s\<lparr>policies := p, log_heap := h, current_log := c, log_lock := l, cur_cpu_state := cur,
           states := st, states_seq_lock := sq, current_jiffies := cj\<rparr>"
  using assms unfolding freq_frame_def by (rule that)

lemma freq_frameD:
  assumes "freq_frame s t"
  shows "total_online_cpus t = total_online_cpus s" and "total_states t = total_states s"
    and "user_head t = user_head s" and "user_store t = user_store s"
    and "freq_info t = freq_info s" and "base_state t = base_state s"
    and "high_state t = high_state s" and "low_state t = low_state s"
  by (rule freq_frameE [OF assms], simp)+

lemma sched_set_freq_states_ok:
  assumes "states_ok s" and "0 \<le> i" and "i < total_online_cpus s" and "i < 2 ^ 31"
    and "0 \<le> st" and "st < total_states s" and "st < 2 ^ 31"
  shows "states_ok (snd (sched_set_freq env i st s))"
proof -
  let ?P = "\<lambda>t. states_ok t \<and> total_online_cpus t = total_online_cpus s \<and>
      total_states t = total_states s"
  have "?P (snd (sched_set_freq env i st s))"
  proof (rule sched_set_freq_preserves [where P = ?P])
    fix t assume t: "?P t"
    then have "states_ok (snd (seeker_cpufreq_inform env i st t))"
      using inform_ok [of t i st env] assms by simp
    with t show "?P (snd (seeker_cpufreq_inform env i st t))"
      using freq_frameD [OF inform_frame [of t env i st]] by simp
  qed (use assms in \<open>auto simp: states_ok_def placed_def\<close>)
  then show ?thesis by blast
qed

text \<open>Every CPU is in a state that exists.\<close>

definition cur_ok :: "'a state_st_scheme \<Rightarrow> bool" where
  "cur_ok s \<longleftrightarrow>
     (\<forall>c. 0 \<le> c \<and> c < total_online_cpus s \<longrightarrow>
        0 \<le> cur_cpu_state s c \<and> cur_cpu_state s c < total_states s)"

lemma inform_cur:
  "cur_cpu_state (snd (seeker_cpufreq_inform env cpu state s)) = (cur_cpu_state s)(cpu := state)"
proof -
  have log: "cur_cpu_state (log_cpu_state env cpu u) = cur_cpu_state u" for u
    by (rule log_cpu_state_frame [of env cpu u]) simp
  show ?thesis
    by (simp add: seeker_cpufreq_inform_def log write_seqlock_def write_sequnlock_def
        upd_state_def Let_def)
qed

lemma sched_set_freq_cur:
  assumes "0 \<le> i" and "i < 2 ^ 31" and "0 \<le> st" and "st < 2 ^ 31"
  shows "cur_cpu_state (snd (sched_set_freq env i st s)) = cur_cpu_state s \<or>
    cur_cpu_state (snd (sched_set_freq env i st s)) = (cur_cpu_state s)(i := st)"
  by (rule sched_set_freq_preserves [OF assms, where P = "\<lambda>t. cur_cpu_state t = cur_cpu_state s \<or>
        cur_cpu_state t = (cur_cpu_state s)(i := st)"]) (auto simp: inform_cur)

lemma sched_set_freq_cur_ok:
  assumes "cur_ok s" and "0 \<le> i" and "i < 2 ^ 31" and "0 \<le> st" and "st < total_states s"
    and "st < 2 ^ 31"
  shows "cur_ok (snd (sched_set_freq env i st s))"
  using sched_set_freq_cur [OF assms(2-4,6), of env s] assms
    freq_frameD(1,2) [OF sched_set_freq_frame [of s env i st]]
  by (auto simp: cur_ok_def)

text \<open>
  When the driver accepts every request and the scheduler is registered, a frequency
  change takes effect in the scheduler's tables.
\<close>

definition governor_serves :: "kenv \<Rightarrow> 'a state_st_scheme \<Rightarrow> bool" where
  "governor_serves env s \<longleftrightarrow>
     (\<forall>c f l a. cpufreq_target env c f l a = 0) \<and>
     seeker_scheduler_user \<in> set (user_head s) \<and>
     inform (user_store s seeker_scheduler_user) = Some inform_callback \<and>
     (\<forall>i. 0 \<le> i \<and> i < total_online_cpus s \<longrightarrow>
        i < NR_CPUS env \<and> policy (freq_info s i) \<noteq> None \<and>
        total_states s \<le> uint (num_states (freq_info s i)))"

lemma governor_serves_frame: "freq_frame s t \<Longrightarrow> governor_serves env t = governor_serves env s"
  by (simp add: governor_serves_def freq_frameD)

lemma sched_call_fold_cur:
  "cur_cpu_state (fold (\<lambda>c t. snd (sched_call env c i st t)) cs s) =
     (if inform_callback \<in> set cs then (cur_cpu_state s)(i := st) else cur_cpu_state s)"
  by (induction cs arbitrary: s) (auto simp: sched_call_def inform_cur)

lemma sched_set_freq_serves:
  assumes "governor_serves env s" and i: "0 \<le> i" "i < total_online_cpus s" "i < 2 ^ 31"
    and st: "0 \<le> st" "st < total_states s" "st < 2 ^ 31"
  shows "cur_cpu_state (snd (sched_set_freq env i st s)) = (cur_cpu_state s)(i := st)"
    and "fst (sched_set_freq env i st s) = 0"
proof -
  have idx: "sint (of_int i :: u32) = i" "sint (of_int st :: u32) = st"
    "uint (of_int i :: u32) = i" "uint (of_int st :: u32) = st"
    using i st by (simp_all add: sint_sbintrunc' signed_take_bit_int_eq_self
        uint_word_of_int_eq take_bit_int_eq_self)
  have reg: "seeker_scheduler_user \<in> set (user_head s)"
    "inform (user_store s seeker_scheduler_user) = Some inform_callback"
    and i': "i < NR_CPUS env" "policy (freq_info s i) \<noteq> None"
      "total_states s \<le> uint (num_states (freq_info s i))"
    and ok: "cpufreq_target env c f l a = 0" for c f l a
    using assms(1) i by (auto simp: governor_serves_def)
  have store: "user_store (snd (sched_call env c cpu st s)) = user_store s"
    for c cpu st and s :: "'a state_st_scheme"
    by (simp add: sched_call_def freq_frameD(4) [OF inform_frame])
  have fresh: "of_int st < num_states (freq_info s i)"
    using st i'(3) idx(4) by (simp add: word_less_def)
  obtain p where p: "policy (freq_info s i) = Some p" using i' by auto
  define u where "u = s\<lparr>policies := (policies s)(p := (policies s p)
      \<lparr>policy_cur := table (freq_info s i) st\<rparr>)\<rparr>"
  have run: "sched_set_freq env i st s = (0, inform_freq_change (sched_call env) i st u)"
    using i'(1) fresh p idx ok
    by (simp add: sched_set_freq_def set_freq_def internal_set_freq_def driver_target_def
        u_def Let_def not_le [THEN iffD2, OF fresh])
  have "inform_callback \<in> set (List.map_filter (\<lambda>v. inform (user_store u v)) (user_head u))"
    using reg by (force simp: u_def map_filter_def)
  then have "cur_cpu_state (inform_freq_change (sched_call env) i st u) = (cur_cpu_state u)(i := st)"
    unfolding inform_freq_change_def
    by (subst inform_walk_fold) (simp_all add: store sched_call_fold_cur)
  then show "cur_cpu_state (snd (sched_set_freq env i st s)) = (cur_cpu_state s)(i := st)"
    and "fst (sched_set_freq env i st s) = 0"
    unfolding run by (simp_all add: u_def)
qed

subsection \<open>Properties\<close>

definition ex_desc :: "int \<Rightarrow> int set \<Rightarrow> state_desc" where
  "ex_desc i m = \<lparr>sd_state = i, cpumask = m, cpus = int (card m), demand = 0\<rparr>"

text \<open>Two CPUs in states 0 and 2 of three, with the scheduler registered.\<close>

definition ex_state :: state_st where
  "ex_state = log_st.extend
     (ex_log\<lparr>user_head := [seeker_scheduler_user], policies := (\<lambda>_. \<lparr>policy_cpu = 0, policy_cur = 0,
        transition_latency = 0\<rparr>)\<rparr>)
     (state_st.fields 2 (\<lambda>_. 3) 3 ((\<lambda>_. 0)(1 := 2))
       ((\<lambda>i. ex_desc i {})(0 := ex_desc 0 {0}, 2 := ex_desc 2 {1}))
       0 2 0 1 (\<lambda>_. 5000) False False (\<lambda>_. 0) 0 0)"

lemmas ex_state_simps = ex_state_def ex_desc_def ex_log_simps state_st.defs
  seeker_scheduler_user_def inform_callback_def

lemma count_if_2: "count_if p 2 = (if p 0 then 1 else 0) + (if p 1 then 1 else 0)"
proof -
  have "{0..<2::int} = {0, 1}" by auto
  then show ?thesis by (simp add: count_if_def)
qed

lemma ex_state_ok: "states_ok ex_state"
  unfolding states_ok_def placed_def by (auto simp: ex_state_simps count_if_2)

text \<open>
  the callback of the governor keeps the scheduler's tables consistent: after it every
  state's mask is the set of CPUs in that state, its count their number and every CPU is
  in a state that exists; the CPU it was called for is in the reported state.
\<close>

theorem seeker_cpufreq_inform_consistent:
  assumes "states_ok s" and "0 \<le> cpu" and "cpu < total_online_cpus s"
    and "0 \<le> state" and "state < total_states s"
  shows "states_ok (snd (seeker_cpufreq_inform env cpu state s)) \<and>
    cur_cpu_state (snd (seeker_cpufreq_inform env cpu state s)) = (cur_cpu_state s)(cpu := state)"
  using inform_ok [OF assms] inform_cur by blast

lemma seeker_cpufreq_inform_consistent_witness:
  "states_ok (snd (seeker_cpufreq_inform ex_env 0 2 ex_state))"
  using seeker_cpufreq_inform_consistent [OF ex_state_ok, of 0 2 ex_env] by (simp add: ex_state_simps)

text \<open>
  C22: initialisation establishes that consistency for every layout the user asks for, whether or not the
  driver carries out the frequency changes, when no client of the governor is registered yet and
  some CPU reports at least one state. The number of states becomes the largest count any CPU
  reports (or the value \<open>total_states\<close> had, which is 0 when the module is loaded), so a CPU that has
  fewer states is laid out over states it does not have; the comment on \<open>total_states\<close>, the lowest
  common denominator of all CPUs, says otherwise.
\<close>

theorem init_cpu_states_consistent:
  assumes "user_head s = []" and "0 \<le> total_online_cpus s" and "0 \<le> init_layout_length s"
    and "T = Max (insert (total_states s) ((\<lambda>i. as_unsigned (get_max_states i s)) ` {0..<total_online_cpus s}))"
    and "0 < T"
  shows "states_ok (snd (init_cpu_states env s)) \<and> total_states (snd (init_cpu_states env s)) = T \<and>
    (\<forall>i. 0 \<le> i \<and> i < total_online_cpus s \<longrightarrow> as_unsigned (get_max_states i s) \<le> T)"
proof -
  have "as_unsigned (get_max_states i s) \<le> T" if "0 \<le> i \<and> i < total_online_cpus s" for i
    unfolding assms(4) using that by (intro Max_ge) auto
  then show ?thesis
    using init_cpu_states_placed [OF assms(1-3), of env] assms(4,5) by (simp add: max_states_def)
qed

lemma init_cpu_states_consistent_witness:
  "states_ok (snd (init_cpu_states ex_env (ex_state\<lparr>user_head := [], init_layout_length := 5\<rparr>)))"
proof -
  let ?s = "ex_state\<lparr>user_head := [], init_layout_length := 5\<rparr>"
  have "total_states ?s \<le> Max (insert (total_states ?s) ((\<lambda>i. as_unsigned (get_max_states i ?s)) ` {0..<total_online_cpus ?s}))"
    by (rule Max_ge) auto
  then show ?thesis
    using init_cpu_states_consistent [of ?s, OF _ _ _ refl, of ex_env] by (simp add: ex_state_simps)
qed

text \<open>
  C15: when the driver accepts and the scheduler is registered, setting the frequency of a
  CPU succeeds, the callback has recorded the new state on return, no other CPU's state
  changed and the tables are still consistent.
\<close>

theorem set_freq_takes_effect:
  assumes "governor_serves env s" and "states_ok s" and "0 \<le> i" and "i < total_online_cpus s"
    and "i < 2 ^ 31" and "0 \<le> st" and "st < total_states s" and "st < 2 ^ 31"
  shows "fst (sched_set_freq env i st s) = 0 \<and>
    cur_cpu_state (snd (sched_set_freq env i st s)) = (cur_cpu_state s)(i := st) \<and>
    states_ok (snd (sched_set_freq env i st s))"
  using sched_set_freq_serves [OF assms(1,3-8)]
    sched_set_freq_states_ok [OF assms(2,3,4,5,6,7,8)] by blast

lemma ex_state_serves: "governor_serves ex_env ex_state"
  by (simp add: governor_serves_def ex_state_simps ex_env_def)

lemma set_freq_takes_effect_witness:
  "cur_cpu_state (snd (sched_set_freq ex_env 0 1 ex_state)) 0 = 1"
  using set_freq_takes_effect [OF ex_state_serves ex_state_ok, of 0 1] by (simp add: ex_state_simps)

end
