(* ===== verification/Nr_Tasks.thy ===== *)
theory Nr_Tasks
  imports Cpu_States
begin

text \<open>
  The number of runnable tasks (\<open>Module/seeker-scheduler/nrtasks.c\<close>) and the idle-time load
  of a CPU (\<open>load.c\<close>, \<open>load.h\<close>). A load counts eighths: 8 is a fully busy CPU.
\<close>

subsection \<open>Runnable tasks\<close>

definition get_tasks_load :: "kenv \<Rightarrow> 'a state_st_scheme \<Rightarrow> int" where
  "get_tasks_load env s =
     (let total = for_up 0 (total_online_cpus s) (\<lambda>i t. t + int (nr_running env i)) 0
      in if total_online_cpus s < total then total_online_cpus s else total)"

text \<open>The loops over a mask visit the CPUs in it, up to the largest possible one.\<close>

definition get_state_tasks :: "kenv \<Rightarrow> int \<Rightarrow> 'a state_st_scheme \<Rightarrow> int" where
  "get_state_tasks env state s =
     (let mask = cpumask (states s state)
      in for_up 0 (NR_CPUS env)
           (\<lambda>i t. t + (if i \<in> mask then int (nr_running env i) else 0)) 0)"

definition get_state_tasks_exself :: "kenv \<Rightarrow> int \<Rightarrow> 'a state_st_scheme \<Rightarrow> int" where
  "get_state_tasks_exself env state s =
     (let mask = cpumask (states s state);
          tasks = for_up 0 (NR_CPUS env)
                    (\<lambda>i t. t + (if i \<in> mask then int (nr_running env i) else 0)) 0
      in if tasks \<noteq> 0 then tasks - 1 else tasks)"

definition get_cpu_tasks :: "kenv \<Rightarrow> int \<Rightarrow> int" where
  "get_cpu_tasks env cpu = int (nr_running env cpu)"

lemma get_state_tasks_sum:
  "get_state_tasks env state s =
     (\<Sum>i\<in>{0..<NR_CPUS env} \<inter> cpumask (states s state). int (nr_running env i))"
  by (simp add: get_state_tasks_def for_up_sum sum.inter_restrict)

lemma get_state_tasks_nonneg [simp]: "0 \<le> get_state_tasks env state s"
  by (simp add: get_state_tasks_sum sum_nonneg)

lemma get_state_tasks_exself_eq:
  "get_state_tasks_exself env state s =
     (if get_state_tasks env state s = 0 then 0 else get_state_tasks env state s - 1)"
  by (simp add: get_state_tasks_exself_def get_state_tasks_def Let_def)

lemma get_tasks_load_bounds:
  assumes "0 \<le> total_online_cpus s"
  shows "0 \<le> get_tasks_load env s" and "get_tasks_load env s \<le> total_online_cpus s"
  using assms by (auto simp: get_tasks_load_def for_up_sum Let_def intro: sum_nonneg)

subsection \<open>Loads\<close>

definition ADD_LOAD :: "int \<Rightarrow> int \<Rightarrow> int" where "ADD_LOAD a b = a + b"
definition MUL_LOAD :: "int \<Rightarrow> int \<Rightarrow> int" where "MUL_LOAD a b = (a * b) div 8"
definition MUL_LOAD_UINT :: "int \<Rightarrow> int \<Rightarrow> int" where "MUL_LOAD_UINT a b = a * b"
definition DIV_LOAD :: "int \<Rightarrow> int \<Rightarrow> int" where "DIV_LOAD a b = c_quot (a * 8) b"
definition DIV_LOAD_UINT :: "int \<Rightarrow> int \<Rightarrow> int" where "DIV_LOAD_UINT a b = c_quot (a * 8) b div 8"
definition LOAD_TO_UINT :: "int \<Rightarrow> int" where "LOAD_TO_UINT a = a div 8"
definition UINT_TO_LOAD :: "int \<Rightarrow> int" where "UINT_TO_LOAD a = a * 8"

definition LOAD_0_125 :: int where "LOAD_0_125 = 1"
definition LOAD_0_250 :: int where "LOAD_0_250 = 2"
definition LOAD_0_375 :: int where "LOAD_0_375 = 3"
definition LOAD_0_500 :: int where "LOAD_0_500 = 4"
definition LOAD_0_625 :: int where "LOAD_0_625 = 5"
definition LOAD_0_750 :: int where "LOAD_0_750 = 6"
definition LOAD_0_875 :: int where "LOAD_0_875 = 7"
definition LOAD_1_000 :: int where "LOAD_1_000 = 8"
definition LOAD_1_125 :: int where "LOAD_1_125 = LOAD_1_000 + LOAD_0_125"

lemmas load_defs = LOAD_0_125_def LOAD_0_250_def LOAD_0_375_def LOAD_0_500_def LOAD_0_625_def
  LOAD_0_750_def LOAD_0_875_def LOAD_1_000_def LOAD_1_125_def

record load_st = state_st +
  prev_idle_time :: "u32 arr"
  change_interval :: int

definition init_idle_logger :: "kenv \<Rightarrow> 'a load_st_scheme \<Rightarrow> 'a load_st_scheme" where
  "init_idle_logger env s =
     s\<lparr>prev_idle_time :=
         for_up 0 (num_online_cpus env)
           (\<lambda>i a. a(i := ucast (kstat_idle env i + kstat_iowait env i))) (prev_idle_time s)\<rparr>"

definition get_cpu_load :: "kenv \<Rightarrow> int \<Rightarrow> 'a load_st_scheme \<Rightarrow> u32 \<times> 'a load_st_scheme" where
  "get_cpu_load env cpu s =
     (let cur_idle_time = ucast (kstat_idle env cpu + kstat_iowait env cpu);
          this_time = cur_idle_time - prev_idle_time s cpu;
          s = s\<lparr>prev_idle_time := (prev_idle_time s)(cpu := cur_idle_time)\<rparr>;
          total_time = msecs_to_jiffies env (change_interval s)
      in if total_time \<le> this_time then (0, s)
         else ((8 * (total_time - this_time)) div total_time, s))"

text \<open>A load never exceeds one busy CPU, even where the product wraps around.\<close>

lemma get_cpu_load_le: "fst (get_cpu_load env cpu s) \<le> 8"
proof -
  have le: "unat ((8 * (t - d)) div t) \<le> 8" if "d < t" for t d :: u32
  proof -
    have "unat (8 * y) \<le> 8 * unat y" for y :: u32
      by (simp add: unat_word_ariths(2))
    then have "unat (8 * (t - d)) \<le> 8 * unat (t - d)" .
    moreover have "unat (t - d) \<le> unat t"
      using that by (simp add: unat_sub less_imp_le)
    ultimately have "unat (8 * (t - d)) \<le> 8 * unat t" by linarith
    then have "unat (8 * (t - d)) div unat t \<le> (8 * unat t) div unat t"
      by (rule div_le_mono)
    moreover have "unat t \<noteq> 0" using that by (metis unat_0_iff word_not_simps(1))
    ultimately show ?thesis by (simp add: unat_div)
  qed
  have "(8 * (t - d)) div t \<le> 8" if "d < t" for t d :: u32
    using le [OF that] by (simp add: word_le_nat_alt)
  then show ?thesis
    unfolding get_cpu_load_def Let_def by (simp only: fst_conv if_distrib split: if_splits) (auto simp only: not_le word_zero_le)
qed

subsection \<open>Properties\<close>

definition ex_load :: load_st where
  "ex_load = state_st.extend ex_state (load_st.fields (\<lambda>_. 0) 100)"

lemmas ex_load_simps = ex_load_def ex_state_simps load_st.defs

text \<open>
  the load of a CPU is at most 8 eighths for every idle count, clock and interval, so
  nothing divides by zero and no wrap-around of the product shows, and the idle count of
  the call is what the next call measures from.
\<close>

theorem get_cpu_load_bounded:
  "fst (get_cpu_load env cpu s) \<le> 8 \<and>
   snd (get_cpu_load env cpu s) = s\<lparr>prev_idle_time := (prev_idle_time s)
     (cpu := ucast (kstat_idle env cpu + kstat_iowait env cpu))\<rparr>"
  using get_cpu_load_le [of env cpu s] by (simp add: get_cpu_load_def Let_def)

end
