(* ===== verification/Mutate_Common.thy ===== *)
theory Mutate_Common
  imports Nr_Tasks
begin

text \<open>
  What the mutators share (\<open>Module/seeker-scheduler/mutate_common.c\<close>, \<open>mutate.h\<close>): the delayed
  work that changes the states at an interval, and the processors that are awake. A
  processor is put to sleep only when it has no task; waking prefers the one that has
  slept least.
\<close>

subsection \<open>State\<close>

record proc_info =
  sleep_time :: u32
  awake :: u32
  awake_time :: u32

record mut_st = load_st +
  interval_jiffies :: u64
  timer_started :: bool
  state_work_pending :: bool
  info :: "proc_info arr"
  interval_count :: u64
  mutation_method :: int
  delta :: int

definition GREEDY_DELTA_MUTATOR :: int where "GREEDY_DELTA_MUTATOR = 0"
definition MEM_DYNAMIC_PROG_MUTATOR :: int where "MEM_DYNAMIC_PROG_MUTATOR = 1"
definition ONDEMAND_MUTATOR :: int where "ONDEMAND_MUTATOR = 2"
definition CONSERVATIVE_MUTATOR :: int where "CONSERVATIVE_MUTATOR = 3"
definition STATIC_MUTATOR :: int where "STATIC_MUTATOR = 4"

lemmas mutator_defs = GREEDY_DELTA_MUTATOR_def MEM_DYNAMIC_PROG_MUTATOR_def ONDEMAND_MUTATOR_def
  CONSERVATIVE_MUTATOR_def STATIC_MUTATOR_def

definition UINT_MAX :: u32 where "UINT_MAX = - 1"

subsection \<open>Starting and stopping\<close>

definition init_mutator :: "kenv \<Rightarrow> 'a mut_st_scheme \<Rightarrow> 'a mut_st_scheme" where
  "init_mutator env s =
     (if mutation_method s = STATIC_MUTATOR then s
      else
        let s = s\<lparr>info := for_up 0 (NR_CPUS env)
                    (\<lambda>i a. a(i := (a i)\<lparr>sleep_time := 0, awake_time := 1, awake := 1\<rparr>)) (info s)\<rparr>;
            s = s\<lparr>interval_jiffies := of_int (c_quot (change_interval s * HZ env) 1000)\<rparr>;
            s = (if interval_jiffies s < 1
                 then s\<lparr>interval_jiffies := 1, change_interval := c_quot 1000 (HZ env)\<rparr> else s)
        in s\<lparr>timer_started := True, state_work_pending := True\<rparr>)"

definition exit_mutator :: "'a mut_st_scheme \<Rightarrow> 'a mut_st_scheme" where
  "exit_mutator s =
     (if timer_started s then s\<lparr>timer_started := False, state_work_pending := False\<rparr> else s)"

subsection \<open>Waking processors\<close>

definition awake_sum :: "int \<Rightarrow> proc_info arr \<Rightarrow> int" where
  "awake_sum n f = for_up 0 n (\<lambda>i t. t + uint (awake (f i))) 0"

text \<open>The inner loop carries \<open>(awake_total, min_sleep_time, wake_up_proc)\<close>.\<close>

definition wake_scan ::
    "int \<Rightarrow> proc_info arr \<Rightarrow> int \<Rightarrow> int \<times> u32 \<times> u32 \<Rightarrow> bool \<times> int \<times> u32 \<times> u32" where
  "wake_scan req_cpus f j acc =
     (case acc of (awake_total, min_sleep_time, wake_up_proc) \<Rightarrow>
        if \<not> awake_total < req_cpus then (True, acc)
        else if sleep_time (f j) = 0 then (False, awake_total + 1, min_sleep_time, wake_up_proc)
        else if sleep_time (f j) < min_sleep_time
        then (False, awake_total, sleep_time (f j), of_int j)
        else (False, acc))"

definition wake_round :: "int \<Rightarrow> int \<Rightarrow> proc_info arr \<Rightarrow> bool \<times> proc_info arr" where
  "wake_round n req_cpus f =
     (case for_break 0 n (wake_scan req_cpus f) (0, UINT_MAX, UINT_MAX) of
        (awake_total, min_sleep_time, wake_up_proc) \<Rightarrow>
          let (awake_total, f) =
                (if uint wake_up_proc < n
                 then (awake_total + 1,
                       f(uint wake_up_proc :=
                           (f (uint wake_up_proc))\<lparr>sleep_time := 0, awake := 1\<rparr>))
                 else (awake_total, f))
          in (req_cpus \<le> awake_total, f))"

definition wake_up_procs :: "int \<Rightarrow> 'a mut_st_scheme \<Rightarrow> 'a mut_st_scheme" where
  "wake_up_procs req_cpus s =
     (if req_cpus \<le> awake_sum (total_online_cpus s) (info s) then s
      else s\<lparr>info := for_break 0 req_cpus (\<lambda>i. wake_round (total_online_cpus s) req_cpus) (info s)\<rparr>)"

subsection \<open>Retiring processors\<close>

text \<open>The loop carries \<open>(info, put_to_sleep, awake_total)\<close>.\<close>

definition retire_step ::
    "kenv \<Rightarrow> int \<Rightarrow> int \<Rightarrow> proc_info arr \<times> int arr \<times> int \<Rightarrow>
     bool \<times> proc_info arr \<times> int arr \<times> int" where
  "retire_step env req_cpus i acc =
     (case acc of (f, put_to_sleep, awake_total) \<Rightarrow>
        let (f, put_to_sleep, awake_total) =
              (if awake (f i) = 1 \<and> get_cpu_tasks env i = 0
               then (f(i := (f i)\<lparr>awake := 0, sleep_time := 1, awake_time := 0\<rparr>),
                     put_to_sleep(i := 1), awake_total - 1)
               else (f, put_to_sleep(i := 0), awake_total))
        in (awake_total \<le> req_cpus, f, put_to_sleep, awake_total))"

definition proxy_step :: "proc_info arr \<Rightarrow> int \<Rightarrow> int arr \<times> int \<Rightarrow> int arr \<times> int" where
  "proxy_step f i acc =
     (case acc of (cpu_awake_proxy, j) \<Rightarrow>
        if awake (f i) = 1 then (cpu_awake_proxy(j := i), j + 1) else acc)"

text \<open>Results are \<open>put_to_sleep\<close>, \<open>cpu_awake_proxy\<close> and the new state.\<close>

definition retire_procs ::
    "kenv \<Rightarrow> int \<Rightarrow> int arr \<Rightarrow> int arr \<Rightarrow> 'a mut_st_scheme \<Rightarrow>
     int arr \<times> int arr \<times> 'a mut_st_scheme" where
  "retire_procs env req_cpus put_to_sleep cpu_awake_proxy s =
     (let awake_total = awake_sum (total_online_cpus s) (info s) in
      if awake_total \<le> req_cpus then (put_to_sleep, cpu_awake_proxy, s)
      else
        (case for_break 0 (total_online_cpus s) (retire_step env req_cpus)
                (info s, put_to_sleep, awake_total) of
           (f, put_to_sleep, awake_total) \<Rightarrow>
             (case for_up 0 (total_online_cpus s) (proxy_step f) (cpu_awake_proxy, 0) of
                (cpu_awake_proxy, j) \<Rightarrow> (put_to_sleep, cpu_awake_proxy, s\<lparr>info := f\<rparr>))))"

subsection \<open>Waking reaches the request\<close>

text \<open>
  A processor is awake with sleep time 0 or asleep with a sleep time that has not wrapped.
\<close>

definition proc_ok :: "proc_info \<Rightarrow> bool" where
  "proc_ok p \<longleftrightarrow>
     awake p = 1 \<and> sleep_time p = 0 \<or>
     awake p = 0 \<and> sleep_time p \<noteq> 0 \<and> sleep_time p \<noteq> UINT_MAX"

definition procs_ok :: "int \<Rightarrow> proc_info arr \<Rightarrow> bool" where
  "procs_ok n f \<longleftrightarrow> (\<forall>i. 0 \<le> i \<and> i < n \<longrightarrow> proc_ok (f i))"

definition awake_count :: "int \<Rightarrow> proc_info arr \<Rightarrow> int" where
  "awake_count n f = count_if (\<lambda>i. sleep_time (f i) = 0) n"

lemma awake_sum_count: "procs_ok n f \<Longrightarrow> awake_sum n f = awake_count n f"
  unfolding awake_sum_def awake_count_def count_if_def for_up_sum
  by (simp, rule sum.cong) (auto simp: procs_ok_def proc_ok_def)

text \<open>Who may be woken: asleep, and no longer than any other sleeper.\<close>

definition least_sleeper :: "int \<Rightarrow> proc_info arr \<Rightarrow> int \<Rightarrow> bool" where
  "least_sleeper n f w \<longleftrightarrow>
     0 \<le> w \<and> w < n \<and> sleep_time (f w) \<noteq> 0 \<and>
     (\<forall>a. 0 \<le> a \<and> a < n \<and> sleep_time (f a) \<noteq> 0 \<longrightarrow> sleep_time (f w) \<le> sleep_time (f a))"

lemma int_less_Suc: "a < j + 1 \<longleftrightarrow> a < j \<or> a = j" for a :: int
  by auto

lemma least_sleeper_awake:
  "least_sleeper j f w \<Longrightarrow> sleep_time (f j) = 0 \<Longrightarrow> least_sleeper (j + 1) f w"
  unfolding least_sleeper_def int_less_Suc by auto

lemma least_sleeper_longer:
  "least_sleeper j f w \<Longrightarrow> \<not> sleep_time (f j) < sleep_time (f w) \<Longrightarrow> least_sleeper (j + 1) f w"
  unfolding least_sleeper_def int_less_Suc by auto

lemma least_sleeper_new:
  "0 \<le> j \<Longrightarrow> sleep_time (f j) \<noteq> 0 \<Longrightarrow>
   (\<And>a. 0 \<le> a \<Longrightarrow> a < j \<Longrightarrow> sleep_time (f a) \<noteq> 0 \<Longrightarrow> sleep_time (f j) \<le> sleep_time (f a)) \<Longrightarrow>
   least_sleeper (j + 1) f j"
  unfolding least_sleeper_def int_less_Suc by auto

text \<open>Indices of processors fit the \<open>unsigned int\<close> the scan stores them in.\<close>

lemma index_fits:
  assumes "0 \<le> j" and "j < 2 ^ 31"
  shows "uint (of_int j :: u32) = j" and "(of_int j :: u32) \<noteq> UINT_MAX"
proof -
  show *: "uint (of_int j :: u32) = j"
    using assms by (simp add: uint_word_of_int_eq take_bit_int_eq_self)
  have "uint UINT_MAX = 2 ^ 32 - 1"
    by (simp add: UINT_MAX_def unsigned_minus_1_eq_mask mask_eq_exp_minus_1)
  with * assms show "(of_int j :: u32) \<noteq> UINT_MAX" by auto
qed

definition wake_scan_inv :: "proc_info arr \<Rightarrow> int \<Rightarrow> int \<times> u32 \<times> u32 \<Rightarrow> bool" where
  "wake_scan_inv f j st \<longleftrightarrow>
     (case st of (c, m, w) \<Rightarrow> c = awake_count j f \<and>
        (if w = UINT_MAX then m = UINT_MAX \<and> c = j
         else m = sleep_time (f (uint w)) \<and> least_sleeper j f (uint w)))"

lemma awake_count_Suc:
  "0 \<le> j \<Longrightarrow> awake_count (j + 1) f = awake_count j f + (if sleep_time (f j) = 0 then 1 else 0)"
  by (simp add: awake_count_def count_if_Suc)

lemma wake_scan_step:
  assumes "0 \<le> j" and "j < 2 ^ 31" and "proc_ok (f j)" and "awake_count j f < req"
    and "wake_scan_inv f j st"
  shows "\<exists>st'. wake_scan req f j st = (False, st') \<and> wake_scan_inv f (j + 1) st'"
proof -
  obtain c m w where st: "st = (c, m, w)" by (cases st)
  have c: "c = awake_count j f" using assms(5) st by (simp add: wake_scan_inv_def)
  have none: "w = UINT_MAX \<Longrightarrow> 0 \<le> a \<Longrightarrow> a < j \<Longrightarrow> sleep_time (f a) = 0" for a
    using assms(1,5) st count_if_all [of j "\<lambda>i. sleep_time (f i) = 0"]
    by (simp add: wake_scan_inv_def awake_count_def)
  have mx: "sleep_time (f j) < UINT_MAX"
  proof -
    have "sleep_time (f j) \<noteq> UINT_MAX"
      using assms(3) by (auto simp: proc_ok_def UINT_MAX_def)
    then show ?thesis by (simp add: UINT_MAX_def word_order.not_eq_extremum)
  qed
  consider (up) "sleep_time (f j) = 0" | (less) "sleep_time (f j) \<noteq> 0" "sleep_time (f j) < m"
    | (more) "sleep_time (f j) \<noteq> 0" "\<not> sleep_time (f j) < m" by blast
  then show ?thesis
  proof cases
    case up
    then have "wake_scan req f j st = (False, c + 1, m, w)"
      using assms(4) c by (simp add: wake_scan_def st)
    moreover have "wake_scan_inv f (j + 1) (c + 1, m, w)"
      using assms(1,5) up st by (auto simp: wake_scan_inv_def awake_count_Suc least_sleeper_awake)
    ultimately show ?thesis by blast
  next
    case less
    then have "wake_scan req f j st = (False, c, sleep_time (f j), of_int j)"
      using assms(4) c by (simp add: wake_scan_def st)
    moreover have "least_sleeper (j + 1) f j"
    proof (rule least_sleeper_new [where f = f, OF assms(1) less(1)])
      fix a
      assume a: "0 \<le> a" "a < j" "sleep_time (f a) \<noteq> 0"
      then have "w \<noteq> UINT_MAX" using none by blast
      then have "m \<le> sleep_time (f a)"
        using assms(5) a st by (simp add: wake_scan_inv_def least_sleeper_def)
      with less(2) show "sleep_time (f j) \<le> sleep_time (f a)" by simp
    qed
    ultimately show ?thesis
      using index_fits [OF assms(1,2)] assms(1) less(1) c
      by (simp add: wake_scan_inv_def awake_count_Suc)
  next
    case more
    then have "wake_scan req f j st = (False, c, m, w)"
      using assms(4) c by (simp add: wake_scan_def st)
    moreover have "w \<noteq> UINT_MAX"
      using assms(5) more(2) mx st by (auto simp: wake_scan_inv_def)
    ultimately show ?thesis
      using assms(1,5) more st
      by (simp add: wake_scan_inv_def awake_count_Suc least_sleeper_longer)
  qed
qed

lemma awake_count_mono: "0 \<le> j \<Longrightarrow> j \<le> n \<Longrightarrow> awake_count j f \<le> awake_count n f"
  unfolding awake_count_def count_if_def by (rule sum_mono2) auto

lemma wake_scan_loop:
  assumes "procs_ok n f" and "0 \<le> n" and "n < 2 ^ 31" and "awake_count n f < req"
  shows "wake_scan_inv f n (for_break 0 n (wake_scan req f) (0, UINT_MAX, UINT_MAX))"
proof (rule for_break_inv [where P = "\<lambda>j st. 0 \<le> j \<and> j \<le> n \<and> wake_scan_inv f j st"])
  fix j st brk st'
  assume j: "0 \<le> j" "j < n" and P: "0 \<le> j \<and> j \<le> n \<and> wake_scan_inv f j st"
    and step: "wake_scan req f j st = (brk, st')"
  have "awake_count j f < req"
    using awake_count_mono [of j n f] j assms(4) by simp
  then have "\<exists>st'. wake_scan req f j st = (False, st') \<and> wake_scan_inv f (j + 1) st'"
    using wake_scan_step [of j f req st] j P assms(1,3) by (auto simp: procs_ok_def)
  with step j show "if brk then wake_scan_inv f n st' else 0 \<le> j + 1 \<and> j + 1 \<le> n \<and> wake_scan_inv f (j + 1) st'"
    by auto
qed (use assms(2) in \<open>auto simp: wake_scan_inv_def awake_count_def\<close>)

text \<open>A round wakes one least sleeper, or everybody is awake already.\<close>

lemma wake_round_cases:
  assumes "procs_ok n f" and "0 \<le> n" and "n < 2 ^ 31" and "awake_count n f < req"
  obtains (woken) w where "least_sleeper n f w"
      and "wake_round n req f = (req \<le> awake_count n f + 1, f(w := (f w)\<lparr>sleep_time := 0, awake := 1\<rparr>))"
  | (all) "awake_count n f = n" and "wake_round n req f = (False, f)"
proof -
  obtain c m w where loop: "for_break 0 n (wake_scan req f) (0, UINT_MAX, UINT_MAX) = (c, m, w)"
    by (cases "for_break 0 n (wake_scan req f) (0, UINT_MAX, UINT_MAX)")
  have inv: "wake_scan_inv f n (c, m, w)"
    using wake_scan_loop [OF assms] unfolding loop .
  have c: "c = awake_count n f" using inv by (simp add: wake_scan_inv_def)
  show thesis
  proof (cases "w = UINT_MAX")
    case True
    have "\<not> uint UINT_MAX < n"
      using assms(3) by (simp add: UINT_MAX_def unsigned_minus_1_eq_mask mask_eq_exp_minus_1)
    with True inv c assms(4) show thesis
      by (intro all) (auto simp: wake_round_def loop wake_scan_inv_def)
  next
    case False
    then have "least_sleeper n f (uint w)" using inv by (simp add: wake_scan_inv_def)
    moreover from this have "uint w < n" by (simp add: least_sleeper_def)
    ultimately show thesis
      using c by (intro woken [of "uint w"]) (simp_all add: wake_round_def loop)
  qed
qed

text \<open>
  From \<open>f0\<close> to \<open>f\<close> some sleepers were woken, none of which had slept longer than one that
  still sleeps; nothing else changed.
\<close>

definition woken :: "int \<Rightarrow> proc_info arr \<Rightarrow> proc_info arr \<Rightarrow> bool" where
  "woken n f0 f \<longleftrightarrow>
     (\<forall>k. f k = f0 k \<or>
        0 \<le> k \<and> k < n \<and> sleep_time (f0 k) \<noteq> 0 \<and> f k = (f0 k)\<lparr>sleep_time := 0, awake := 1\<rparr> \<and>
        (\<forall>a. 0 \<le> a \<and> a < n \<and> sleep_time (f a) \<noteq> 0 \<longrightarrow> sleep_time (f0 k) \<le> sleep_time (f0 a)))"

lemma woken_step:
  assumes "woken n f0 f" and "least_sleeper n f w"
  shows "woken n f0 (f(w := (f w)\<lparr>sleep_time := 0, awake := 1\<rparr>))"
proof -
  have same: "f a = f0 a" if "sleep_time (f a) \<noteq> 0" for a
    using assms(1) that unfolding woken_def by (metis proc_info.select_convs(1) proc_info.surjective
        proc_info.update_convs(1) proc_info.update_convs(2))
  show ?thesis
    unfolding woken_def
  proof (intro allI)
    fix k
    show "(f(w := (f w)\<lparr>sleep_time := 0, awake := 1\<rparr>)) k = f0 k \<or>
        0 \<le> k \<and> k < n \<and> sleep_time (f0 k) \<noteq> 0 \<and>
        (f(w := (f w)\<lparr>sleep_time := 0, awake := 1\<rparr>)) k = (f0 k)\<lparr>sleep_time := 0, awake := 1\<rparr> \<and>
        (\<forall>a. 0 \<le> a \<and> a < n \<and> sleep_time ((f(w := (f w)\<lparr>sleep_time := 0, awake := 1\<rparr>)) a) \<noteq> 0 \<longrightarrow>
           sleep_time (f0 k) \<le> sleep_time (f0 a))"
    proof (cases "k = w")
      case True
      then show ?thesis
        using assms(2) same unfolding least_sleeper_def by auto
    next
      case False
      then show ?thesis
        using assms(1) unfolding woken_def by auto
    qed
  qed
qed

lemma awake_count_wake:
  assumes "least_sleeper n f w"
  shows "awake_count n (f(w := (f w)\<lparr>sleep_time := 0, awake := 1\<rparr>)) = awake_count n f + 1"
  using assms unfolding awake_count_def least_sleeper_def
  by (subst count_if_upd [where k = w and p = "\<lambda>i. sleep_time (f i) = 0"]) auto

lemma procs_ok_wake: "procs_ok n f \<Longrightarrow> procs_ok n (f(w := (f w)\<lparr>sleep_time := 0, awake := 1\<rparr>))"
  by (simp add: procs_ok_def proc_ok_def)

lemma wake_loop:
  assumes ok: "procs_ok n f0" and n: "0 \<le> n" "n < 2 ^ 31" and lt: "awake_count n f0 < req"
  shows "procs_ok n (for_break 0 req (\<lambda>i. wake_round n req) f0) \<and>
    woken n f0 (for_break 0 req (\<lambda>i. wake_round n req) f0) \<and>
    awake_count n (for_break 0 req (\<lambda>i. wake_round n req) f0) = min req n"
proof -
  let ?P = "\<lambda>i f. procs_ok n f \<and> woken n f0 f \<and> awake_count n f < req \<and>
      (i \<le> awake_count n f \<or> awake_count n f = n)"
  let ?Q = "\<lambda>f. procs_ok n f \<and> woken n f0 f \<and> awake_count n f = min req n"
  have le: "awake_count n f \<le> n" for f
    unfolding awake_count_def by (rule count_if_le [OF n(1)])
  show ?thesis
  proof (rule for_break_inv [where P = ?P and Q = ?Q])
    show "?P 0 f0" using ok lt by (simp add: woken_def awake_count_def)
    show "0 \<le> req" using lt count_if_nonneg [of "\<lambda>i. sleep_time (f0 i) = 0" n]
      unfolding awake_count_def by linarith
  next
    fix i f b g
    assume P: "?P i f" and step: "wake_round n req f = (b, g)"
    then have pre: "procs_ok n f" "awake_count n f < req" by auto
    from pre(1) n pre(2) show "if b then ?Q g else ?P (i + 1) g"
    proof (cases rule: wake_round_cases)
      case (woken w)
      then have g: "g = f(w := (f w)\<lparr>sleep_time := 0, awake := 1\<rparr>)" "b = (req \<le> awake_count n f + 1)"
        using step by auto
      have "procs_ok n g" "woken n f0 g" "awake_count n g = awake_count n f + 1"
        using P woken(1) by (auto simp: g procs_ok_wake woken_step awake_count_wake)
      then show ?thesis using P le [of g] le [of f] by (auto simp: g(2) min_def)
    next
      case all
      then show ?thesis using P step by auto
    qed
  qed (use le in \<open>auto simp: min_def\<close>)
qed

lemma wake_up_procs_spec:
  assumes "procs_ok (total_online_cpus s) (info s)" and "0 \<le> total_online_cpus s"
    and "total_online_cpus s < 2 ^ 31"
  obtains f where "wake_up_procs req s = s\<lparr>info := f\<rparr>"
    and "procs_ok (total_online_cpus s) f" and "woken (total_online_cpus s) (info s) f"
    and "awake_count (total_online_cpus s) f =
      max (awake_count (total_online_cpus s) (info s)) (min req (total_online_cpus s))"
proof (cases "req \<le> awake_count (total_online_cpus s) (info s)")
  case True
  then have "wake_up_procs req s = s\<lparr>info := info s\<rparr>"
    using assms by (simp add: wake_up_procs_def awake_sum_count)
  moreover have "woken (total_online_cpus s) (info s) (info s)" by (simp add: woken_def)
  ultimately show thesis using True assms(1) by (intro that [of "info s"]) auto
next
  case False
  have "awake_count (total_online_cpus s) (info s) \<le> total_online_cpus s"
    unfolding awake_count_def by (rule count_if_le [OF assms(2)])
  with False wake_loop [OF assms, of req] show thesis
    using assms
    by (intro that [of "for_break 0 req (\<lambda>i. wake_round (total_online_cpus s) req) (info s)"])
      (auto simp: wake_up_procs_def awake_sum_count)
qed

subsection \<open>Retiring stops at the request and never touches a busy processor\<close>

text \<open>From \<open>f0\<close> to \<open>f\<close> some idle processors were put to sleep; nothing else changed.\<close>

definition retired :: "kenv \<Rightarrow> proc_info arr \<Rightarrow> proc_info arr \<Rightarrow> bool" where
  "retired env f0 f \<longleftrightarrow>
     (\<forall>k. f k = f0 k \<or>
        awake (f0 k) = 1 \<and> get_cpu_tasks env k = 0 \<and>
        f k = (f0 k)\<lparr>awake := 0, sleep_time := 1, awake_time := 0\<rparr>)"

lemma procs_ok_retire:
  "procs_ok n f \<Longrightarrow> procs_ok n (f(i := (f i)\<lparr>awake := 0, sleep_time := 1, awake_time := 0\<rparr>))"
  by (auto simp: procs_ok_def proc_ok_def UINT_MAX_def)

lemma awake_count_retire:
  assumes "procs_ok n f" and "0 \<le> i" and "i < n" and "awake (f i) = 1"
  shows "awake_count n (f(i := (f i)\<lparr>awake := 0, sleep_time := 1, awake_time := 0\<rparr>)) =
    awake_count n f - 1"
proof -
  have "proc_ok (f i)" using assms(1-3) by (simp add: procs_ok_def)
  with assms(4) have "sleep_time (f i) = 0" by (auto simp: proc_ok_def)
  then show ?thesis
    using assms(2,3) unfolding awake_count_def
    by (subst count_if_upd [where k = i and p = "\<lambda>i. sleep_time (f i) = 0"]) auto
qed

definition retire_inv ::
    "kenv \<Rightarrow> int \<Rightarrow> int \<Rightarrow> proc_info arr \<Rightarrow> int \<Rightarrow> proc_info arr \<times> int arr \<times> int \<Rightarrow> bool" where
  "retire_inv env n req f0 j st \<longleftrightarrow>
     (case st of (f, put_to_sleep, a) \<Rightarrow>
        procs_ok n f \<and> retired env f0 f \<and> a = awake_count n f \<and> req \<le> a \<and>
        (req < a \<longrightarrow> (\<forall>i. 0 \<le> i \<and> i < j \<and> awake (f i) = 1 \<longrightarrow> get_cpu_tasks env i \<noteq> 0)))"

lemma retire_step_inv:
  assumes inv: "retire_inv env n req f0 j (f, p, a)" and "req < a" and j: "0 \<le> j" "j < n"
    and step: "retire_step env req j (f, p, a) = (b, st)"
  shows "retire_inv env n req f0 (j + 1) st \<and> (b \<longleftrightarrow> snd (snd st) \<le> req)"
proof (cases "awake (f j) = 1 \<and> get_cpu_tasks env j = 0")
  case True
  let ?f = "f(j := (f j)\<lparr>awake := 0, sleep_time := 1, awake_time := 0\<rparr>)"
  have st: "st = (?f, p(j := 1), a - 1)" "b = (a - 1 \<le> req)"
    using step True by (auto simp: retire_step_def)
  have "f j = f0 j"
    using inv True by (auto simp: retire_inv_def retired_def dest!: spec [of _ j])
  then have "retired env f0 ?f"
    using inv True by (auto simp: retire_inv_def retired_def)
  moreover have "awake (?f i) = 1 \<longrightarrow> i \<noteq> j \<and> awake (f i) = 1" for i by auto
  ultimately show ?thesis
    using inv assms(2) j True
    unfolding st retire_inv_def int_less_Suc
    by (auto simp: procs_ok_retire awake_count_retire)
next
  case False
  then have st: "st = (f, p(j := 0), a)" "b = (a \<le> req)"
    using step by (auto simp: retire_step_def)
  then show ?thesis
    using inv assms(2) False unfolding st retire_inv_def int_less_Suc by auto
qed

lemma retire_loop:
  assumes ok: "procs_ok n f0" and n: "0 \<le> n" and lt: "req < awake_count n f0"
  shows "retire_inv env n req f0 n (for_break 0 n (retire_step env req) (f0, p, awake_count n f0))"
proof (rule for_break_inv [where P = "\<lambda>j st. retire_inv env n req f0 j st \<and> req < snd (snd st)"])
  show "retire_inv env n req f0 0 (f0, p, awake_count n f0) \<and>
      req < snd (snd (f0, p, awake_count n f0))"
    using ok lt by (simp add: retire_inv_def retired_def)
next
  fix j st b st'
  assume j: "0 \<le> j" "j < n" and P: "retire_inv env n req f0 j st \<and> req < snd (snd st)"
    and step: "retire_step env req j st = (b, st')"
  obtain f q a where st: "st = (f, q, a)" by (cases st)
  obtain f' q' a' where st': "st' = (f', q', a')" by (cases st')
  have "retire_inv env n req f0 (j + 1) st' \<and> (b \<longleftrightarrow> snd (snd st') \<le> req)"
    by (rule retire_step_inv [where f = f and p = q and a = a]) (use P j step st in auto)
  then show "if b then retire_inv env n req f0 n st'
      else retire_inv env n req f0 (j + 1) st' \<and> req < snd (snd st')"
    unfolding st' by (auto simp: retire_inv_def)
qed (use n in auto)

text \<open>The proxy table lists the processors that are awake in order.\<close>

lemma proxy_loop:
  assumes "0 \<le> n"
  shows "case for_up 0 n (proxy_step f) (p0, 0) of (p, m) \<Rightarrow>
    m = count_if (\<lambda>i. awake (f i) = 1) n \<and>
    (\<forall>k. 0 \<le> k \<and> k < m \<longrightarrow>
       0 \<le> p k \<and> p k < n \<and> awake (f (p k)) = 1 \<and> count_if (\<lambda>i. awake (f i) = 1) (p k) = k)"
proof (rule for_up_inv [where P = "\<lambda>n st. 0 \<le> n \<and> (case st of (p, m) \<Rightarrow>
    m = count_if (\<lambda>i. awake (f i) = 1) n \<and>
    (\<forall>k. 0 \<le> k \<and> k < m \<longrightarrow>
       0 \<le> p k \<and> p k < n \<and> awake (f (p k)) = 1 \<and> count_if (\<lambda>i. awake (f i) = 1) (p k) = k))",
    THEN conjunct2])
  fix j and st :: "int arr \<times> int"
  assume a: "0 \<le> j \<and> (case st of (p, m) \<Rightarrow>
    m = count_if (\<lambda>i. awake (f i) = 1) j \<and>
    (\<forall>k. 0 \<le> k \<and> k < m \<longrightarrow>
       0 \<le> p k \<and> p k < j \<and> awake (f (p k)) = 1 \<and> count_if (\<lambda>i. awake (f i) = 1) (p k) = k))"
  obtain p m where st: "st = (p, m)" by (cases st)
  show "0 \<le> j + 1 \<and> (case proxy_step f j st of (p, m) \<Rightarrow>
    m = count_if (\<lambda>i. awake (f i) = 1) (j + 1) \<and>
    (\<forall>k. 0 \<le> k \<and> k < m \<longrightarrow>
       0 \<le> p k \<and> p k < j + 1 \<and> awake (f (p k)) = 1 \<and> count_if (\<lambda>i. awake (f i) = 1) (p k) = k))"
    using a unfolding st int_less_Suc
    by (cases "awake (f j) = 1") (auto simp: proxy_step_def count_if_Suc)
qed (use assms in auto)

subsection \<open>Properties\<close>

definition ex_mut :: mut_st where
  "ex_mut = load_st.extend ex_load (mut_st.fields 100 True True
     ((\<lambda>_. \<lparr>sleep_time = 0, awake = 1, awake_time = 1\<rparr>)
        (1 := \<lparr>sleep_time = 4, awake = 0, awake_time = 0\<rparr>)) 0 0 1)"

lemmas ex_mut_simps = ex_mut_def ex_load_simps mut_st.defs

lemma ex_mut_procs: "procs_ok 2 (info ex_mut)"
  by (auto simp: procs_ok_def proc_ok_def ex_mut_simps UINT_MAX_def)

text \<open>
  C20: waking processors for a request leaves exactly as many awake as were requested, or
  as many as there are, and never fewer than before; it wakes sleepers only, none that has
  slept longer than one it leaves asleep, and changes nothing else.
\<close>

theorem wake_up_procs_exact:
  assumes "procs_ok (total_online_cpus s) (info s)" and "0 \<le> total_online_cpus s"
    and "total_online_cpus s < 2 ^ 31"
  shows "\<exists>f. wake_up_procs req s = s\<lparr>info := f\<rparr> \<and> procs_ok (total_online_cpus s) f \<and>
    woken (total_online_cpus s) (info s) f \<and>
    awake_count (total_online_cpus s) f =
      max (awake_count (total_online_cpus s) (info s)) (min req (total_online_cpus s))"
  using wake_up_procs_spec [OF assms] by metis

lemma wake_up_procs_exact_witness:
  "awake_count 2 (info (wake_up_procs 2 ex_mut)) = 2"
proof -
  have n: "total_online_cpus ex_mut = 2" by (simp add: ex_mut_simps)
  have "awake_count 2 (info ex_mut) = 1"
    by (simp add: awake_count_def count_if_2 ex_mut_simps)
  then show ?thesis
    using wake_up_procs_exact [of ex_mut 2] ex_mut_procs unfolding n by auto
qed

text \<open>
  C21: retiring processors down to a request puts idle processors to sleep only, never goes
  below the request, stops above it only when every processor still awake has tasks, and
  the proxy table then lists the processors that are awake, in order.
\<close>

theorem retire_procs_exact:
  assumes "procs_ok (total_online_cpus s) (info s)" and "0 \<le> total_online_cpus s"
    and "req < awake_count (total_online_cpus s) (info s)"
  shows "case retire_procs env req pts proxy s of (pts', proxy', t) \<Rightarrow>
    \<exists>f. t = s\<lparr>info := f\<rparr> \<and> procs_ok (total_online_cpus s) f \<and> retired env (info s) f \<and>
      req \<le> awake_count (total_online_cpus s) f \<and>
      (req < awake_count (total_online_cpus s) f \<longrightarrow>
         (\<forall>i. 0 \<le> i \<and> i < total_online_cpus s \<and> awake (f i) = 1 \<longrightarrow> get_cpu_tasks env i \<noteq> 0)) \<and>
      (\<forall>k. 0 \<le> k \<and> k < count_if (\<lambda>i. awake (f i) = 1) (total_online_cpus s) \<longrightarrow>
         awake (f (proxy' k)) = 1 \<and> count_if (\<lambda>i. awake (f i) = 1) (proxy' k) = k)"
proof -
  let ?n = "total_online_cpus s"
  obtain f q a where loop: "for_break 0 ?n (retire_step env req)
      (info s, pts, awake_count ?n (info s)) = (f, q, a)"
    by (cases "for_break 0 ?n (retire_step env req) (info s, pts, awake_count ?n (info s))")
  obtain p m where px: "for_up 0 ?n (proxy_step f) (proxy, 0) = (p, m)" by fastforce
  have "retire_procs env req pts proxy s = (q, p, s\<lparr>info := f\<rparr>)"
    using assms(1,3) loop px by (simp add: retire_procs_def awake_sum_count Let_def)
  moreover have "retire_inv env ?n req (info s) ?n (f, q, a)"
    using retire_loop [OF assms(1,2,3), of env pts] loop by simp
  ultimately show ?thesis
    using proxy_loop [OF assms(2), of f proxy] px by (auto simp: retire_inv_def)
qed

lemma retire_procs_exact_witness:
  "\<exists>f. snd (snd (retire_procs ex_env 0 (\<lambda>_. 0) (\<lambda>_. 0) ex_mut)) = ex_mut\<lparr>info := f\<rparr> \<and> procs_ok 2 f"
proof -
  have n: "total_online_cpus ex_mut = 2" by (simp add: ex_mut_simps)
  have "awake_count 2 (info ex_mut) = 1"
    by (simp add: awake_count_def count_if_2 ex_mut_simps)
  then show ?thesis
    using retire_procs_exact [of ex_mut 0 ex_env "\<lambda>_. 0" "\<lambda>_. 0"] ex_mut_procs
    unfolding n by (auto split: prod.splits)
qed

end
