(* ===== verification/Mutate_Simple.thy ===== *)
theory Mutate_Simple
  imports Mutate_Common
begin

text \<open>
  The two load-following mutators (\<open>Module/seeker-scheduler/mutate_od.c\<close>,
  \<open>mutate_cv.c\<close>), models of the kernel's governors of the same names: \<open>ondemand\<close> jumps to
  the highest state when a CPU is loaded and to the lowest otherwise, \<open>conservative\<close> moves
  one state at a time.
\<close>

record simple_st = mut_st +
  od_new_cpu_state :: "int arr"
  cv_new_cpu_state :: "int arr"

subsection \<open>Operations\<close>

definition ondemand_cpu :: "kenv \<Rightarrow> int \<Rightarrow> 'a simple_st_scheme \<Rightarrow> 'a simple_st_scheme" where
  "ondemand_cpu env i s =
     (case get_cpu_load env i s of (load, s) \<Rightarrow>
        let s = (if LOAD_0_875 < sint load
                 then s\<lparr>od_new_cpu_state := (od_new_cpu_state s)(i := total_states s - 1)\<rparr>
                 else s\<lparr>od_new_cpu_state := (od_new_cpu_state s)(i := 0)\<rparr>)
        in if cur_cpu_state s i \<noteq> od_new_cpu_state s i
           then snd (sched_set_freq env i (od_new_cpu_state s i) s) else s)"

definition ondemand :: "kenv \<Rightarrow> 'a simple_st_scheme \<Rightarrow> 'a simple_st_scheme" where
  "ondemand env s = for_up 0 (total_online_cpus s) (ondemand_cpu env) s"

definition conservative_cpu :: "kenv \<Rightarrow> int \<Rightarrow> 'a simple_st_scheme \<Rightarrow> 'a simple_st_scheme" where
  "conservative_cpu env i s =
     (case get_cpu_load env i s of (load, s) \<Rightarrow>
        let s = (if LOAD_0_875 < sint load
                 then s\<lparr>cv_new_cpu_state := (cv_new_cpu_state s)
                          (i := (if cur_cpu_state s i = total_states s - 1
                                 then total_states s - 1 else cur_cpu_state s i + 1))\<rparr>
                 else s\<lparr>cv_new_cpu_state := (cv_new_cpu_state s)
                          (i := (if cur_cpu_state s i = 0 then 0 else cur_cpu_state s i - 1))\<rparr>)
        in if cur_cpu_state s i \<noteq> cv_new_cpu_state s i
           then snd (sched_set_freq env i (cv_new_cpu_state s i) s) else s)"

definition conservative :: "kenv \<Rightarrow> 'a simple_st_scheme \<Rightarrow> 'a simple_st_scheme" where
  "conservative env s = for_up 0 (total_online_cpus s) (conservative_cpu env) s"

subsection \<open>What a step does to a CPU\<close>

text \<open>
  The load of a CPU as the mutators see it, and the states they aim at.
\<close>

definition loaded :: "kenv \<Rightarrow> int \<Rightarrow> 'a load_st_scheme \<Rightarrow> bool" where
  "loaded env i s \<longleftrightarrow> LOAD_0_875 < sint (fst (get_cpu_load env i s))"

definition ondemand_target :: "kenv \<Rightarrow> int \<Rightarrow> 'a load_st_scheme \<Rightarrow> int" where
  "ondemand_target env i s = (if loaded env i s then total_states s - 1 else 0)"

definition conservative_target :: "kenv \<Rightarrow> int \<Rightarrow> 'a load_st_scheme \<Rightarrow> int" where
  "conservative_target env i s =
     (if loaded env i s
      then (if cur_cpu_state s i = total_states s - 1 then total_states s - 1
            else cur_cpu_state s i + 1)
      else (if cur_cpu_state s i = 0 then 0 else cur_cpu_state s i - 1))"

lemma get_cpu_load_state:
  obtains l p where "get_cpu_load env i s = (l, s\<lparr>prev_idle_time := (prev_idle_time s)(i := p)\<rparr>)"
  by (rule that [of "fst (get_cpu_load env i s)" "ucast (kstat_idle env i + kstat_iowait env i)"])
    (simp add: get_cpu_load_def Let_def)

lemma loaded_local:
  assumes "prev_idle_time t i = prev_idle_time s i" and "change_interval t = change_interval s"
  shows "loaded env i t = loaded env i s"
  using assms by (simp add: loaded_def get_cpu_load_def Let_def)

text \<open>
  Each mutator is a loop that, CPU by CPU, records the idle time, stores a target and sets
  the frequency when the target is not the current state.
\<close>

definition aim :: "kenv \<Rightarrow> int \<Rightarrow> int \<Rightarrow> 'a state_st_scheme \<Rightarrow> 'a state_st_scheme" where
  "aim env i target s =
     (if cur_cpu_state s i \<noteq> target then snd (sched_set_freq env i target s) else s)"

lemma ondemand_cpu_aim:
  "\<exists>p w v. ondemand_cpu env i s = aim env i (ondemand_target env i s)
     (s\<lparr>prev_idle_time := (prev_idle_time s)(i := p), od_new_cpu_state := w, cv_new_cpu_state := v\<rparr>)"
proof -
  obtain l p where l: "get_cpu_load env i s = (l, s\<lparr>prev_idle_time := (prev_idle_time s)(i := p)\<rparr>)"
    by (rule get_cpu_load_state)
  have "ondemand_cpu env i s = aim env i (ondemand_target env i s)
      (s\<lparr>prev_idle_time := (prev_idle_time s)(i := p),
         od_new_cpu_state := (od_new_cpu_state s)(i := ondemand_target env i s),
         cv_new_cpu_state := cv_new_cpu_state s\<rparr>)"
    by (simp add: ondemand_cpu_def aim_def ondemand_target_def loaded_def l Let_def)
  then show ?thesis by blast
qed

lemma conservative_cpu_aim:
  "\<exists>p w v. conservative_cpu env i s = aim env i (conservative_target env i s)
     (s\<lparr>prev_idle_time := (prev_idle_time s)(i := p), od_new_cpu_state := w, cv_new_cpu_state := v\<rparr>)"
proof -
  obtain l p where l: "get_cpu_load env i s = (l, s\<lparr>prev_idle_time := (prev_idle_time s)(i := p)\<rparr>)"
    by (rule get_cpu_load_state)
  have "conservative_cpu env i s = aim env i (conservative_target env i s)
      (s\<lparr>prev_idle_time := (prev_idle_time s)(i := p),
         od_new_cpu_state := od_new_cpu_state s,
         cv_new_cpu_state := (cv_new_cpu_state s)(i := conservative_target env i s)\<rparr>)"
    by (simp add: conservative_cpu_def aim_def conservative_target_def loaded_def l Let_def)
  then show ?thesis by blast
qed

subsection \<open>The loops\<close>

text \<open>
  What both loops have in common: the body aims CPU \<open>i\<close> at a target that depends on the
  CPU's own state and idle time only and exists.
\<close>

locale aiming_mutator =
  fixes env :: kenv
    and body :: "int \<Rightarrow> 'a simple_st_scheme \<Rightarrow> 'a simple_st_scheme"
    and target :: "int \<Rightarrow> 'a simple_st_scheme \<Rightarrow> int"
  assumes body_aim: "\<exists>p w v. body i s = aim env i (target i s)
      (s\<lparr>prev_idle_time := (prev_idle_time s)(i := p), od_new_cpu_state := w, cv_new_cpu_state := v\<rparr>)"
    and target_view: "prev_idle_time t i = prev_idle_time s i \<Longrightarrow>
      change_interval t = change_interval s \<Longrightarrow> total_states t = total_states s \<Longrightarrow>
      cur_cpu_state t i = cur_cpu_state s i \<Longrightarrow> target i t = target i s"
    and target_range: "0 \<le> cur_cpu_state s i \<Longrightarrow> cur_cpu_state s i < total_states s \<Longrightarrow>
      0 \<le> target i s \<and> target i s < total_states s"
begin

definition pass_inv :: "'a simple_st_scheme \<Rightarrow> int \<Rightarrow> 'a simple_st_scheme \<Rightarrow> bool" where
  "pass_inv s j t \<longleftrightarrow>
     states_ok t \<and> total_online_cpus t = total_online_cpus s \<and> total_states t = total_states s \<and>
     change_interval t = change_interval s \<and> governor_serves env t = governor_serves env s \<and>
     (\<forall>c. c < 0 \<or> j \<le> c \<longrightarrow>
        cur_cpu_state t c = cur_cpu_state s c \<and> prev_idle_time t c = prev_idle_time s c) \<and>
     (\<forall>c. 0 \<le> c \<and> c < j \<longrightarrow>
        (cur_cpu_state t c = cur_cpu_state s c \<or> cur_cpu_state t c = target c s) \<and>
        (governor_serves env s \<longrightarrow> cur_cpu_state t c = target c s))"

lemma body_pass:
  assumes inv: "pass_inv s j t" and ok: "states_ok s" and j: "0 \<le> j" "j < total_online_cpus s"
    and n: "total_online_cpus s < 2 ^ 31" "total_states s < 2 ^ 31"
  shows "pass_inv s (j + 1) (body j t)"
proof -
  obtain p w v where body: "body j t = aim env j (target j t)
      (t\<lparr>prev_idle_time := (prev_idle_time t)(j := p), od_new_cpu_state := w, cv_new_cpu_state := v\<rparr>)"
    using body_aim by blast
  let ?u = "t\<lparr>prev_idle_time := (prev_idle_time t)(j := p), od_new_cpu_state := w, cv_new_cpu_state := v\<rparr>"
  let ?g = "target j s"
  let ?v = "snd (sched_set_freq env j ?g ?u)"
  have view: "target j t = ?g"
    by (rule target_view) (use inv in \<open>auto simp: pass_inv_def\<close>)
  have "0 \<le> cur_cpu_state s j \<and> cur_cpu_state s j < total_states s"
    using ok j by (auto simp: states_ok_def placed_def)
  then have g: "0 \<le> ?g" "?g < total_states s" using target_range by auto
  have u: "states_ok ?u" "total_online_cpus ?u = total_online_cpus s"
    "total_states ?u = total_states s" "governor_serves env ?u = governor_serves env s"
  proof -
    have "states_ok ?u = states_ok t" "governor_serves env ?u = governor_serves env t"
      by (simp_all add: states_ok_def placed_def governor_serves_def)
    then show "states_ok ?u" "total_online_cpus ?u = total_online_cpus s"
      "total_states ?u = total_states s" "governor_serves env ?u = governor_serves env s"
      using inv by (simp_all add: pass_inv_def)
  qed
  have upto: "c \<le> j \<longleftrightarrow> c < j \<or> c = j" for c by auto
  show ?thesis
  proof (cases "cur_cpu_state t j = ?g")
    case True
    then have "body j t = ?u" by (simp add: body view aim_def)
    then show ?thesis
      using inv u j True by (auto simp: pass_inv_def upto)
  next
    case False
    then have run: "body j t = ?v" by (simp add: body view aim_def)
    obtain q h c l cur st sq cj where v: "?v = ?u\<lparr>policies := q, log_heap := h, current_log := c,
        log_lock := l, cur_cpu_state := cur, states := st, states_seq_lock := sq,
        current_jiffies := cj\<rparr>"
      by (rule freq_frameE [OF sched_set_freq_frame [of ?u env j ?g]])
    have ok': "states_ok ?v"
      by (rule sched_set_freq_states_ok) (use u g j n in auto)
    have "cur_cpu_state ?v = cur_cpu_state ?u \<or> cur_cpu_state ?v = (cur_cpu_state ?u)(j := ?g)"
      by (rule sched_set_freq_cur) (use g j n in auto)
    then have cur: "cur = cur_cpu_state t \<or> cur = (cur_cpu_state t)(j := ?g)"
      unfolding v by simp
    have srv: "cur = (cur_cpu_state t)(j := ?g)" if "governor_serves env s"
    proof -
      have "cur_cpu_state ?v = (cur_cpu_state ?u)(j := ?g)"
        by (rule sched_set_freq_serves(1)) (use that u g j n in auto)
      then show ?thesis unfolding v by simp
    qed
    have gs: "governor_serves env ?v = governor_serves env s"
      using governor_serves_frame [OF sched_set_freq_frame [of ?u env j ?g]] u(4) by simp
    show ?thesis
      using inv ok' gs cur srv j unfolding run pass_inv_def
      by (auto simp: v upto)
  qed
qed

lemma pass:
  assumes ok: "states_ok s" and n: "0 \<le> total_online_cpus s" "total_online_cpus s < 2 ^ 31"
    "total_states s < 2 ^ 31"
  shows "pass_inv s (total_online_cpus s) (for_up 0 (total_online_cpus s) body s)"
proof (rule for_up_inv [where P = "\<lambda>j t. 0 \<le> j \<and> pass_inv s j t", THEN conjunct2])
  show "0 \<le> (0::int) \<and> pass_inv s 0 s" using ok by (simp add: pass_inv_def)
qed (use body_pass [OF _ ok] n in auto)

end

interpretation od: aiming_mutator env "ondemand_cpu env" "\<lambda>i s. ondemand_target env i s"
proof (unfold_locales, goal_cases)
  case (1 i s)
  then show ?case by (rule ondemand_cpu_aim)
next
  case (2 t i s)
  then show ?case using loaded_local [of t i s env] by (simp add: ondemand_target_def)
next
  case (3 s i)
  then show ?case by (simp add: ondemand_target_def)
qed

interpretation cv: aiming_mutator env "conservative_cpu env" "\<lambda>i s. conservative_target env i s"
proof (unfold_locales, goal_cases)
  case (1 i s)
  then show ?case by (rule conservative_cpu_aim)
next
  case (2 t i s)
  then show ?case using loaded_local [of t i s env] by (simp add: conservative_target_def)
next
  case (3 s i)
  then show ?case by (simp add: conservative_target_def)
qed

subsection \<open>Properties\<close>

definition ex_simple :: simple_st where
  "ex_simple = mut_st.extend ex_mut (simple_st.fields (\<lambda>_. 0) (\<lambda>_. 0))"

lemmas ex_simple_simps = ex_simple_def ex_mut_simps simple_st.defs

lemma ex_simple_ok: "states_ok ex_simple" "governor_serves ex_env ex_simple"
proof -
  have "states_ok ex_simple = states_ok ex_state" "governor_serves ex_env ex_simple = governor_serves ex_env ex_state"
    by (simp_all add: states_ok_def placed_def governor_serves_def ex_simple_simps)
  then show "states_ok ex_simple" "governor_serves ex_env ex_simple"
    using ex_state_ok ex_state_serves by auto
qed

text \<open>
  a pass of the ondemand mutator leaves every CPU in its state or takes it to the
  highest state if it is loaded and the lowest if it is not, to exactly that one when the
  driver serves, and keeps the scheduler's tables consistent.
\<close>

theorem ondemand_pass:
  assumes "states_ok s" and "0 \<le> total_online_cpus s" and "total_online_cpus s < 2 ^ 31"
    and "total_states s < 2 ^ 31"
  shows "states_ok (ondemand env s) \<and>
    (\<forall>c. 0 \<le> c \<and> c < total_online_cpus s \<longrightarrow>
       (let want = (if loaded env c s then total_states s - 1 else 0) in
        (cur_cpu_state (ondemand env s) c = cur_cpu_state s c \<or>
         cur_cpu_state (ondemand env s) c = want) \<and>
        (governor_serves env s \<longrightarrow> cur_cpu_state (ondemand env s) c = want)))"
  using od.pass [OF assms, of env]
  unfolding od.pass_inv_def ondemand_def [symmetric] by (simp add: ondemand_target_def Let_def)

lemma ondemand_pass_witness: "cur_cpu_state (ondemand ex_env ex_simple) 0 = 2"
  using ondemand_pass [OF ex_simple_ok(1), of ex_env] ex_simple_ok(2)
  by (simp add: Let_def) (simp add: ex_simple_simps ex_env_def loaded_def get_cpu_load_def load_defs Let_def)

text \<open>
  a pass of the conservative mutator moves no CPU by more than one state, up only if
  it is loaded and down only if it is not, never past the states there are, and keeps the
  scheduler's tables consistent.
\<close>

theorem conservative_pass:
  assumes "states_ok s" and "0 \<le> total_online_cpus s" and "total_online_cpus s < 2 ^ 31"
    and "total_states s < 2 ^ 31"
  shows "states_ok (conservative env s) \<and>
    (\<forall>c. 0 \<le> c \<and> c < total_online_cpus s \<longrightarrow>
       (let old = cur_cpu_state s c; new = cur_cpu_state (conservative env s) c in
        (if loaded env c s then old \<le> new \<and> new \<le> min (old + 1) (total_states s - 1)
         else max (old - 1) 0 \<le> new \<and> new \<le> old) \<and>
        (governor_serves env s \<longrightarrow>
           new = (if loaded env c s then min (old + 1) (total_states s - 1) else max (old - 1) 0))))"
proof -
  have range: "0 \<le> cur_cpu_state s c \<and> cur_cpu_state s c < total_states s"
    if "0 \<le> c" "c < total_online_cpus s" for c
    using assms(1) that by (simp add: states_ok_def placed_def)
  note pass = cv.pass [OF assms, of env, unfolded cv.pass_inv_def, folded conservative_def]
  have cell: "(cur_cpu_state (conservative env s) c = cur_cpu_state s c \<or>
        cur_cpu_state (conservative env s) c = conservative_target env c s) \<and>
      (governor_serves env s \<longrightarrow>
        cur_cpu_state (conservative env s) c = conservative_target env c s)"
    if "0 \<le> c" "c < total_online_cpus s" for c
    using pass that by blast
  have target: "conservative_target env c s =
      (if loaded env c s then min (cur_cpu_state s c + 1) (total_states s - 1)
       else max (cur_cpu_state s c - 1) 0)" if "0 \<le> c" "c < total_online_cpus s" for c
    using range [OF that] by (auto simp: conservative_target_def min_def max_def)
  show ?thesis
  proof (intro conjI allI impI)
    show "states_ok (conservative env s)" using pass by blast
    fix c assume "0 \<le> c \<and> c < total_online_cpus s"
    then show "let old = cur_cpu_state s c; new = cur_cpu_state (conservative env s) c in
        (if loaded env c s then old \<le> new \<and> new \<le> min (old + 1) (total_states s - 1)
         else max (old - 1) 0 \<le> new \<and> new \<le> old) \<and>
        (governor_serves env s \<longrightarrow>
           new = (if loaded env c s then min (old + 1) (total_states s - 1) else max (old - 1) 0))"
      using cell [of c] target [of c] range [of c] unfolding Let_def by (auto simp: min_def max_def)
  qed
qed

lemma conservative_pass_witness: "cur_cpu_state (conservative ex_env ex_simple) 0 = 1"
  using conservative_pass [OF ex_simple_ok(1), of ex_env] ex_simple_ok(2)
  by (simp add: Let_def) (simp add: ex_simple_simps ex_env_def loaded_def get_cpu_load_def load_defs Let_def)

end
