(* ===== verification/Mutate_Greedy.thy ===== *)
theory Mutate_Greedy
  imports Mutate_Simple
begin

text \<open>
  The greedy delta mutator (\<open>Module/seeker-scheduler/mutate_gd.c\<close>): every interval it
  distributes the CPUs the system needs over the states the tasks demand, by an auction that
  may move CPUs by at most \<open>delta\<close> states in total. The file's static arrays are the record
  \<open>gd_vars\<close>; the functions take the number of states \<open>T\<close> and of CPUs \<open>n\<close>.
\<close>

subsection \<open>State\<close>

record gd_vars =
  new_states :: "state_desc arr"
  demand_field :: "int arr"
  new_cpu_state :: "int arr"
  state_matrix :: "int arr arr"
  state_weight :: "int arr"
  winning_procs :: "int arr"
  gd_demand :: "int arr"
  selected_cpus :: "int arr"
  proxy_source :: "int arr"

record gd_st = simple_st +
  gd :: gd_vars

definition MIN_REQUESTS :: int where "MIN_REQUESTS = 4"

subsection \<open>Demand and direction\<close>

definition transition_direction :: "int arr \<Rightarrow> 'a mut_st_scheme \<Rightarrow> int" where
  "transition_direction dem s =
     (let req_level = for_up 0 (total_states s) (\<lambda>i t. t + dem i * (i + 1)) 0;
          pre_level = for_up 0 (total_online_cpus s)
            (\<lambda>i t. if 0 < sleep_time (info s i) then t else t + (cur_cpu_state s i + 1)) 0
      in if pre_level < req_level then 1 else if req_level < pre_level then - 1 else 0)"

definition procs :: "int \<Rightarrow> int \<Rightarrow> int \<Rightarrow> int" where
  "procs hints tot total_load =
     (if hints = 0 then 0
      else if hints = tot then total_load
      else let ans = div_int (hints * total_load) tot in if ans < 0 then 0 else ans)"

subsection \<open>The state matrix\<close>

definition row_left :: "int \<Rightarrow> int \<Rightarrow> int" where
  "row_left T direction = ((direction * direction - direction + 2) * T) div 2"

definition row_right :: "int \<Rightarrow> int \<Rightarrow> int" where
  "row_right T direction = ((direction * direction + direction + 2) * T) div 2"

text \<open>The four loops and the assignment that fill the row of a CPU whose state is \<open>L\<close>.\<close>

definition matrix_row :: "int \<Rightarrow> int \<Rightarrow> int \<Rightarrow> int \<Rightarrow> int arr \<Rightarrow> int arr" where
  "matrix_row T d direction L row =
     (let row = for_up 0 (L - d) (\<lambda>j a. a(j := 0)) row;
          j = max 0 (L - d);
          row = for_up j L (\<lambda>j a. a(j := row_left T direction + j - L)) row;
          j = max j L;
          row = row(j := T * 2);
          j = j + 1;
          row = for_up j (min T (L + d + 1)) (\<lambda>j a. a(j := row_right T direction + L - j)) row;
          j = max j (min T (L + d + 1))
      in for_up j T (\<lambda>j a. a(j := 0)) row)"

definition update_state_matrix :: "int \<Rightarrow> int \<Rightarrow> int \<Rightarrow> int \<Rightarrow> gd_vars \<Rightarrow> gd_vars" where
  "update_state_matrix T n d direction v =
     v\<lparr>state_matrix :=
         for_up 0 n (\<lambda>i m. m(i := matrix_row T d direction (new_cpu_state v i) (m i)))
           (state_matrix v)\<rparr>"

definition update_state_weight :: "int \<Rightarrow> int \<Rightarrow> gd_vars \<Rightarrow> gd_vars" where
  "update_state_weight T n v =
     v\<lparr>state_weight :=
         for_up 0 T (\<lambda>j w. w(j := for_up 0 n (\<lambda>i t. t + state_matrix v i j) 0)) (state_weight v)\<rparr>"

subsection \<open>Demand for states no CPU can reach\<close>

definition get_left_distance :: "gd_vars \<Rightarrow> int \<Rightarrow> int" where
  "get_left_distance v pos = first_down (\<lambda>i. state_weight v i \<noteq> 0) (pos - 1)"

definition get_right_distance :: "int \<Rightarrow> gd_vars \<Rightarrow> int \<Rightarrow> int" where
  "get_right_distance T v pos = first_up (\<lambda>i. state_weight v i \<noteq> 0) (pos + 1) T"

definition closest_of :: "int \<Rightarrow> int \<Rightarrow> int \<Rightarrow> int" where
  "closest_of pos left right =
     (if left = - 1 \<and> right = - 1 then - 1
      else if left = - 1 then right
      else if right = - 1 then left
      else if pos - left > right - pos then right else left)"

text \<open>\<open>friend\<close> is declared outside the loop and keeps its value between iterations.\<close>

definition choose_friend :: "int \<Rightarrow> int \<Rightarrow> int \<Rightarrow> int \<Rightarrow> int \<Rightarrow> int" where
  "choose_friend dir i left right frnd =
     (if dir = 1 \<and> left \<noteq> - 1 then left
      else if dir = 1 then right
      else if dir = 0 \<and> left = - 1 then right
      else if dir = 0 \<and> right = - 1 then left
      else if dir = 0 then closest_of i left right
      else if dir = - 1 \<and> right \<noteq> - 1 then right
      else if dir = - 1 then left
      else frnd)"

definition demand_field_step ::
    "int \<Rightarrow> int \<Rightarrow> int \<Rightarrow> int \<times> gd_vars \<Rightarrow> int \<times> gd_vars" where
  "demand_field_step T dir i acc =
     (case acc of (frnd, v) \<Rightarrow>
        if demand_field v i \<noteq> 0 \<and> state_weight v i = 0 then
          let left = get_left_distance v i;
              right = get_right_distance T v i
          in if left = - 1 \<and> right = - 1 then acc
             else
               let frnd = choose_friend dir i left right frnd in
               if frnd = - 1 then (frnd, v)
               else
                 let v = v\<lparr>demand_field := (demand_field v)
                             (frnd := demand_field v frnd + gd_demand v i)\<rparr>;
                     v = v\<lparr>demand_field := (demand_field v)(i := 0)\<rparr>
                 in (frnd, v\<lparr>proxy_source := (proxy_source v)(frnd := i)\<rparr>)
        else acc)"

definition update_demand_field :: "int \<Rightarrow> int \<Rightarrow> gd_vars \<Rightarrow> gd_vars" where
  "update_demand_field T dir v =
     (let v = v\<lparr>demand_field := for_up 0 T (\<lambda>i a. a(i := gd_demand v i)) (demand_field v),
                proxy_source := for_up 0 T (\<lambda>i a. a(i := i)) (proxy_source v)\<rparr>
      in snd (for_up 0 T (demand_field_step T dir) (- 1, v)))"

subsection \<open>Winners\<close>

text \<open>The loop over the CPUs carries \<open>(max_val, max)\<close>.\<close>

definition winning_proc_step ::
    "gd_vars \<Rightarrow> int \<Rightarrow> int \<Rightarrow> int \<times> int \<Rightarrow> int \<times> int" where
  "winning_proc_step v j i acc =
     (case acc of (max_val, mx) \<Rightarrow>
        let val = selected_cpus v i * state_matrix v i j
        in if max_val < val then (val, i) else acc)"

definition update_winning_procs :: "int \<Rightarrow> int \<Rightarrow> gd_vars \<Rightarrow> gd_vars" where
  "update_winning_procs T n v =
     v\<lparr>winning_procs :=
         for_up 0 T (\<lambda>j w. w(j := snd (for_up 0 n (winning_proc_step v j) (0, - 1))))
           (winning_procs v)\<rparr>"

text \<open>
  The loop carries \<open>(max_weight, max_proc, max)\<close>. The row \<open>winning_procs[j]\<close> it reads is -1
  where no CPU can win the state: the cell then lies outside the matrix.
\<close>

definition winning_state_step :: "gd_vars \<Rightarrow> int \<Rightarrow> int \<times> int \<times> int \<Rightarrow> int \<times> int \<times> int" where
  "winning_state_step v j acc =
     (case acc of (max_weight, max_proc, mx) \<Rightarrow>
        let weight = state_weight v j * demand_field v j in
        if max_weight < weight then (weight, state_matrix v (winning_procs v j) j, j)
        else if weight = max_weight then
          if max_proc < state_matrix v (winning_procs v j) j
          then (weight, state_matrix v (winning_procs v j) j, j) else acc
        else acc)"

definition get_winning_state :: "int \<Rightarrow> gd_vars \<Rightarrow> int" where
  "get_winning_state T v = snd (snd (for_up 0 T (winning_state_step v) (0, 0, - 1)))"

subsection \<open>The auction\<close>

text \<open>
  One round; the loop carries \<open>(gd_vars, delta, total_demand, total_selected_cpus)\<close>.
\<close>

definition auction_round ::
    "int \<Rightarrow> int \<Rightarrow> int arr \<Rightarrow> int \<Rightarrow> int \<Rightarrow> int \<Rightarrow> int \<Rightarrow> gd_vars \<times> int \<times> int \<times> int \<Rightarrow>
     bool \<times> gd_vars \<times> int \<times> int \<times> int" where
  "auction_round T n cur load tot direction total_iter acc =
     (case acc of (v, d, total_demand, selected) \<Rightarrow>
        if tot < MIN_REQUESTS \<or> load \<le> 0 \<or> d \<le> 0 \<or> total_demand \<le> 0 then (True, acc)
        else
          let v = update_state_matrix T n d direction v;
              v = update_state_weight T n v;
              v = update_winning_procs T n v;
              v = update_demand_field T direction v;
              winner = get_winning_state T v
          in if winner < 0 \<or> T \<le> winner then (True, v, d, total_demand, selected)
             else
               let winner_proc = winning_procs v winner in
               if winner_proc < 0 \<or> n \<le> winner_proc then (True, v, d, total_demand, selected)
               else
                 let v = v\<lparr>selected_cpus := (selected_cpus v)(winner_proc := 0)\<rparr>;
                     v = v\<lparr>gd_demand := (gd_demand v)(proxy_source v winner :=
                                gd_demand v (proxy_source v winner) - 1)\<rparr>;
                     total_demand = total_demand - 1;
                     selected = selected + 1;
                     d = d - ABS (cur winner_proc - winner);
                     v = v\<lparr>new_cpu_state := (new_cpu_state v)(winner_proc := winner)\<rparr>
                 in (False, v, d, total_demand, selected))"

text \<open>Awake CPUs no state has won are kept until the load is served.\<close>

definition keep_awake_step ::
    "proc_info arr \<Rightarrow> int \<Rightarrow> int \<Rightarrow> gd_vars \<times> int \<Rightarrow> bool \<times> gd_vars \<times> int" where
  "keep_awake_step f load i acc =
     (case acc of (v, selected) \<Rightarrow>
        if load \<le> selected then (True, acc)
        else if selected_cpus v i = 0 then (False, acc)
        else if sleep_time (f i) = 0
        then (False, v\<lparr>selected_cpus := (selected_cpus v)(i := 0)\<rparr>, selected + 1)
        else (False, acc))"

text \<open>Collecting the selected CPUs in \<open>new_states\<close>; the loop also counts them.\<close>

definition provide_step :: "int \<Rightarrow> gd_vars \<times> int \<Rightarrow> gd_vars \<times> int" where
  "provide_step i acc =
     (case acc of (v, provided) \<Rightarrow>
        if selected_cpus v i = 1 then acc
        else
          let st = new_cpu_state v i;
              v = v\<lparr>new_states := (new_states v)
                      (st := (new_states v st)\<lparr>cpus := cpus (new_states v st) + 1\<rparr>)\<rparr>;
              v = v\<lparr>new_states := (new_states v)
                      (st := (new_states v st)\<lparr>cpumask := insert i (cpumask (new_states v st))\<rparr>)\<rparr>
          in (v, provided + 1))"

definition provide_cpus :: "int \<Rightarrow> int \<Rightarrow> gd_vars \<Rightarrow> gd_vars" where
  "provide_cpus T n v =
     (let v = v\<lparr>new_states :=
                for_up 0 T (\<lambda>j a. a(j := (a j)\<lparr>cpus := 0, cpumask := {}\<rparr>)) (new_states v)\<rparr>
      in case for_up 0 n provide_step (v, 0) of (v, provided) \<Rightarrow>
           if provided = 0 then
             v\<lparr>new_states := (new_states v)
                 (0 := (new_states v 0)\<lparr>cpus := cpus (new_states v 0) + 1,
                                        cpumask := insert 0 (cpumask (new_states v 0))\<rparr>),
               new_cpu_state := (new_cpu_state v)(0 := 0),
               selected_cpus := (selected_cpus v)(0 := 0)\<rparr>
           else v)"

subsection \<open>Committing\<close>

definition commit_states :: "state_desc arr \<Rightarrow> 'a state_st_scheme \<Rightarrow> 'a state_st_scheme" where
  "commit_states ns s =
     (let s = write_seqlock s;
          s = for_up 0 (total_states s)
                (\<lambda>j s. demand_clear j
                   (upd_state j (\<lambda>d. d\<lparr>cpumask := cpumask (ns j), cpus := cpus (ns j)\<rparr>) s)) s
      in write_sequnlock s)"

definition upd_info ::
    "int \<Rightarrow> (proc_info \<Rightarrow> proc_info) \<Rightarrow> 'a mut_st_scheme \<Rightarrow> 'a mut_st_scheme" where
  "upd_info i f s = s\<lparr>info := (info s)(i := f (info s i))\<rparr>"

definition apply_cpu :: "kenv \<Rightarrow> int \<Rightarrow> 'a gd_st_scheme \<Rightarrow> 'a gd_st_scheme" where
  "apply_cpu env i s =
     (if selected_cpus (gd s) i = 0 then
        let s = upd_info i (\<lambda>p. p\<lparr>sleep_time := 0\<rparr>) s;
            s = upd_info i (\<lambda>p. p\<lparr>awake := 1\<rparr>) s
        in if new_cpu_state (gd s) i \<noteq> cur_cpu_state s i
           then snd (sched_set_freq env i (new_cpu_state (gd s) i) s) else s
      else if awake (info s i) = 0 then upd_info i (\<lambda>p. p\<lparr>sleep_time := sleep_time p + 1\<rparr>) s
      else
        let s = (if cur_cpu_state s i \<noteq> 0 then snd (sched_set_freq env i 0 s) else s)
        in upd_info i (\<lambda>p. p\<lparr>awake := 0, sleep_time := 1\<rparr>) s)"

text \<open>
  The entry the mutators log; the cells of the arrays past the last state are not written
  and stand here as 0.
\<close>

definition mutator_entry :: "int arr \<Rightarrow> 'a mut_st_scheme \<Rightarrow> log_t" where
  "mutator_entry req s =
     LOG_MUT \<lparr>mut_interval = interval_count s, mut_count = of_int (total_states s),
       cpus_req = for_up 0 (total_states s) (\<lambda>j a. a(j := of_int (req j))) (\<lambda>_. 0),
       cpus_given =
         for_up 0 (total_online_cpus s)
           (\<lambda>i a. a(cur_cpu_state s i := a (cur_cpu_state s i) + 1)) (\<lambda>_. 0)\<rparr>"

text \<open>\<open>greedy_delta\<close> up to the choice of the CPUs, and all of it.\<close>

definition greedy_choose ::
    "kenv \<Rightarrow> int \<Rightarrow> 'a gd_st_scheme \<Rightarrow> gd_vars \<times> int \<times> 'a gd_st_scheme" where
  "greedy_choose env d s =
     (let s = s\<lparr>interval_count := interval_count s + 1\<rparr>;
          n = total_online_cpus s;
          T = total_states s;
          v = (gd s)\<lparr>selected_cpus := for_up 0 n (\<lambda>i a. a(i := 1)) (selected_cpus (gd s)),
                     new_cpu_state :=
                       for_up 0 n (\<lambda>i a. a(i := cur_cpu_state s i)) (new_cpu_state (gd s))\<rparr>;
          load = get_tasks_load env s;
          tot = for_up 0 T (\<lambda>j t. t + demand_get j s) 0;
          v = v\<lparr>gd_demand := for_up 0 T (\<lambda>j a. a(j := procs (demand_get j s) tot load))
                               (gd_demand v)\<rparr>;
          s = wake_up_procs load s;
          direction = transition_direction (gd_demand v) s
      in case for_break 0 load (auction_round T n (cur_cpu_state s) load tot direction)
                (v, d, load, 0) of
           (v, d, total_demand, selected) \<Rightarrow>
             (case for_break 0 n (keep_awake_step (info s) load) (v, selected) of
                (v, selected) \<Rightarrow> (v, selected, s)))"

definition greedy_delta :: "kenv \<Rightarrow> int \<Rightarrow> 'a gd_st_scheme \<Rightarrow> 'a gd_st_scheme" where
  "greedy_delta env d s =
     (case greedy_choose env d s of (v, selected, s) \<Rightarrow>
        let v = provide_cpus (total_states s) (total_online_cpus s) v;
            s = commit_states (new_states v) (s\<lparr>gd := v\<rparr>);
            s = for_up 0 (total_online_cpus s) (apply_cpu env) s
        in log_entry env (mutator_entry (gd_demand (gd s)) s) s)"

subsection \<open>The matrix rewards nearness\<close>

lemma matrix_row_at:
  assumes "0 \<le> L" and "L < T" and "0 \<le> d" and "0 \<le> j" and "j < T"
  shows "matrix_row T d direction L row j =
    (if j = L then T * 2
     else if j < L then (if L - d \<le> j then row_left T direction + j - L else 0)
     else (if j \<le> L + d then row_right T direction + L - j else 0))"
  using assms unfolding matrix_row_def Let_def for_up_fill by auto

lemma matrix_row_pos:
  assumes "0 \<le> L" and "L < T" and "0 \<le> d" and "0 \<le> j" and "j < T"
    and "0 < matrix_row T d direction L row j"
  shows "\<bar>L - j\<bar> \<le> d"
  using assms matrix_row_at [OF assms(1-5), of direction row] by (auto split: if_splits)

lemma update_state_matrix_at:
  "0 \<le> i \<Longrightarrow> i < n \<Longrightarrow> state_matrix (update_state_matrix T n d direction v) i =
     matrix_row T d direction (new_cpu_state v i) (state_matrix v i)"
  unfolding update_state_matrix_def
  by (simp add: for_up_map [of 0 n "\<lambda>i r. matrix_row T d direction (new_cpu_state v i) r"])

text \<open>A CPU that can win a state is unselected and has a positive cell there.\<close>

lemma winning_proc_loop:
  assumes "0 \<le> n"
  shows "case for_up 0 n (winning_proc_step v j) (0, - 1) of (mv, mx) \<Rightarrow>
    mx = - 1 \<and> mv = 0 \<or>
    0 \<le> mx \<and> mx < n \<and> 0 < mv \<and> mv = selected_cpus v mx * state_matrix v mx j"
proof (rule for_up_inv [where P = "\<lambda>n st. 0 \<le> n \<and> (case st of (mv, mx) \<Rightarrow>
    mx = - 1 \<and> mv = 0 \<or>
    0 \<le> mx \<and> mx < n \<and> 0 < mv \<and> mv = selected_cpus v mx * state_matrix v mx j)", THEN conjunct2])
qed (use assms in \<open>auto simp: winning_proc_step_def Let_def split: if_splits\<close>)

lemma winning_procs_at:
  fixes v :: gd_vars
  assumes "0 \<le> n" and "0 \<le> j" and "j < T"
  defines "w \<equiv> winning_procs (update_winning_procs T n v) j"
  shows "w = - 1 \<or> 0 \<le> w \<and> w < n \<and> 0 < selected_cpus v w * state_matrix v w j"
  using winning_proc_loop [OF assms(1), of v j] assms(2,3)
  by (auto simp: w_def update_winning_procs_def for_up_fill split: prod.splits)

text \<open>What the steps of a round leave alone.\<close>

lemma round_frame:
  "selected_cpus (update_state_matrix T n d dir v) = selected_cpus v"
  "new_cpu_state (update_state_matrix T n d dir v) = new_cpu_state v"
  "selected_cpus (update_state_weight T n v) = selected_cpus v"
  "new_cpu_state (update_state_weight T n v) = new_cpu_state v"
  "state_matrix (update_state_weight T n v) = state_matrix v"
  "selected_cpus (update_winning_procs T n v) = selected_cpus v"
  "new_cpu_state (update_winning_procs T n v) = new_cpu_state v"
  "state_matrix (update_winning_procs T n v) = state_matrix v"
  by (simp_all add: update_state_matrix_def update_state_weight_def update_winning_procs_def)

lemma demand_field_frame:
  "selected_cpus (update_demand_field T dir v) = selected_cpus v \<and>
   new_cpu_state (update_demand_field T dir v) = new_cpu_state v \<and>
   winning_procs (update_demand_field T dir v) = winning_procs v"
proof -
  have "(\<lambda>acc. selected_cpus (snd acc) = selected_cpus v \<and> new_cpu_state (snd acc) = new_cpu_state v \<and>
      winning_procs (snd acc) = winning_procs v)
    (for_up 0 T (demand_field_step T dir) (f, w))"
    if "selected_cpus w = selected_cpus v" "new_cpu_state w = new_cpu_state v"
      "winning_procs w = winning_procs v" for f w
    by (rule for_up_preserves) (use that in \<open>auto simp: demand_field_step_def Let_def split: prod.splits\<close>)
  then show ?thesis by (simp add: update_demand_field_def Let_def)
qed

subsection \<open>The auction keeps its books\<close>

definition moved :: "int \<Rightarrow> int arr \<Rightarrow> gd_vars \<Rightarrow> int" where
  "moved n cur v = (\<Sum>i\<in>{0..<n}. \<bar>cur i - new_cpu_state v i\<bar>)"

text \<open>
  \<open>d0\<close> is the budget at the start: what was spent is what the CPUs moved, CPUs nobody has won
  are where they were, and \<open>selected\<close> counts the CPUs that were won.
\<close>

definition auction_inv ::
    "int \<Rightarrow> int \<Rightarrow> int arr \<Rightarrow> int \<Rightarrow> gd_vars \<Rightarrow> int \<Rightarrow> int \<Rightarrow> bool" where
  "auction_inv T n cur d0 v d selected \<longleftrightarrow>
     (\<forall>i. 0 \<le> i \<and> i < n \<longrightarrow>
        (selected_cpus v i = 0 \<or> selected_cpus v i = 1) \<and>
        (selected_cpus v i = 1 \<longrightarrow> new_cpu_state v i = cur i) \<and>
        0 \<le> new_cpu_state v i \<and> new_cpu_state v i < T) \<and>
     selected = count_if (\<lambda>i. selected_cpus v i = 0) n \<and>
     moved n cur v = d0 - d \<and> (d = d0 \<or> 0 \<le> d)"

lemma moved_upd:
  assumes "0 \<le> k" and "k < n" and "\<And>i. i \<noteq> k \<Longrightarrow> new_cpu_state w i = new_cpu_state v i"
  shows "moved n cur w = moved n cur v + \<bar>cur k - new_cpu_state w k\<bar> - \<bar>cur k - new_cpu_state v k\<bar>"
proof -
  have "moved n cur u = \<bar>cur k - new_cpu_state u k\<bar> +
      (\<Sum>i\<in>{0..<n} - {k}. \<bar>cur i - new_cpu_state u i\<bar>)" for u
    unfolding moved_def using assms(1,2) by (simp add: sum.remove)
  moreover have "(\<Sum>i\<in>{0..<n} - {k}. \<bar>cur i - new_cpu_state w i\<bar>) =
      (\<Sum>i\<in>{0..<n} - {k}. \<bar>cur i - new_cpu_state v i\<bar>)"
    using assms(3) by (intro sum.cong) auto
  ultimately show ?thesis by simp
qed

text \<open>The part of a round before the winner is known, and the round in terms of it.\<close>

definition round_vars :: "int \<Rightarrow> int \<Rightarrow> int \<Rightarrow> int \<Rightarrow> gd_vars \<Rightarrow> gd_vars" where
  "round_vars T n d direction v =
     update_demand_field T direction (update_winning_procs T n
       (update_state_weight T n (update_state_matrix T n d direction v)))"

lemma round_vars_frame:
  "selected_cpus (round_vars T n d dir v) = selected_cpus v"
  "new_cpu_state (round_vars T n d dir v) = new_cpu_state v"
  by (simp_all add: round_vars_def round_frame demand_field_frame)

lemma round_vars_winner:
  fixes dir :: int
  assumes inv: "auction_inv T n cur d0 v d sel" and n: "0 \<le> n" and d: "0 \<le> d"
    and j: "0 \<le> j" "j < T" and w: "0 \<le> winning_procs (round_vars T n d dir v) j"
  defines "p \<equiv> winning_procs (round_vars T n d dir v) j"
  shows "p < n \<and> selected_cpus v p = 1 \<and> \<bar>cur p - j\<bar> \<le> d"
proof -
  let ?m = "update_state_weight T n (update_state_matrix T n d dir v)"
  have p: "p = winning_procs (update_winning_procs T n ?m) j"
    by (simp add: p_def round_vars_def demand_field_frame)
  with winning_procs_at [OF n j, of ?m] w
  have pn: "0 \<le> p \<and> p < n" and pos: "0 < selected_cpus v p * state_matrix ?m p j"
    by (auto simp: p_def [symmetric] round_frame)
  then have "selected_cpus v p = 0 \<or> selected_cpus v p = 1" and L: "0 \<le> new_cpu_state v p"
    "new_cpu_state v p < T"
    using inv by (auto simp: auction_inv_def)
  with pos have sel: "selected_cpus v p = 1" by auto
  then have "0 < matrix_row T d dir (new_cpu_state v p) (state_matrix v p) j"
    using pos pn by (simp add: round_frame update_state_matrix_at)
  then have "\<bar>new_cpu_state v p - j\<bar> \<le> d"
    by (rule matrix_row_pos [OF L d j])
  moreover have "new_cpu_state v p = cur p"
    using inv pn sel by (simp add: auction_inv_def)
  ultimately show ?thesis using sel pn by simp
qed

lemma auction_round_inv:
  assumes inv: "auction_inv T n cur d0 v d sel" and n: "0 \<le> n"
    and step: "auction_round T n cur load tot dir k (v, d, td, sel) = (b, w, d', td', sel')"
  shows "auction_inv T n cur d0 w d' sel' \<and> (if b then sel' = sel else sel' = sel + 1)"
proof (cases "tot < MIN_REQUESTS \<or> load \<le> 0 \<or> d \<le> 0 \<or> td \<le> 0")
  case True
  then show ?thesis using step inv by (simp add: auction_round_def)
next
  case False
  define r where "r = round_vars T n d dir v"
  define j where "j = get_winning_state T r"
  define p where "p = winning_procs r j"
  have r: "selected_cpus r = selected_cpus v" "new_cpu_state r = new_cpu_state v"
    by (simp_all add: r_def round_vars_frame)
  have inv_r: "auction_inv T n cur d0 r d sel"
    using inv by (simp add: auction_inv_def moved_def r)
  have "auction_round T n cur load tot dir k (v, d, td, sel) =
      (if j < 0 \<or> T \<le> j then (True, r, d, td, sel)
       else if p < 0 \<or> n \<le> p then (True, r, d, td, sel)
       else (False, r\<lparr>selected_cpus := (selected_cpus r)(p := 0),
               gd_demand := (gd_demand r)(proxy_source r j := gd_demand r (proxy_source r j) - 1),
               new_cpu_state := (new_cpu_state r)(p := j)\<rparr>,
             d - \<bar>cur p - j\<bar>, td - 1, sel + 1))"
    using False unfolding auction_round_def p_def j_def r_def round_vars_def
    by (simp add: Let_def)
  note run = this [unfolded step]
  show ?thesis
  proof (cases "j < 0 \<or> T \<le> j \<or> p < 0 \<or> n \<le> p")
    case True
    then show ?thesis using run inv_r by (auto split: if_splits)
  next
    case f: False
    then have jT: "0 \<le> j" "j < T" and pn: "0 \<le> p" "p < n" by auto
    have d: "0 \<le> d" using False by simp
    have win: "selected_cpus v p = 1 \<and> \<bar>cur p - j\<bar> \<le> d"
      using round_vars_winner [OF inv n d jT, of dir] pn by (simp add: r_def p_def)
    have w: "b = False" "d' = d - \<bar>cur p - j\<bar>" "sel' = sel + 1"
      "selected_cpus w = (selected_cpus v)(p := 0)" "new_cpu_state w = (new_cpu_state v)(p := j)"
      using run f r by auto
    have "count_if (\<lambda>i. selected_cpus w i = 0) n = count_if (\<lambda>i. selected_cpus v i = 0) n + 1"
      by (subst count_if_upd [where k = p and p = "\<lambda>i. selected_cpus v i = 0"])
        (use pn w win in auto)
    moreover have "moved n cur w = moved n cur v + \<bar>cur p - new_cpu_state w p\<bar> - \<bar>cur p - new_cpu_state v p\<bar>"
      by (rule moved_upd) (use pn w in auto)
    moreover have "new_cpu_state v p = cur p"
      using inv pn win by (simp add: auction_inv_def)
    ultimately show ?thesis
      using inv win jT unfolding auction_inv_def w by (auto simp: w)
  qed
qed

lemma auction_loop:
  assumes inv: "auction_inv T n cur d0 v d0 0" and n: "0 \<le> n" and load: "0 \<le> load"
    and run: "for_break 0 load (auction_round T n cur load tot dir) (v, d0, td0, 0) = (w, d, td, sel)"
  shows "auction_inv T n cur d0 w d sel \<and> sel \<le> load"
proof -
  have "case for_break 0 load (auction_round T n cur load tot dir) (v, d0, td0, 0) of
      (w, d, td, sel) \<Rightarrow> auction_inv T n cur d0 w d sel \<and> sel \<le> load"
  proof (rule for_break_inv [where P = "\<lambda>k (w, d, td, sel). auction_inv T n cur d0 w d sel \<and> sel \<le> k \<and> k \<le> load"])
    fix k st b st'
    assume k: "0 \<le> k" "k < load"
      and P: "case st of (w, d, td, sel) \<Rightarrow> auction_inv T n cur d0 w d sel \<and> sel \<le> k \<and> k \<le> load"
      and step: "auction_round T n cur load tot dir k st = (b, st')"
    obtain v d td sel where st: "st = (v, d, td, sel)" by (cases st)
    obtain w d' td' sel' where st': "st' = (w, d', td', sel')" by (cases st')
    have "auction_inv T n cur d0 w d' sel' \<and> (if b then sel' = sel else sel' = sel + 1)"
      by (rule auction_round_inv [where v = v and d = d and td = td and sel = sel])
        (use P step n st st' in auto)
    then show "if b then (case st' of (w, d, td, sel) \<Rightarrow> auction_inv T n cur d0 w d sel \<and> sel \<le> load)
        else (case st' of (w, d, td, sel) \<Rightarrow> auction_inv T n cur d0 w d sel \<and> sel \<le> k + 1 \<and> k + 1 \<le> load)"
      using P k unfolding st st' by (auto split: if_splits)
  qed (use inv load in auto)
  then show ?thesis using run by simp
qed

subsection \<open>The load is served\<close>

lemma auction_inv_select:
  assumes "auction_inv T n cur d0 v d sel" and "0 \<le> i" and "i < n" and "selected_cpus v i \<noteq> 0"
  shows "auction_inv T n cur d0 (v\<lparr>selected_cpus := (selected_cpus v)(i := 0)\<rparr>) d (sel + 1)"
proof -
  have "count_if (\<lambda>k. ((selected_cpus v)(i := 0)) k = 0) n = count_if (\<lambda>k. selected_cpus v k = 0) n + 1"
    by (subst count_if_upd [where k = i and p = "\<lambda>k. selected_cpus v k = 0"])
      (use assms in auto)
  then show ?thesis
    using assms unfolding auction_inv_def moved_def by auto
qed

definition keep_inv ::
    "int \<Rightarrow> int \<Rightarrow> int arr \<Rightarrow> int \<Rightarrow> int \<Rightarrow> proc_info arr \<Rightarrow> int \<Rightarrow> int \<Rightarrow> gd_vars \<times> int \<Rightarrow> bool" where
  "keep_inv T n cur d0 d f load j st \<longleftrightarrow>
     (case st of (v, sel) \<Rightarrow> auction_inv T n cur d0 v d sel \<and> sel \<le> load \<and>
        (\<forall>i. 0 \<le> i \<and> i < j \<and> sleep_time (f i) = 0 \<longrightarrow> selected_cpus v i = 0))"

lemma keep_awake_loop:
  assumes inv: "auction_inv T n cur d0 v d sel" and "sel \<le> load" and n: "0 \<le> n"
    and enough: "load \<le> awake_count n f"
    and run: "for_break 0 n (keep_awake_step f load) (v, sel) = (w, sel')"
  shows "auction_inv T n cur d0 w d sel' \<and> sel' = load"
proof -
  have "case for_break 0 n (keep_awake_step f load) (v, sel) of
      (w, sel) \<Rightarrow> auction_inv T n cur d0 w d sel \<and> sel = load"
  proof (rule for_break_inv [where P = "keep_inv T n cur d0 d f load"])
    show "keep_inv T n cur d0 d f load 0 (v, sel)" using inv assms(2) by (simp add: keep_inv_def)
  next
    fix j st b st'
    assume j: "0 \<le> j" "j < n" and P: "keep_inv T n cur d0 d f load j st"
      and step: "keep_awake_step f load j st = (b, st')"
    obtain v sel where st: "st = (v, sel)" by (cases st)
    have upto: "i \<le> j \<longleftrightarrow> i < j \<or> i = j" for i by auto
    have bk: "auction_inv T n cur d0 v d sel" "sel \<le> load"
      and all: "\<And>i. 0 \<le> i \<Longrightarrow> i < j \<Longrightarrow> sleep_time (f i) = 0 \<Longrightarrow> selected_cpus v i = 0"
      using P by (auto simp: keep_inv_def st)
    show "if b then (case st' of (w, sel) \<Rightarrow> auction_inv T n cur d0 w d sel \<and> sel = load)
        else keep_inv T n cur d0 d f load (j + 1) st'"
    proof (cases "load \<le> sel \<or> selected_cpus v j = 0 \<or> sleep_time (f j) \<noteq> 0")
      case True
      then show ?thesis
        using step bk all unfolding st
        by (auto simp: keep_awake_step_def keep_inv_def upto split: if_splits)
    next
      case False
      then have "st' = (v\<lparr>selected_cpus := (selected_cpus v)(j := 0)\<rparr>, sel + 1)" "b = False"
        using step unfolding st by (auto simp: keep_awake_step_def)
      then show ?thesis
        using auction_inv_select [OF bk(1) j] False all
        by (auto simp: keep_inv_def upto)
    qed
  next
    fix st assume P: "keep_inv T n cur d0 d f load n st"
    obtain v sel where st: "st = (v, sel)" by (cases st)
    have "awake_count n f \<le> count_if (\<lambda>i. selected_cpus v i = 0) n"
      unfolding awake_count_def count_if_def
      by (rule sum_mono) (use P in \<open>auto simp: keep_inv_def st\<close>)
    with P enough show "case st of (w, sel) \<Rightarrow> auction_inv T n cur d0 w d sel \<and> sel = load"
      unfolding st keep_inv_def by (auto simp: auction_inv_def)
  qed (rule n)
  with run show ?thesis by auto
qed

lemma greedy_choose_spec:
  assumes cur: "cur_ok s" and procs: "procs_ok (total_online_cpus s) (info s)"
    and n: "0 \<le> total_online_cpus s" "total_online_cpus s < 2 ^ 31"
    and run: "greedy_choose env d s = (v, sel, t)"
  obtains e f where "auction_inv (total_states s) (total_online_cpus s) (cur_cpu_state s) d v e sel"
    and "sel = get_tasks_load env s"
    and "t = s\<lparr>interval_count := interval_count s + 1, info := f\<rparr>"
    and "procs_ok (total_online_cpus s) f"
proof -
  let ?n = "total_online_cpus s" and ?T = "total_states s" and ?load = "get_tasks_load env s"
  let ?s = "s\<lparr>interval_count := interval_count s + 1\<rparr>"
  have load: "0 \<le> ?load" "?load \<le> ?n" using get_tasks_load_bounds [OF n(1), of env] by auto
  have same: "get_tasks_load env ?s = ?load" "demand_get j ?s = demand_get j s" for j
    by (simp_all add: get_tasks_load_def demand_get_def Let_def)
  obtain f where wake: "wake_up_procs ?load ?s = ?s\<lparr>info := f\<rparr>" and f: "procs_ok ?n f"
    and cnt: "awake_count ?n f = max (awake_count ?n (info s)) (min ?load ?n)"
    using wake_up_procs_spec [of ?s ?load] procs n by auto
  define tot where "tot = for_up 0 ?T (\<lambda>j t. t + demand_get j s) 0"
  define v0 where "v0 = (gd s)\<lparr>selected_cpus := for_up 0 ?n (\<lambda>i a. a(i := 1)) (selected_cpus (gd s)),
      new_cpu_state := for_up 0 ?n (\<lambda>i a. a(i := cur_cpu_state s i)) (new_cpu_state (gd s)),
      gd_demand := for_up 0 ?T (\<lambda>j a. a(j := procs (demand_get j s) tot ?load)) (gd_demand (gd s))\<rparr>"
  define dir where "dir = transition_direction (gd_demand v0) (?s\<lparr>info := f\<rparr>)"
  obtain w e td k where loop: "for_break 0 ?load (auction_round ?T ?n (cur_cpu_state s) ?load tot dir)
      (v0, d, ?load, 0) = (w, e, td, k)"
    by (cases "for_break 0 ?load (auction_round ?T ?n (cur_cpu_state s) ?load tot dir) (v0, d, ?load, 0)")
  obtain w' k' where keep: "for_break 0 ?n (keep_awake_step f ?load) (w, k) = (w', k')"
    by (cases "for_break 0 ?n (keep_awake_step f ?load) (w, k)")
  have "greedy_choose env d s = (w', k', ?s\<lparr>info := f\<rparr>)"
    using loop keep unfolding greedy_choose_def Let_def
    by (simp add: same wake v0_def dir_def tot_def)
  then have res: "v = w'" "sel = k'" "t = ?s\<lparr>info := f\<rparr>" using run by auto
  have v0: "selected_cpus v0 i = 1" "new_cpu_state v0 i = cur_cpu_state s i" if "0 \<le> i" "i < ?n" for i
    using that by (simp_all add: v0_def for_up_fill)
  have "moved ?n (cur_cpu_state s) v0 = 0"
    unfolding moved_def by (rule sum.neutral) (auto simp: v0)
  moreover have "count_if (\<lambda>i. selected_cpus v0 i = 0) ?n = 0"
    unfolding count_if_def by (rule sum.neutral) (auto simp: v0)
  ultimately have "auction_inv ?T ?n (cur_cpu_state s) d v0 d 0"
    using cur unfolding auction_inv_def by (simp add: v0 cur_ok_def)
  from auction_loop [OF this n(1) load(1) loop]
  have "auction_inv ?T ?n (cur_cpu_state s) d w e k" "k \<le> ?load" by auto
  from keep_awake_loop [OF this n(1) _ keep] cnt load
  have "auction_inv ?T ?n (cur_cpu_state s) d w' e k' \<and> k' = ?load" by auto
  with f show thesis
    by (intro that [of e f]) (use res in auto)
qed

subsection \<open>The new states are consistent\<close>

lemma provide_loop:
  assumes "0 \<le> n"
  shows "case for_up 0 n provide_step (v, 0) of (w, k) \<Rightarrow>
    k = count_if (\<lambda>i. selected_cpus v i \<noteq> 1) n \<and> selected_cpus w = selected_cpus v \<and>
    new_cpu_state w = new_cpu_state v \<and> gd_demand w = gd_demand v \<and>
    (\<forall>st. cpumask (new_states w st) = cpumask (new_states v st) \<union>
            {i. 0 \<le> i \<and> i < n \<and> selected_cpus v i \<noteq> 1 \<and> new_cpu_state v i = st} \<and>
          cpus (new_states w st) = cpus (new_states v st) +
            count_if (\<lambda>i. selected_cpus v i \<noteq> 1 \<and> new_cpu_state v i = st) n)"
proof (rule for_up_inv [where P = "\<lambda>n st. 0 \<le> n \<and> (case st of (w, k) \<Rightarrow>
    k = count_if (\<lambda>i. selected_cpus v i \<noteq> 1) n \<and> selected_cpus w = selected_cpus v \<and>
    new_cpu_state w = new_cpu_state v \<and> gd_demand w = gd_demand v \<and>
    (\<forall>st. cpumask (new_states w st) = cpumask (new_states v st) \<union>
            {i. 0 \<le> i \<and> i < n \<and> selected_cpus v i \<noteq> 1 \<and> new_cpu_state v i = st} \<and>
          cpus (new_states w st) = cpus (new_states v st) +
            count_if (\<lambda>i. selected_cpus v i \<noteq> 1 \<and> new_cpu_state v i = st) n))", THEN conjunct2])
  fix j and st :: "gd_vars \<times> int"
  assume a: "0 \<le> j \<and> (case st of (w, k) \<Rightarrow>
    k = count_if (\<lambda>i. selected_cpus v i \<noteq> 1) j \<and> selected_cpus w = selected_cpus v \<and>
    new_cpu_state w = new_cpu_state v \<and> gd_demand w = gd_demand v \<and>
    (\<forall>st. cpumask (new_states w st) = cpumask (new_states v st) \<union>
            {i. 0 \<le> i \<and> i < j \<and> selected_cpus v i \<noteq> 1 \<and> new_cpu_state v i = st} \<and>
          cpus (new_states w st) = cpus (new_states v st) +
            count_if (\<lambda>i. selected_cpus v i \<noteq> 1 \<and> new_cpu_state v i = st) j))"
  obtain w k where st: "st = (w, k)" by (cases st)
  have set: "{i. 0 \<le> i \<and> i \<le> j \<and> P i} = {i. 0 \<le> i \<and> i < j \<and> P i} \<union> (if P j then {j} else {})"
    for P :: "int \<Rightarrow> bool"
    using a by (auto simp: order_le_less)
  show "0 \<le> j + 1 \<and> (case provide_step j st of (w, k) \<Rightarrow>
    k = count_if (\<lambda>i. selected_cpus v i \<noteq> 1) (j + 1) \<and> selected_cpus w = selected_cpus v \<and>
    new_cpu_state w = new_cpu_state v \<and> gd_demand w = gd_demand v \<and>
    (\<forall>st. cpumask (new_states w st) = cpumask (new_states v st) \<union>
            {i. 0 \<le> i \<and> i < j + 1 \<and> selected_cpus v i \<noteq> 1 \<and> new_cpu_state v i = st} \<and>
          cpus (new_states w st) = cpus (new_states v st) +
            count_if (\<lambda>i. selected_cpus v i \<noteq> 1 \<and> new_cpu_state v i = st) (j + 1)))"
    using a unfolding st
    by (cases "selected_cpus v j = 1") (auto simp: provide_step_def count_if_Suc Let_def set)
qed (use assms in auto)

definition provided_ok :: "int \<Rightarrow> int \<Rightarrow> gd_vars \<Rightarrow> bool" where
  "provided_ok T n v \<longleftrightarrow>
     (\<forall>st. 0 \<le> st \<and> st < T \<longrightarrow>
        cpumask (new_states v st) =
          {i. 0 \<le> i \<and> i < n \<and> selected_cpus v i \<noteq> 1 \<and> new_cpu_state v i = st} \<and>
        cpus (new_states v st) = count_if (\<lambda>i. selected_cpus v i \<noteq> 1 \<and> new_cpu_state v i = st) n)"

lemma provide_cpus_spec:
  fixes v :: gd_vars
  assumes "1 \<le> n" and "1 \<le> T"
  defines "w \<equiv> provide_cpus T n v"
  shows "provided_ok T n w \<and> gd_demand w = gd_demand v \<and>
    (if count_if (\<lambda>i. selected_cpus v i \<noteq> 1) n = 0
     then selected_cpus w = (selected_cpus v)(0 := 0) \<and> new_cpu_state w = (new_cpu_state v)(0 := 0)
     else selected_cpus w = selected_cpus v \<and> new_cpu_state w = new_cpu_state v)"
proof -
  let ?c = "count_if (\<lambda>i. selected_cpus v i \<noteq> 1) n"
  define v0 where "v0 = v\<lparr>new_states :=
      for_up 0 T (\<lambda>j a. a(j := (a j)\<lparr>cpus := 0, cpumask := {}\<rparr>)) (new_states v)\<rparr>"
  have v0: "selected_cpus v0 = selected_cpus v" "new_cpu_state v0 = new_cpu_state v"
    "gd_demand v0 = gd_demand v"
    "\<And>st. 0 \<le> st \<Longrightarrow> st < T \<Longrightarrow> cpumask (new_states v0 st) = {} \<and> cpus (new_states v0 st) = 0"
    by (simp_all add: v0_def for_up_map [of 0 T "\<lambda>j d. d\<lparr>cpus := 0, cpumask := {}\<rparr>"])
  obtain u k where loop: "for_up 0 n provide_step (v0, 0) = (u, k)" by fastforce
  have u: "k = ?c" "selected_cpus u = selected_cpus v" "new_cpu_state u = new_cpu_state v"
    "gd_demand u = gd_demand v"
    and mask: "\<And>st. 0 \<le> st \<Longrightarrow> st < T \<Longrightarrow>
      cpumask (new_states u st) =
        {i. 0 \<le> i \<and> i < n \<and> selected_cpus v i \<noteq> 1 \<and> new_cpu_state v i = st} \<and>
      cpus (new_states u st) = count_if (\<lambda>i. selected_cpus v i \<noteq> 1 \<and> new_cpu_state v i = st) n"
    using provide_loop [of n v0] assms(1) loop v0 by auto
  show ?thesis
  proof (cases "?c = 0")
    case False
    then have "w = u"
      using loop u(1) by (simp add: w_def provide_cpus_def v0_def [symmetric] Let_def)
    with False u mask show ?thesis by (simp add: provided_ok_def)
  next
    case True
    have w: "w = u\<lparr>new_states := (new_states u)
          (0 := (new_states u 0)\<lparr>cpus := cpus (new_states u 0) + 1,
                                 cpumask := insert 0 (cpumask (new_states u 0))\<rparr>),
        new_cpu_state := (new_cpu_state u)(0 := 0), selected_cpus := (selected_cpus u)(0 := 0)\<rparr>"
      using loop u(1) True by (simp add: w_def provide_cpus_def v0_def [symmetric] Let_def)
    have all: "selected_cpus v i = 1" if "0 \<le> i" "i < n" for i
    proof -
      have "count_if (\<lambda>i. \<not> selected_cpus v i \<noteq> 1) n = n - ?c"
      proof -
        have "count_if (\<lambda>i. \<not> selected_cpus v i \<noteq> 1) n + ?c = (\<Sum>i\<in>{0..<n}. 1)"
          unfolding count_if_def sum.distrib [symmetric] by (rule sum.cong) auto
        then show ?thesis using assms(1) by simp
      qed
      then have "count_if (\<lambda>i. selected_cpus v i = 1) n = n" using True by simp
      then show ?thesis using count_if_all [of n "\<lambda>i. selected_cpus v i = 1"] that assms(1) by auto
    qed
    have "cpumask (new_states u st) = {} \<and> cpus (new_states u st) = 0" if "0 \<le> st" "st < T" for st
    proof -
      have "count_if (\<lambda>i. selected_cpus v i \<noteq> 1 \<and> new_cpu_state v i = st) n = count_if (\<lambda>_. False) n"
        by (rule count_if_cong) (use all in auto)
      then show ?thesis using mask [OF that] all by (auto simp: count_if_def)
    qed
    moreover have "count_if (\<lambda>i. selected_cpus w i \<noteq> 1 \<and> new_cpu_state w i = st) n =
        (if st = 0 then 1 else 0)" for st
    proof -
      have "count_if (\<lambda>i. selected_cpus w i \<noteq> 1 \<and> new_cpu_state w i = st) n =
          count_if (\<lambda>i. i = 0 \<and> st = 0) n"
        by (rule count_if_cong) (use all u in \<open>auto simp: w\<close>)
      also have "\<dots> = (if st = 0 then 1 else 0)"
        using assms(1) by (auto simp: count_if_def)
      finally show ?thesis .
    qed
    moreover have "{i. 0 \<le> i \<and> i < n \<and> selected_cpus w i \<noteq> 1 \<and> new_cpu_state w i = st} =
        (if st = 0 then {0} else {})" for st
      using all u assms(1) by (auto simp: w)
    ultimately have "provided_ok T n w"
      using assms(2) unfolding provided_ok_def by (auto simp: w)
    with True u show ?thesis by (simp add: w)
  qed
qed

subsection \<open>Committing and applying\<close>

lemma commit_states_at:
  "commit_states ns s = s\<lparr>states_seq_lock := states_seq_lock s + 2,
     states := (\<lambda>k. if 0 \<le> k \<and> k < total_states s
       then (states s k)\<lparr>cpumask := cpumask (ns k), cpus := cpus (ns k), demand := 0\<rparr>
       else states s k)\<rparr>"
proof -
  have step: "demand_clear j (upd_state j (\<lambda>d. d\<lparr>cpumask := cpumask (ns j), cpus := cpus (ns j)\<rparr>) t) =
      t\<lparr>states := (states t)(j := (states t j)\<lparr>cpumask := cpumask (ns j), cpus := cpus (ns j), demand := 0\<rparr>)\<rparr>"
    for j and t :: "'a state_st_scheme"
    by (simp add: demand_clear_def upd_state_def)
  have "for_up i n (\<lambda>j s. demand_clear j
       (upd_state j (\<lambda>d. d\<lparr>cpumask := cpumask (ns j), cpus := cpus (ns j)\<rparr>) s)) t =
     t\<lparr>states := for_up i n (\<lambda>j a. a(j := (a j)\<lparr>cpumask := cpumask (ns j), cpus := cpus (ns j),
        demand := 0\<rparr>)) (states t)\<rparr>" for i n and t :: "'a state_st_scheme"
  proof (induction "nat (n - i)" arbitrary: i t)
    case 0
    then show ?case by simp
  next
    case (Suc k)
    then have "i < n" and "k = nat (n - (i + 1))" by auto
    from Suc.hyps(1) [OF this(2)] this(1) show ?case by (simp add: for_up_step step)
  qed
  then show ?thesis
    by (simp add: commit_states_def write_seqlock_def write_sequnlock_def Let_def
        for_up_map [of 0 "total_states s" "\<lambda>j d. d\<lparr>cpumask := cpumask (ns j), cpus := cpus (ns j), demand := 0\<rparr>"])
qed

definition apply_inv :: "'a gd_st_scheme \<Rightarrow> int \<Rightarrow> 'a gd_st_scheme \<Rightarrow> bool" where
  "apply_inv s j t \<longleftrightarrow>
     cur_ok t \<and> total_online_cpus t = total_online_cpus s \<and> total_states t = total_states s \<and>
     gd t = gd s \<and> interval_count t = interval_count s \<and>
     (\<forall>i. j \<le> i \<longrightarrow> info t i = info s i) \<and>
     (\<forall>i. 0 \<le> i \<and> i < j \<longrightarrow>
        awake (info t i) = (if selected_cpus (gd s) i = 0 then 1 else 0) \<and>
        (selected_cpus (gd s) i = 0 \<longrightarrow> sleep_time (info t i) = 0))"

lemma apply_inv_upd:
  "apply_inv s j t \<Longrightarrow> freq_frame t u \<Longrightarrow> cur_ok u \<Longrightarrow> apply_inv s j u"
  by (erule freq_frameE [of t u]) (simp add: apply_inv_def)

lemma apply_cpu_inv:
  assumes inv: "apply_inv s j t" and j: "0 \<le> j" "j < total_online_cpus s"
    and n: "total_online_cpus s < 2 ^ 31" "1 \<le> total_states s" "total_states s < 2 ^ 31"
    and procs: "procs_ok (total_online_cpus s) (info s)"
    and new: "selected_cpus (gd s) j = 0 \<Longrightarrow>
      0 \<le> new_cpu_state (gd s) j \<and> new_cpu_state (gd s) j < total_states s"
  shows "apply_inv s (j + 1) (apply_cpu env j t)"
proof -
  have upto: "i \<le> j \<longleftrightarrow> i < j \<or> i = j" for i by auto
  have gd: "gd t = gd s" and T: "total_states t = total_states s" and here: "info t j = info s j"
    using inv by (auto simp: apply_inv_def)
  have ok: "proc_ok (info s j)" using procs j by (simp add: procs_ok_def)
  consider (sel) "selected_cpus (gd s) j = 0" | (still) "selected_cpus (gd s) j \<noteq> 0" "awake (info s j) = 0"
    | (down) "selected_cpus (gd s) j \<noteq> 0" "awake (info s j) \<noteq> 0" by blast
  then show ?thesis
  proof cases
    case sel
    let ?u = "upd_info j (\<lambda>p. p\<lparr>awake := 1\<rparr>) (upd_info j (\<lambda>p. p\<lparr>sleep_time := 0\<rparr>) t)"
    have u: "apply_inv s (j + 1) ?u"
      using inv sel unfolding apply_inv_def cur_ok_def upd_info_def by (auto simp: upto)
    show ?thesis
    proof (cases "new_cpu_state (gd s) j = cur_cpu_state ?u j")
      case True
      then have "apply_cpu env j t = ?u"
        using sel by (simp add: apply_cpu_def gd upd_info_def Let_def)
      then show ?thesis using u by simp
    next
      case False
      then have run: "apply_cpu env j t = snd (sched_set_freq env j (new_cpu_state (gd s) j) ?u)"
        using sel by (simp add: apply_cpu_def gd upd_info_def Let_def)
      have "cur_ok (snd (sched_set_freq env j (new_cpu_state (gd s) j) ?u))"
        by (rule sched_set_freq_cur_ok)
          (use u new [OF sel] j n in \<open>auto simp: apply_inv_def\<close>)
      then show ?thesis
        unfolding run by (rule apply_inv_upd [OF u sched_set_freq_frame])
    qed
  next
    case still
    then have "apply_cpu env j t = upd_info j (\<lambda>p. p\<lparr>sleep_time := sleep_time p + 1\<rparr>) t"
      by (simp add: apply_cpu_def gd here)
    then show ?thesis
      using inv still here unfolding apply_inv_def cur_ok_def upd_info_def by (auto simp: upto)
  next
    case down
    define u where "u = (if cur_cpu_state t j \<noteq> 0 then snd (sched_set_freq env j 0 t) else t)"
    have run: "apply_cpu env j t = upd_info j (\<lambda>p. p\<lparr>awake := 0, sleep_time := 1\<rparr>) u"
      using down by (simp add: apply_cpu_def gd here u_def Let_def)
    have "cur_ok (snd (sched_set_freq env j 0 t))"
      by (rule sched_set_freq_cur_ok) (use inv j n in \<open>auto simp: apply_inv_def\<close>)
    then have "apply_inv s j (snd (sched_set_freq env j 0 t))"
      by (rule apply_inv_upd [OF inv sched_set_freq_frame])
    then have "apply_inv s j u" using inv by (simp add: u_def)
    then show ?thesis
      using down unfolding run apply_inv_def cur_ok_def upd_info_def by (auto simp: upto)
  qed
qed

lemma apply_loop:
  assumes cur: "cur_ok s" and n: "0 \<le> total_online_cpus s" "total_online_cpus s < 2 ^ 31"
    "1 \<le> total_states s" "total_states s < 2 ^ 31"
    and procs: "procs_ok (total_online_cpus s) (info s)"
    and new: "\<And>j. 0 \<le> j \<Longrightarrow> j < total_online_cpus s \<Longrightarrow> selected_cpus (gd s) j = 0 \<Longrightarrow>
      0 \<le> new_cpu_state (gd s) j \<and> new_cpu_state (gd s) j < total_states s"
  shows "apply_inv s (total_online_cpus s) (for_up 0 (total_online_cpus s) (apply_cpu env) s)"
proof (rule for_up_inv [where P = "\<lambda>j t. 0 \<le> j \<and> apply_inv s j t", THEN conjunct2])
  show "0 \<le> (0::int) \<and> apply_inv s 0 s" using cur by (auto simp: apply_inv_def)
  fix j t assume "0 \<le> j" "j < total_online_cpus s" "0 \<le> j \<and> apply_inv s j t"
  then show "0 \<le> j + 1 \<and> apply_inv s (j + 1) (apply_cpu env j t)"
    using apply_cpu_inv [of s j t env] n procs new [of j] by simp
qed (use n in simp)

lemma log_entry_apply_inv: "apply_inv s j (log_entry env e t) = apply_inv s j t"
  by (rule log_entry_frame [of env e t]) (simp add: apply_inv_def cur_ok_def)

text \<open>
  The result of a pass: what the CPUs moved, which are awake, and that every CPU is in a
  state that exists.
\<close>

lemma greedy_delta_spec:
  fixes env :: kenv and d :: int
  assumes cur: "cur_ok s" and procs: "procs_ok (total_online_cpus s) (info s)"
    and n: "1 \<le> total_online_cpus s" "total_online_cpus s < 2 ^ 31"
    and T: "1 \<le> total_states s" "total_states s < 2 ^ 31"
  defines "t \<equiv> greedy_delta env d s"
  shows "cur_ok t \<and> total_online_cpus t = total_online_cpus s \<and> total_states t = total_states s \<and>
    interval_count t = interval_count s + 1 \<and>
    provided_ok (total_states s) (total_online_cpus s) (gd t) \<and>
    (\<forall>i. 0 \<le> i \<and> i < total_online_cpus s \<longrightarrow>
       awake (info t i) = (if selected_cpus (gd t) i = 0 then 1 else 0)) \<and>
    count_if (\<lambda>i. selected_cpus (gd t) i = 0) (total_online_cpus s) = max 1 (get_tasks_load env s) \<and>
    (0 < get_tasks_load env s \<longrightarrow>
       (\<Sum>i\<in>{0..<total_online_cpus s}. \<bar>cur_cpu_state s i - new_cpu_state (gd t) i\<bar>) \<le> max d 0)"
proof -
  let ?n = "total_online_cpus s" and ?T = "total_states s" and ?load = "get_tasks_load env s"
  obtain v sel u where ch: "greedy_choose env d s = (v, sel, u)"
    by (cases "greedy_choose env d s")
  obtain e f where inv: "auction_inv ?T ?n (cur_cpu_state s) d v e sel" and sel: "sel = ?load"
    and u: "u = s\<lparr>interval_count := interval_count s + 1, info := f\<rparr>" and f: "procs_ok ?n f"
    using greedy_choose_spec [OF cur procs _ n(2) ch] n(1) by auto
  have load: "0 \<le> ?load" using get_tasks_load_bounds [of s env] n by simp
  define w where "w = provide_cpus ?T ?n v"
  have w: "provided_ok ?T ?n w" and wc: "if count_if (\<lambda>i. selected_cpus v i \<noteq> 1) ?n = 0
      then selected_cpus w = (selected_cpus v)(0 := 0) \<and> new_cpu_state w = (new_cpu_state v)(0 := 0)
      else selected_cpus w = selected_cpus v \<and> new_cpu_state w = new_cpu_state v"
    using provide_cpus_spec [OF n(1) T(1), of v] by (auto simp: w_def)
  have "count_if (\<lambda>i. selected_cpus v i \<noteq> 1) ?n = count_if (\<lambda>i. selected_cpus v i = 0) ?n"
    by (rule count_if_cong) (use inv in \<open>auto simp: auction_inv_def\<close>)
  then have c: "count_if (\<lambda>i. selected_cpus v i \<noteq> 1) ?n = ?load"
    using inv sel by (simp add: auction_inv_def)
  have cnt: "count_if (\<lambda>i. selected_cpus w i = 0) ?n = max 1 ?load"
  proof (cases "?load = 0")
    case True
    then have "selected_cpus w = (selected_cpus v)(0 := 0)" using wc c by simp
    moreover have "selected_cpus v 0 \<noteq> 0"
    proof
      assume "selected_cpus v 0 = 0"
      then have "0 < count_if (\<lambda>i. selected_cpus v i = 0) ?n"
        using n by (intro count_if_pos [of 0]) auto
      then show False using True inv sel by (simp add: auction_inv_def)
    qed
    ultimately show ?thesis
      using True inv sel n
      by (subst count_if_upd [where k = 0 and p = "\<lambda>i. selected_cpus v i = 0"])
        (auto simp: auction_inv_def)
  next
    case False
    then have "max 1 ?load = ?load" using load by simp
    with False show ?thesis using wc c inv sel by (auto simp: auction_inv_def)
  qed
  define x where "x = commit_states (new_states w) (u\<lparr>gd := w\<rparr>)"
  have x: "x = s\<lparr>interval_count := interval_count s + 1, info := f, gd := w,
      states_seq_lock := states_seq_lock x, states := states x\<rparr>"
    by (simp add: x_def u commit_states_at)
  have frame: "cur_cpu_state x = cur_cpu_state s" "total_online_cpus x = ?n" "total_states x = ?T"
    "gd x = w" "info x = f" "interval_count x = interval_count s + 1"
    by (subst x, simp)+
  have uT: "total_states u = ?T" "total_online_cpus u = ?n" by (simp_all add: u)
  define y where "y = for_up 0 ?n (apply_cpu env) x"
  have t: "t = log_entry env (mutator_entry (gd_demand (gd y)) y) y"
    unfolding t_def greedy_delta_def ch prod.case Let_def uT w_def [symmetric] x_def [symmetric]
      frame(2) y_def [symmetric] by (rule refl)
  have new: "0 \<le> new_cpu_state w j \<and> new_cpu_state w j < ?T" if "0 \<le> j" "j < ?n" for j
    using inv wc that T(1) by (auto simp: auction_inv_def split: if_splits)
  have "apply_inv x (total_online_cpus x) (for_up 0 (total_online_cpus x) (apply_cpu env) x)"
    by (rule apply_loop) (use cur n T f new in \<open>auto simp: frame cur_ok_def\<close>)
  then have "apply_inv x ?n t" unfolding t log_entry_apply_inv by (simp add: y_def frame)
  then have t': "cur_ok t" "total_online_cpus t = ?n" "total_states t = ?T" "gd t = w"
    "interval_count t = interval_count s + 1"
    "\<forall>i. 0 \<le> i \<and> i < ?n \<longrightarrow> awake (info t i) = (if selected_cpus w i = 0 then 1 else 0)"
    by (simp_all add: apply_inv_def frame)
  have "moved ?n (cur_cpu_state s) w \<le> max d 0" if "0 < ?load"
    using inv wc c that by (auto simp: auction_inv_def moved_def)
  with t' w cnt show ?thesis by (simp add: moved_def)
qed

subsection \<open>Properties\<close>

definition ex_gd :: gd_st where
  "ex_gd = simple_st.extend ex_simple (gd_st.fields
     \<lparr>new_states = (\<lambda>i. ex_desc i {}), demand_field = (\<lambda>_. 0), new_cpu_state = (\<lambda>_. 1),
       state_matrix = (\<lambda>_ _. 0), state_weight = (\<lambda>_. 0), winning_procs = (\<lambda>_. 0),
       gd_demand = (\<lambda>_. 0), selected_cpus = (\<lambda>_. 0), proxy_source = (\<lambda>_. 0)\<rparr>)"

lemmas ex_gd_simps = ex_gd_def ex_simple_simps gd_st.defs

lemma ex_gd_ok: "cur_ok ex_gd" "procs_ok (total_online_cpus ex_gd) (info ex_gd)"
  "governor_serves ex_env ex_gd"
proof -
  have "states_ok ex_gd = states_ok ex_state" "governor_serves ex_env ex_gd = governor_serves ex_env ex_state"
    by (simp_all add: states_ok_def placed_def governor_serves_def ex_gd_simps)
  then have "states_ok ex_gd" "governor_serves ex_env ex_gd"
    using ex_state_ok ex_state_serves by auto
  then show "cur_ok ex_gd" "governor_serves ex_env ex_gd"
    by (auto simp: states_ok_def placed_def cur_ok_def)
  have "total_online_cpus ex_gd = 2" "info ex_gd = info ex_mut" by (simp_all add: ex_gd_simps)
  then show "procs_ok (total_online_cpus ex_gd) (info ex_gd)" using ex_mut_procs by simp
qed

lemma ex_gd_bounds: "1 \<le> total_online_cpus ex_gd" "total_online_cpus ex_gd < 2 ^ 31"
  "1 \<le> total_states ex_gd" "total_states ex_gd < 2 ^ 31" "get_tasks_load ex_env ex_gd = 2"
  by (simp_all add: ex_gd_simps get_tasks_load_def exec ex_env_def Let_def)

text \<open>
  C3: a pass of the greedy mutator leaves exactly as many processors awake as there are
  runnable tasks, capped by the number of processors and at least one; awake are exactly
  those it selected, and every processor is in a state that exists.
\<close>

theorem greedy_delta_serves_load:
  assumes "cur_ok s" and "procs_ok (total_online_cpus s) (info s)"
    and "1 \<le> total_online_cpus s" and "total_online_cpus s < 2 ^ 31"
    and "1 \<le> total_states s" and "total_states s < 2 ^ 31"
  shows "let t = greedy_delta env d s in
    cur_ok t \<and> count_if (\<lambda>i. awake (info t i) = 1) (total_online_cpus s) = max 1 (get_tasks_load env s) \<and>
    (\<forall>i. 0 \<le> i \<and> i < total_online_cpus s \<longrightarrow>
       awake (info t i) = (if selected_cpus (gd t) i = 0 then 1 else 0))"
proof -
  let ?t = "greedy_delta env d s"
  note spec = greedy_delta_spec [OF assms, of env d]
  have "count_if (\<lambda>i. awake (info ?t i) = 1) (total_online_cpus s) =
      count_if (\<lambda>i. selected_cpus (gd ?t) i = 0) (total_online_cpus s)"
    by (rule count_if_cong) (use spec in auto)
  then show ?thesis using spec by (simp add: Let_def)
qed

lemma greedy_delta_serves_load_witness:
  "count_if (\<lambda>i. awake (info (greedy_delta ex_env 1 ex_gd) i) = 1) 2 = 2"
proof -
  have n: "total_online_cpus ex_gd = 2" by (simp add: ex_gd_simps)
  show ?thesis
    using greedy_delta_serves_load [OF ex_gd_ok(1,2) ex_gd_bounds(1-4), of ex_env 1]
    unfolding n Let_def ex_gd_bounds(5) by simp
qed

text \<open>
  C13: with tasks to run, the states the greedy mutator chooses for the processors differ
  from their current states by at most \<open>delta\<close> in total, by nothing when \<open>delta\<close> is negative.
\<close>

theorem greedy_delta_budget:
  assumes "cur_ok s" and "procs_ok (total_online_cpus s) (info s)"
    and "1 \<le> total_online_cpus s" and "total_online_cpus s < 2 ^ 31"
    and "1 \<le> total_states s" and "total_states s < 2 ^ 31" and "0 < get_tasks_load env s"
  shows "(\<Sum>i\<in>{0..<total_online_cpus s}.
      \<bar>cur_cpu_state s i - new_cpu_state (gd (greedy_delta env d s)) i\<bar>) \<le> max d 0"
  using greedy_delta_spec [OF assms(1-6), of env d] assms(7) by blast

lemma greedy_delta_budget_witness:
  "(\<Sum>i\<in>{0..<2}. \<bar>cur_cpu_state ex_gd i - new_cpu_state (gd (greedy_delta ex_env 1 ex_gd)) i\<bar>) \<le> 1"
proof -
  have n: "total_online_cpus ex_gd = 2" by (simp add: ex_gd_simps)
  show ?thesis
    using greedy_delta_budget [OF ex_gd_ok(1,2) ex_gd_bounds(1-4), of ex_env 1]
    unfolding n ex_gd_bounds(5) by simp
qed

text \<open>
  the row of a CPU in the state matrix holds its maximum, twice the number of states,
  at the state the CPU is in, falls by one per state of distance, and is positive exactly
  at the states within \<open>delta\<close>: nothing else can be won for it.
\<close>

theorem state_matrix_rewards_nearness:
  assumes "0 \<le> i" and "i < n" and "0 \<le> new_cpu_state v i" and "new_cpu_state v i < T"
    and "0 \<le> d" and "dir = - 1 \<or> dir = 0 \<or> dir = 1" and "0 \<le> j" and "j < T"
  shows "let L = new_cpu_state v i; m = state_matrix (update_state_matrix T n d dir v) i j in
    (0 < m \<longleftrightarrow> \<bar>L - j\<bar> \<le> d) \<and> m \<le> 2 * T \<and> (j = L \<longrightarrow> m = 2 * T) \<and>
    (0 < m \<and> j \<noteq> L \<longrightarrow>
       m = (if j < L \<and> dir = - 1 \<or> L < j \<and> dir = 1 then 2 * T else T) - \<bar>L - j\<bar>)"
proof -
  have side: "row_left T dir = (if dir = - 1 then 2 * T else T)"
    "row_right T dir = (if dir = 1 then 2 * T else T)"
    using assms(6) by (auto simp: row_left_def row_right_def)
  have "state_matrix (update_state_matrix T n d dir v) i j =
    (if j = new_cpu_state v i then T * 2
     else if j < new_cpu_state v i
     then (if new_cpu_state v i - d \<le> j then row_left T dir + j - new_cpu_state v i else 0)
     else (if j \<le> new_cpu_state v i + d then row_right T dir + new_cpu_state v i - j else 0))"
    unfolding update_state_matrix_at [OF assms(1,2)] by (rule matrix_row_at) (use assms in auto)
  then show ?thesis
    using assms(3,4,5,7,8) unfolding side Let_def by auto
qed

lemma state_matrix_rewards_nearness_witness:
  "state_matrix (update_state_matrix 3 2 1 0 (gd ex_gd)) 0 2 = 2"
  using state_matrix_rewards_nearness [of 0 2 "gd ex_gd" 3 1 0 2]
  by (simp add: ex_gd_simps Let_def)

text \<open>
  the tables the greedy mutator commits are counted a second time while it applies
  them: a selected CPU that changes its state is already in the committed count of the
  new state, and the governor's callback adds it again.
\<close>

theorem greedy_apply_counts_twice:
  assumes "provided_ok (total_states s) (total_online_cpus s) (gd s)"
    and "0 \<le> i" and "i < total_online_cpus s" and "i < 2 ^ 31"
    and "selected_cpus (gd s) i = 0" and "0 \<le> new_cpu_state (gd s) i"
    and "new_cpu_state (gd s) i < total_states s" and "new_cpu_state (gd s) i < 2 ^ 31"
    and "new_cpu_state (gd s) i \<noteq> cur_cpu_state s i"
    and "governor_serves env s" and "user_head s = [seeker_scheduler_user]"
  shows "let st = new_cpu_state (gd s) i in
    cpus (states (apply_cpu env i (commit_states (new_states (gd s)) s)) st) =
    count_if (\<lambda>c. selected_cpus (gd s) c \<noteq> 1 \<and> new_cpu_state (gd s) c = st) (total_online_cpus s) + 1"
proof -
  let ?st = "new_cpu_state (gd s) i" and ?c = "commit_states (new_states (gd s)) s"
  define u where "u = upd_info i (\<lambda>p. p\<lparr>awake := 1\<rparr>) (upd_info i (\<lambda>p. p\<lparr>sleep_time := 0\<rparr>) ?c)"
  have u: "cur_cpu_state u = cur_cpu_state s" "freq_info u = freq_info s" "user_head u = user_head s"
    "user_store u = user_store s" "policies u = policies s"
    "cpus (states u ?st) = cpus (new_states (gd s) ?st)"
    using assms(6,7) by (simp_all add: u_def upd_info_def commit_states_at)
  have run: "apply_cpu env i ?c = snd (sched_set_freq env i ?st u)"
    using assms(5,9) by (simp add: apply_cpu_def u_def upd_info_def commit_states_at Let_def)
  have idx: "sint (of_int i :: u32) = i" "sint (of_int ?st :: u32) = ?st"
    "uint (of_int i :: u32) = i" "uint (of_int ?st :: u32) = ?st"
    using assms(2,4,6,8) by (simp_all add: sint_sbintrunc' signed_take_bit_int_eq_self
        uint_word_of_int_eq take_bit_int_eq_self)
  have srv: "i < NR_CPUS env" "policy (freq_info s i) \<noteq> None"
    "total_states s \<le> uint (num_states (freq_info s i))"
    "inform (user_store s seeker_scheduler_user) = Some inform_callback"
    "\<And>c f l a. cpufreq_target env c f l a = 0"
    using assms(2,3,10) by (auto simp: governor_serves_def)
  obtain p where p: "policy (freq_info s i) = Some p" using srv(2) by auto
  have lt: "of_int ?st < num_states (freq_info s i)"
    using assms(7) srv(3) idx(4) by (simp add: word_less_def)
  define x where "x = u\<lparr>policies := (policies u)(p := (policies u p)
      \<lparr>policy_cur := table (freq_info u i) ?st\<rparr>)\<rparr>"
  have "sched_set_freq env i ?st u = (0, snd (seeker_cpufreq_inform env i ?st x))"
    using srv p lt idx assms(11) u(2,3,4)
    by (simp add: sched_set_freq_def set_freq_def internal_set_freq_def driver_target_def x_def
        inform_freq_change_def sched_call_def seeker_cpufreq_inform_def Let_def
        not_le [THEN iffD2, OF lt])
  then have "states (apply_cpu env i ?c) = states (snd (seeker_cpufreq_inform env i ?st x))"
    using run by simp
  moreover have "cpus (states (snd (seeker_cpufreq_inform env i ?st x)) ?st) = cpus (states x ?st) + 1"
  proof -
    have "states (log_cpu_state env i y) = states y" for y :: "'a gd_st_scheme"
      by (rule log_cpu_state_frame [of env i y]) simp
    moreover have "cur_cpu_state x i \<noteq> ?st" using assms(9) u(1) by (simp add: x_def)
    ultimately show ?thesis
      by (simp add: seeker_cpufreq_inform_def write_seqlock_def write_sequnlock_def upd_state_def Let_def)
  qed
  moreover have "cpus (states x ?st) = cpus (new_states (gd s) ?st)" using u(6) by (simp add: x_def)
  ultimately show ?thesis
    using assms(1,6,7) by (simp add: provided_ok_def Let_def)
qed

lemma greedy_apply_counts_twice_witness:
  "cpus (states (apply_cpu ex_env 0 (commit_states (new_states (provide_cpus 3 2 (gd ex_gd)))
     (ex_gd\<lparr>gd := provide_cpus 3 2 (gd ex_gd)\<rparr>))) 1) = 3"
proof -
  let ?w = "provide_cpus 3 2 (gd ex_gd)" and ?s = "ex_gd\<lparr>gd := provide_cpus 3 2 (gd ex_gd)\<rparr>"
  have c: "count_if (\<lambda>i. selected_cpus (gd ex_gd) i \<noteq> 1) 2 = 2"
    by (simp add: count_if_2 ex_gd_simps)
  have w: "provided_ok 3 2 ?w" "selected_cpus ?w = (\<lambda>_. 0)" "new_cpu_state ?w = (\<lambda>_. 1)"
    using provide_cpus_spec [of 2 3 "gd ex_gd"] c by (auto simp: ex_gd_simps)
  have n: "total_online_cpus ?s = 2" "total_states ?s = 3" "gd ?s = ?w" "cur_cpu_state ?s 0 = 0"
    "user_head ?s = [seeker_scheduler_user]"
    by (simp_all add: ex_gd_simps)
  have srv: "governor_serves ex_env ?s" using ex_gd_ok(3) by (simp add: governor_serves_def)
  show ?thesis
    using greedy_apply_counts_twice [of ?s 0 ex_env] w n srv by (simp add: Let_def count_if_2)
qed

end
