(* ===== verification/Mutate_Dyn.thy ===== *)
theory Mutate_Dyn
  imports Mutate_Greedy
begin

text \<open>
  The dynamic programming mutator (\<open>Module/seeker-scheduler/mutate_dyn.c\<close>): it puts to sleep
  what is not needed and gives the rest the states that satisfy the most demand while the
  CPUs together move by at most \<open>delta\<close> states, a multiple-choice knapsack problem. The
  file's static arrays are the record \<open>dyn_vars\<close>.
\<close>

subsection \<open>State\<close>

record struct_f =
  dyna_f :: int
  dyna_sol :: int

record dyn_vars =
  dyn_new_states :: "state_desc arr"
  cpu_awake_proxy :: "int arr"
  put_to_sleep :: "int arr"
  dyn_new_cpu_state :: "int arr"
  dyn_demand :: "int arr"
  dyna :: "struct_f arr arr"
  wt :: "int arr arr"

record dyn_st = gd_st +
  dyn :: dyn_vars

subsection \<open>Moving demand that cannot be met\<close>

text \<open>\<open>can_win\<close>: the states some of the first \<open>n\<close> awake CPUs reach within \<open>delta\<close>.\<close>

definition can_win_step ::
    "int \<Rightarrow> int \<Rightarrow> int arr \<Rightarrow> int arr \<Rightarrow> int \<Rightarrow> int arr \<Rightarrow> int arr" where
  "can_win_step n d cur proxy j can_win =
     (let can_win = can_win(j := 0)
      in for_break 0 n
           (\<lambda>i c. if ABS (cur (proxy i) - j) \<le> d then (True, c(j := 1)) else (False, c)) can_win)"

definition transfer_step :: "int \<Rightarrow> int arr \<Rightarrow> int \<Rightarrow> int arr \<Rightarrow> int arr" where
  "transfer_step T can_win j dem =
     (if can_win j = 1 \<or> dem j = 0 then dem
      else
        let right = first_up (\<lambda>i. can_win i = 1) j T;
            left = first_down (\<lambda>i. can_win i = 1) j;
            frnd =
              (if left = - 1 then right
               else if right = - 1 then left
               else if ABS (left - j) = ABS (right - j)
               then (if dem left > dem right then left else right)
               else (if ABS (left - j) < ABS (right - j) then left else right))
        in dem(frnd := dem frnd + dem j))"

definition delta_based_demand_transform ::
    "int \<Rightarrow> int \<Rightarrow> int \<Rightarrow> int arr \<Rightarrow> int arr \<Rightarrow> int arr \<Rightarrow> int arr" where
  "delta_based_demand_transform T n d cur proxy dem =
     (let can_win = for_up 0 T (can_win_step n d cur proxy) (\<lambda>_. 0)
      in for_up 0 T (transfer_step T can_win) dem)"

subsection \<open>The knapsack\<close>

definition mck_weights ::
    "int \<Rightarrow> int \<Rightarrow> int arr \<Rightarrow> int arr \<Rightarrow> int arr arr \<Rightarrow> int arr arr" where
  "mck_weights n m cur proxy w =
     for_up 0 n (\<lambda>i a. a(i := for_up 0 m (\<lambda>j r. r(j := ABS (j - cur (proxy i)))) (a i))) w"

definition mck_clear :: "int \<Rightarrow> int \<Rightarrow> struct_f arr arr \<Rightarrow> struct_f arr arr" where
  "mck_clear n w t =
     for_up 0 (n + 1)
       (\<lambda>i a. a(i := for_up 0 (w + 1) (\<lambda>j r. r(j := (r j)\<lparr>dyna_f := 0, dyna_sol := - 1\<rparr>)) (a i))) t"

text \<open>
  The inner loops look for the first best element: they carry \<open>(max, ind)\<close>, \<open>ok j\<close> is their
  test without the comparison and \<open>val j\<close> the value of element \<open>j\<close>.
\<close>

definition best_step ::
    "(int \<Rightarrow> bool) \<Rightarrow> (int \<Rightarrow> int) \<Rightarrow> int \<Rightarrow> int \<times> int \<Rightarrow> int \<times> int" where
  "best_step ok val j acc =
     (case acc of (mx, ind) \<Rightarrow> if ok j \<and> mx < val j then (val j, j) else acc)"

definition set_f :: "int \<Rightarrow> int \<Rightarrow> struct_f arr \<Rightarrow> struct_f arr" where
  "set_f b x r = r(b := (r b)\<lparr>dyna_f := x\<rparr>)"

definition set_sol :: "int \<Rightarrow> int \<Rightarrow> struct_f arr \<Rightarrow> struct_f arr" where
  "set_sol b x r = r(b := (r b)\<lparr>dyna_sol := x\<rparr>)"

definition mck_first_cell ::
    "int \<Rightarrow> int arr arr \<Rightarrow> int arr \<Rightarrow> int \<Rightarrow> struct_f arr \<Rightarrow> struct_f arr" where
  "mck_first_cell m w dem b row =
     (case for_up 0 m (best_step (\<lambda>j. w 0 j \<le> b) dem) (- 1, - 1) of (mx, ind) \<Rightarrow>
        let row = (if 0 < b \<and> mx < dyna_f (row (b - 1)) then set_f b (dyna_f (row (b - 1))) row
                   else set_f b mx row)
        in if 0 < mx then set_sol b ind row else row)"

text \<open>\<open>demand1\<close>: what the CPUs before \<open>k\<close> can satisfy when CPU \<open>k\<close> takes element \<open>j\<close>.\<close>

definition demand1 :: "int arr arr \<Rightarrow> int \<Rightarrow> struct_f arr \<Rightarrow> int \<Rightarrow> int \<Rightarrow> int" where
  "demand1 w k prev b j =
     (if 0 \<le> b - w (k - 1) j then dyna_f (prev (b - w (k - 1) j)) else 0)"

definition mck_cell ::
    "int \<Rightarrow> int arr arr \<Rightarrow> int arr \<Rightarrow> int \<Rightarrow> struct_f arr \<Rightarrow> int \<Rightarrow> struct_f arr \<Rightarrow> struct_f arr" where
  "mck_cell m w dem k prev b row =
     (case for_up 0 m
             (best_step (\<lambda>j. w (k - 1) j \<le> b \<and> 0 < demand1 w k prev b j)
                (\<lambda>j. demand1 w k prev b j + dem j)) (- 1, - 1) of (mx, ind) \<Rightarrow>
        if 0 < b \<and> mx < dyna_f (row (b - 1)) then set_f b (dyna_f (row (b - 1))) row
        else if 0 < mx then set_sol b ind (set_f b mx row)
        else row)"

text \<open>
  The rows have \<open>MAX_DELTA + 1\<close> elements in C; \<open>delta\<close>, a module parameter nothing checks, is assumed to be
  at most \<open>MAX_DELTA\<close>.
\<close>

definition mck_table ::
    "int \<Rightarrow> int \<Rightarrow> int \<Rightarrow> int arr arr \<Rightarrow> int arr \<Rightarrow> struct_f arr arr \<Rightarrow> struct_f arr arr" where
  "mck_table n m b w dem t =
     (let t = mck_clear n b t;
          t = t(1 := for_up 0 (b + 1) (mck_first_cell m w dem) (t 1))
      in for_up 2 (n + 1)
           (\<lambda>k t. t(k := for_up 0 (b + 1) (mck_cell m w dem k (t (k - 1))) (t k))) t)"

text \<open>
  Backtracking, from CPU \<open>n - 1\<close> down to 0; the loop carries the budget left and the new
  states. The budget is -1 after a row without a solution.
\<close>

definition backtrack_step ::
    "int \<Rightarrow> int arr arr \<Rightarrow> int arr \<Rightarrow> struct_f arr arr \<Rightarrow> int \<Rightarrow> int \<times> int arr \<Rightarrow> int \<times> int arr" where
  "backtrack_step n w proxy t i acc =
     (case acc of (b, new) \<Rightarrow>
        let k = n - i;
            b = first_down (\<lambda>b. 0 \<le> dyna_sol (t k b)) b
        in if 0 \<le> b then
             (b - w (k - 1) (dyna_sol (t k b)), new(proxy (k - 1) := dyna_sol (t k b)))
           else (b, new))"

definition mck_backtrack ::
    "int \<Rightarrow> int \<Rightarrow> int arr arr \<Rightarrow> int arr \<Rightarrow> struct_f arr arr \<Rightarrow> int arr \<Rightarrow> int arr" where
  "mck_backtrack n b w proxy t new = snd (for_up 0 n (backtrack_step n w proxy t) (b, new))"

definition mck :: "int \<Rightarrow> int \<Rightarrow> int \<Rightarrow> int arr \<Rightarrow> dyn_vars \<Rightarrow> dyn_vars" where
  "mck n m w cur v =
     (let v = v\<lparr>wt := mck_weights n m cur (cpu_awake_proxy v) (wt v)\<rparr>;
          v = v\<lparr>dyna := mck_table n m w (wt v) (dyn_demand v) (dyna v)\<rparr>
      in v\<lparr>dyn_new_cpu_state :=
             mck_backtrack n w (wt v) (cpu_awake_proxy v) (dyna v) (dyn_new_cpu_state v)\<rparr>)"

subsection \<open>The mutator\<close>

definition place_step :: "proc_info arr \<Rightarrow> int \<Rightarrow> dyn_vars \<Rightarrow> dyn_vars" where
  "place_step f i v =
     (if awake (f i) = 0 then v
      else
        let st = dyn_new_cpu_state v i;
            v = v\<lparr>dyn_new_states := (dyn_new_states v)
                    (st := (dyn_new_states v st)\<lparr>cpus := cpus (dyn_new_states v st) + 1\<rparr>)\<rparr>
        in v\<lparr>dyn_new_states := (dyn_new_states v)
               (st := (dyn_new_states v st)
                        \<lparr>cpumask := insert i (cpumask (dyn_new_states v st))\<rparr>)\<rparr>)"

definition dyn_apply_cpu :: "kenv \<Rightarrow> int \<Rightarrow> 'a dyn_st_scheme \<Rightarrow> 'a dyn_st_scheme" where
  "dyn_apply_cpu env i s =
     (let s = (if put_to_sleep (dyn s) i = 1 then snd (sched_set_freq env i 0 s) else s)
      in if awake (info s i) = 0 then upd_info i (\<lambda>p. p\<lparr>sleep_time := sleep_time p + 1\<rparr>) s
         else if dyn_new_cpu_state (dyn s) i \<noteq> cur_cpu_state s i
         then snd (sched_set_freq env i (dyn_new_cpu_state (dyn s) i) s) else s)"

text \<open>\<open>mem_dynamic_prog\<close> up to the choice of the states, and all of it.\<close>

definition dyn_choose :: "kenv \<Rightarrow> int \<Rightarrow> 'a dyn_st_scheme \<Rightarrow> 'a dyn_st_scheme" where
  "dyn_choose env d s =
     (let s = s\<lparr>interval_count := interval_count s + 1\<rparr>;
          T = total_states s;
          v = (dyn s)\<lparr>dyn_new_states :=
                for_up 0 T (\<lambda>j a. a(j := (a j)\<lparr>cpus := 0, cpumask := {}\<rparr>)) (dyn_new_states (dyn s))\<rparr>;
          total_cpus_req = get_tasks_load env s;
          v = v\<lparr>dyn_demand := for_up 0 T (\<lambda>j a. a(j := demand_get j s + 1)) (dyn_demand v)\<rparr>;
          total_cpus_req = (if total_cpus_req = 0 then 1 else total_cpus_req);
          s = wake_up_procs total_cpus_req s
      in case retire_procs env total_cpus_req (put_to_sleep v) (cpu_awake_proxy v) s of
           (pts, proxy, s) \<Rightarrow>
             let v = v\<lparr>put_to_sleep := pts, cpu_awake_proxy := proxy\<rparr>;
                 v = v\<lparr>dyn_demand := delta_based_demand_transform T total_cpus_req d
                         (cur_cpu_state s) (cpu_awake_proxy v) (dyn_demand v)\<rparr>;
                 v = mck total_cpus_req T d (cur_cpu_state s) v
             in s\<lparr>dyn := v\<rparr>)"

definition mem_dynamic_prog :: "kenv \<Rightarrow> int \<Rightarrow> 'a dyn_st_scheme \<Rightarrow> 'a dyn_st_scheme" where
  "mem_dynamic_prog env d s =
     (let s = dyn_choose env d s;
          s = s\<lparr>dyn := for_up 0 (total_online_cpus s) (place_step (info s)) (dyn s)\<rparr>;
          s = commit_states (dyn_new_states (dyn s)) s;
          s = for_up 0 (total_online_cpus s) (dyn_apply_cpu env) s
      in log_entry env (mutator_entry (dyn_demand (dyn s)) s) s)"

subsection \<open>The table is filled correctly\<close>

lemma best_loop:
  assumes "0 \<le> m"
  shows "case for_up 0 m (best_step ok val) (- 1, - 1) of (mx, ind) \<Rightarrow>
    (\<forall>j. 0 \<le> j \<and> j < m \<and> ok j \<longrightarrow> val j \<le> mx) \<and>
    (mx = - 1 \<and> ind = - 1 \<or> 0 \<le> ind \<and> ind < m \<and> ok ind \<and> val ind = mx)"
proof (rule for_up_inv [where P = "\<lambda>m st. 0 \<le> m \<and> (case st of (mx, ind) \<Rightarrow>
    (\<forall>j. 0 \<le> j \<and> j < m \<and> ok j \<longrightarrow> val j \<le> mx) \<and>
    (mx = - 1 \<and> ind = - 1 \<or> 0 \<le> ind \<and> ind < m \<and> ok ind \<and> val ind = mx))", THEN conjunct2])
  fix j and st :: "int \<times> int"
  assume a: "0 \<le> j \<and> (case st of (mx, ind) \<Rightarrow>
    (\<forall>i. 0 \<le> i \<and> i < j \<and> ok i \<longrightarrow> val i \<le> mx) \<and>
    (mx = - 1 \<and> ind = - 1 \<or> 0 \<le> ind \<and> ind < j \<and> ok ind \<and> val ind = mx))"
  have upto: "i < j + 1 \<longleftrightarrow> i < j \<or> i = j" for i by auto
  obtain mx ind where st: "st = (mx, ind)" by (cases st)
  show "0 \<le> j + 1 \<and> (case best_step ok val j st of (mx, ind) \<Rightarrow>
    (\<forall>i. 0 \<le> i \<and> i < j + 1 \<and> ok i \<longrightarrow> val i \<le> mx) \<and>
    (mx = - 1 \<and> ind = - 1 \<or> 0 \<le> ind \<and> ind < j + 1 \<and> ok ind \<and> val ind = mx))"
    using a unfolding st upto by (cases "ok j \<and> mx < val j") (fastforce simp: best_step_def)+
qed (use assms in auto)

text \<open>
  A row is solved relative to what the CPUs before it achieve, \<open>pre\<close>: every cell has a
  solution that fits the budget, achieves the cell's value and beats every other element.
\<close>

definition cell_ok ::
    "int \<Rightarrow> (int \<Rightarrow> int) \<Rightarrow> int arr \<Rightarrow> (int \<Rightarrow> int) \<Rightarrow> int \<Rightarrow> struct_f \<Rightarrow> bool" where
  "cell_ok m wk dem pre b c \<longleftrightarrow>
     0 \<le> dyna_sol c \<and> dyna_sol c < m \<and> wk (dyna_sol c) \<le> b \<and>
     dyna_f c = pre (b - wk (dyna_sol c)) + dem (dyna_sol c) \<and>
     (\<forall>j. 0 \<le> j \<and> j < m \<and> wk j \<le> b \<longrightarrow> pre (b - wk j) + dem j \<le> dyna_f c)"

lemma cell_ok_best:
  "cell_ok m wk dem pre b c \<Longrightarrow> 0 \<le> j \<Longrightarrow> j < m \<Longrightarrow> wk j \<le> b \<Longrightarrow> pre (b - wk j) + dem j \<le> dyna_f c"
  unfolding cell_ok_def by blast

lemma cell_ok_mono:
  assumes "cell_ok m wk dem pre b c" and "cell_ok m wk dem pre (b + 1) c'"
    and "\<And>j. 0 \<le> j \<Longrightarrow> j < m \<Longrightarrow> 0 \<le> wk j" and "\<And>x. 0 \<le> x \<Longrightarrow> x \<le> b \<Longrightarrow> pre x \<le> pre (x + 1)"
  shows "dyna_f c \<le> dyna_f c'"
proof -
  let ?j = "dyna_sol c"
  have j: "0 \<le> ?j" "?j < m" "wk ?j \<le> b" and f: "dyna_f c = pre (b - wk ?j) + dem ?j"
    using assms(1) by (auto simp: cell_ok_def)
  have "pre (b - wk ?j) \<le> pre (b - wk ?j + 1)"
    by (rule assms(4)) (use j assms(3) [of ?j] in auto)
  moreover have "b - wk ?j + 1 = b + 1 - wk ?j" by simp
  moreover have "pre (b + 1 - wk ?j) + dem ?j \<le> dyna_f c'"
    by (rule cell_ok_best [OF assms(2)]) (use j in auto)
  ultimately show ?thesis using f by simp
qed

text \<open>The result of looking for the best element of a cell.\<close>

lemma best_cell:
  assumes m: "0 \<le> m" and c: "0 \<le> c" "c < m" "wk c = 0"
    and dem: "\<And>j. 0 \<le> j \<Longrightarrow> j < m \<Longrightarrow> 1 \<le> dem j" and b: "0 \<le> b"
    and pre: "\<And>x. 0 \<le> x \<Longrightarrow> x \<le> b \<Longrightarrow> 0 \<le> pre x"
    and ok: "\<And>j. 0 \<le> j \<Longrightarrow> j < m \<Longrightarrow> ok j \<longleftrightarrow> wk j \<le> b"
    and val: "\<And>j. 0 \<le> j \<Longrightarrow> j < m \<Longrightarrow> wk j \<le> b \<Longrightarrow> val j = pre (b - wk j) + dem j"
    and run: "for_up 0 m (best_step ok val) (- 1, - 1) = (mx, ind)"
  shows "1 \<le> mx \<and> cell_ok m wk dem pre b \<lparr>dyna_f = mx, dyna_sol = ind\<rparr>"
proof -
  have all: "\<And>j. 0 \<le> j \<Longrightarrow> j < m \<Longrightarrow> ok j \<Longrightarrow> val j \<le> mx"
    and one: "mx = - 1 \<and> ind = - 1 \<or> 0 \<le> ind \<and> ind < m \<and> ok ind \<and> val ind = mx"
    using best_loop [OF m, of ok val] run by auto
  have "1 \<le> val c" using val [OF c(1,2)] c(3) pre [of b] dem [OF c(1,2)] b by simp
  moreover have "val c \<le> mx" using all [OF c(1,2)] ok [OF c(1,2)] c(3) b by simp
  ultimately have mx: "1 \<le> mx" by simp
  with one have ind: "0 \<le> ind" "ind < m" "ok ind" "val ind = mx" by auto
  have "pre (b - wk j) + dem j \<le> mx" if "0 \<le> j" "j < m" "wk j \<le> b" for j
    using all [OF that(1,2)] ok [OF that(1,2)] val [OF that] that(3) by simp
  then show ?thesis
    using mx ind ok [OF ind(1,2)] val [OF ind(1,2)] by (simp add: cell_ok_def)
qed

text \<open>Both kinds of cell store the best element when it is positive and no smaller cell beats it.\<close>

lemma mck_first_cell_run:
  assumes "for_up 0 m (best_step (\<lambda>j. w 0 j \<le> b) dem) (- 1, - 1) = (mx, ind)" and "1 \<le> mx"
    and "0 < b \<Longrightarrow> dyna_f (row (b - 1)) \<le> mx"
  shows "mck_first_cell m w dem b row = row(b := \<lparr>dyna_f = mx, dyna_sol = ind\<rparr>)"
  using assms by (auto simp: mck_first_cell_def set_f_def set_sol_def Let_def fun_eq_iff)

lemma mck_cell_run:
  assumes "for_up 0 m (best_step (\<lambda>j. w (k - 1) j \<le> b \<and> 0 < demand1 w k prev b j)
      (\<lambda>j. demand1 w k prev b j + dem j)) (- 1, - 1) = (mx, ind)" and "1 \<le> mx"
    and "0 < b \<Longrightarrow> dyna_f (row (b - 1)) \<le> mx"
  shows "mck_cell m w dem k prev b row = row(b := \<lparr>dyna_f = mx, dyna_sol = ind\<rparr>)"
  using assms by (auto simp: mck_cell_def set_f_def set_sol_def Let_def fun_eq_iff)

text \<open>Filling a row with either kind of cell.\<close>

lemma fill_row:
  assumes B: "0 \<le> B"
    and cell: "\<And>b row. 0 \<le> b \<Longrightarrow> b \<le> B \<Longrightarrow>
      (0 < b \<Longrightarrow> cell_ok m wk dem pre (b - 1) (row (b - 1))) \<Longrightarrow>
      \<exists>c. fill b row = row(b := c) \<and> cell_ok m wk dem pre b c"
    and b: "0 \<le> b" "b \<le> B"
  shows "cell_ok m wk dem pre b (for_up 0 (B + 1) fill row b)"
proof -
  have "\<forall>b. 0 \<le> b \<and> b < B + 1 \<longrightarrow> cell_ok m wk dem pre b (for_up 0 (B + 1) fill row b)"
  proof (rule for_up_inv [where P = "\<lambda>i r. \<forall>b. 0 \<le> b \<and> b < i \<longrightarrow> cell_ok m wk dem pre b (r b)"])
    fix i r
    assume i: "0 \<le> i" "i < B + 1" and r: "\<forall>b. 0 \<le> b \<and> b < i \<longrightarrow> cell_ok m wk dem pre b (r b)"
    have "\<exists>c. fill i r = r(i := c) \<and> cell_ok m wk dem pre i c"
      by (rule cell) (use i r in auto)
    then obtain c where "fill i r = r(i := c)" "cell_ok m wk dem pre i c" by blast
    then show "\<forall>b. 0 \<le> b \<and> b < i + 1 \<longrightarrow> cell_ok m wk dem pre b (fill i r b)"
      using r by (auto simp: int_less_Suc)
  qed (use B in auto)
  with b show ?thesis by auto
qed

definition row_ok ::
    "int \<Rightarrow> int \<Rightarrow> (int \<Rightarrow> int) \<Rightarrow> int arr \<Rightarrow> (int \<Rightarrow> int) \<Rightarrow> struct_f arr \<Rightarrow> bool" where
  "row_ok m B wk dem pre row \<longleftrightarrow> (\<forall>b. 0 \<le> b \<and> b \<le> B \<longrightarrow> cell_ok m wk dem pre b (row b))"

definition good_pre :: "int \<Rightarrow> (int \<Rightarrow> int) \<Rightarrow> bool" where
  "good_pre B pre \<longleftrightarrow>
     (\<forall>x. 0 \<le> x \<and> x \<le> B \<longrightarrow> 0 \<le> pre x) \<and> (\<forall>x. 0 \<le> x \<and> x < B \<longrightarrow> pre x \<le> pre (x + 1))"

text \<open>The problem: non-negative weights, each CPU can stay for free, every demand is positive.\<close>

definition mck_problem :: "int \<Rightarrow> int \<Rightarrow> int arr arr \<Rightarrow> int arr \<Rightarrow> bool" where
  "mck_problem n m w dem \<longleftrightarrow>
     (\<forall>j. 0 \<le> j \<and> j < m \<longrightarrow> 1 \<le> dem j) \<and>
     (\<forall>i. 0 \<le> i \<and> i < n \<longrightarrow> (\<forall>j. 0 \<le> j \<and> j < m \<longrightarrow> 0 \<le> w i j) \<and> (\<exists>c. 0 \<le> c \<and> c < m \<and> w i c = 0))"

lemma first_row:
  assumes prob: "mck_problem n m w dem" and n: "1 \<le> n" and m: "0 \<le> m" and B: "0 \<le> B"
  shows "row_ok m B (w 0) dem (\<lambda>_. 0) (for_up 0 (B + 1) (mck_first_cell m w dem) row)"
  unfolding row_ok_def
proof (intro allI impI)
  fix b assume b: "0 \<le> b \<and> b \<le> B"
  obtain c where c: "0 \<le> c" "c < m" "w 0 c = 0" and w0: "\<And>j. 0 \<le> j \<Longrightarrow> j < m \<Longrightarrow> 0 \<le> w 0 j"
    and dem: "\<And>j. 0 \<le> j \<Longrightarrow> j < m \<Longrightarrow> 1 \<le> dem j"
    using prob n unfolding mck_problem_def by auto
  show "cell_ok m (w 0) dem (\<lambda>_. 0) b (for_up 0 (B + 1) (mck_first_cell m w dem) row b)"
  proof (rule fill_row [OF B])
    fix b row
    assume b: "0 \<le> b" "b \<le> B"
      and prev: "0 < b \<Longrightarrow> cell_ok m (w 0) dem (\<lambda>_. 0) (b - 1) (row (b - 1))"
    obtain mx ind where run: "for_up 0 m (best_step (\<lambda>j. w 0 j \<le> b) dem) (- 1, - 1) = (mx, ind)"
      by fastforce
    have best: "1 \<le> mx \<and> cell_ok m (w 0) dem (\<lambda>_. 0) b \<lparr>dyna_f = mx, dyna_sol = ind\<rparr>"
      by (rule best_cell [where wk = "w 0" and dem = dem, OF m c dem b(1) _ _ _ run]) auto
    have "dyna_f (row (b - 1)) \<le> mx" if "0 < b"
      using cell_ok_mono [OF prev [OF that], of "\<lparr>dyna_f = mx, dyna_sol = ind\<rparr>"] best w0 by simp
    with mck_first_cell_run [where w = w, OF run] best
    show "\<exists>c. mck_first_cell m w dem b row = row(b := c) \<and> cell_ok m (w 0) dem (\<lambda>_. 0) b c"
      by blast
  qed (use b in auto)
qed

lemma next_row:
  assumes prob: "mck_problem n m w dem" and k: "2 \<le> k" "k \<le> n" and m: "0 \<le> m" and B: "0 \<le> B"
    and pre: "good_pre B (\<lambda>x. dyna_f (prev x))" and pos: "\<And>x. 0 \<le> x \<Longrightarrow> x \<le> B \<Longrightarrow> 0 < dyna_f (prev x)"
  shows "row_ok m B (w (k - 1)) dem (\<lambda>x. dyna_f (prev x))
    (for_up 0 (B + 1) (mck_cell m w dem k prev) row)"
  unfolding row_ok_def
proof (intro allI impI)
  fix b assume b: "0 \<le> b \<and> b \<le> B"
  let ?pre = "\<lambda>x. dyna_f (prev x)" and ?wk = "w (k - 1)"
  have "0 \<le> k - 1" "k - 1 < n" using k by auto
  then obtain c where c: "0 \<le> c" "c < m" "?wk c = 0"
    and w0: "\<And>j. 0 \<le> j \<Longrightarrow> j < m \<Longrightarrow> 0 \<le> ?wk j"
    and dem: "\<And>j. 0 \<le> j \<Longrightarrow> j < m \<Longrightarrow> 1 \<le> dem j"
    using prob unfolding mck_problem_def by blast
  show "cell_ok m ?wk dem ?pre b (for_up 0 (B + 1) (mck_cell m w dem k prev) row b)"
  proof (rule fill_row [OF B])
    fix b row
    assume b: "0 \<le> b" "b \<le> B"
      and last: "0 < b \<Longrightarrow> cell_ok m ?wk dem ?pre (b - 1) (row (b - 1))"
    let ?ok = "\<lambda>j. ?wk j \<le> b \<and> 0 < demand1 w k prev b j"
    let ?val = "\<lambda>j. demand1 w k prev b j + dem j"
    obtain mx ind where run: "for_up 0 m (best_step ?ok ?val) (- 1, - 1) = (mx, ind)"
      by fastforce
    have d1: "demand1 w k prev b j = ?pre (b - ?wk j)" "0 < ?pre (b - ?wk j)"
      if "0 \<le> j" "j < m" "?wk j \<le> b" for j
      using that pos [of "b - ?wk j"] w0 [OF that(1,2)] b by (simp_all add: demand1_def)
    have best: "1 \<le> mx \<and> cell_ok m ?wk dem ?pre b \<lparr>dyna_f = mx, dyna_sol = ind\<rparr>"
    proof (rule best_cell [where wk = ?wk and dem = dem and pre = ?pre, OF m c dem b(1) _ _ _ run])
      show "0 \<le> dyna_f (prev x)" if "0 \<le> x" "x \<le> b" for x
        using pos [of x] that b by simp
      show "?ok j \<longleftrightarrow> ?wk j \<le> b" if "0 \<le> j" "j < m" for j
        using d1 [OF that] by auto
      show "?val j = ?pre (b - ?wk j) + dem j" if "0 \<le> j" "j < m" "?wk j \<le> b" for j
        using d1 [OF that] by simp
    qed
    have "dyna_f (row (b - 1)) \<le> mx" if "0 < b"
    proof -
      have "dyna_f (row (b - 1)) \<le> dyna_f \<lparr>dyna_f = mx, dyna_sol = ind\<rparr>"
        by (rule cell_ok_mono [OF last [OF that]])
          (use best w0 pre b in \<open>auto simp: good_pre_def\<close>)
      then show ?thesis by simp
    qed
    with mck_cell_run [where w = w and k = k, OF run] best
    show "\<exists>c. mck_cell m w dem k prev b row = row(b := c) \<and> cell_ok m ?wk dem ?pre b c"
      by blast
  qed (use b in auto)
qed

text \<open>What a solved row offers to the next one.\<close>

lemma row_good:
  assumes row: "row_ok m B wk dem pre row" and pre: "good_pre B pre"
    and wk: "\<And>j. 0 \<le> j \<Longrightarrow> j < m \<Longrightarrow> 0 \<le> wk j" and dem: "\<And>j. 0 \<le> j \<Longrightarrow> j < m \<Longrightarrow> 1 \<le> dem j"
  shows "good_pre B (\<lambda>x. dyna_f (row x))" and "\<And>x. 0 \<le> x \<Longrightarrow> x \<le> B \<Longrightarrow> 0 < dyna_f (row x)"
proof -
  show pos: "0 < dyna_f (row x)" if x: "0 \<le> x" "x \<le> B" for x
  proof -
    let ?j = "dyna_sol (row x)"
    have c: "cell_ok m wk dem pre x (row x)" using row x by (simp add: row_ok_def)
    then have j: "0 \<le> ?j" "?j < m" "wk ?j \<le> x" and f: "dyna_f (row x) = pre (x - wk ?j) + dem ?j"
      by (auto simp: cell_ok_def)
    have "0 \<le> pre (x - wk ?j)"
      using pre x j wk [OF j(1,2)] by (simp add: good_pre_def)
    with f dem [OF j(1,2)] show ?thesis by simp
  qed
  have "dyna_f (row x) \<le> dyna_f (row (x + 1))" if "0 \<le> x" "x < B" for x
    by (rule cell_ok_mono [of m wk dem pre x])
      (use row pre wk that in \<open>auto simp: row_ok_def good_pre_def\<close>)
  with pos show "good_pre B (\<lambda>x. dyna_f (row x))"
    by (simp add: good_pre_def less_imp_le)
qed

definition pre_row :: "struct_f arr arr \<Rightarrow> int \<Rightarrow> int \<Rightarrow> int" where
  "pre_row t k = (if k = 1 then (\<lambda>_. 0) else (\<lambda>x. dyna_f (t (k - 1) x)))"

definition table_ok ::
    "int \<Rightarrow> int \<Rightarrow> int \<Rightarrow> int arr arr \<Rightarrow> int arr \<Rightarrow> struct_f arr arr \<Rightarrow> bool" where
  "table_ok n m B w dem t \<longleftrightarrow>
     (\<forall>k. 1 \<le> k \<and> k \<le> n \<longrightarrow> row_ok m B (w (k - 1)) dem (pre_row t k) (t k) \<and> good_pre B (pre_row t k))"

lemma mck_table_ok:
  assumes prob: "mck_problem n m w dem" and n: "1 \<le> n" and m: "0 \<le> m" and B: "0 \<le> B"
  shows "table_ok n m B w dem (mck_table n m B w dem t)"
proof -
  define t1 where "t1 = (mck_clear n B t)(1 := for_up 0 (B + 1) (mck_first_cell m w dem) (mck_clear n B t 1))"
  define f where "f = (\<lambda>k t. t(k := for_up 0 (B + 1) (mck_cell m w dem k (t (k - 1))) (t k)))"
  have row1: "row_ok m B (w 0) dem (\<lambda>_. 0) (t1 1)"
    unfolding t1_def using first_row [OF prob n m B] by simp
  have "table_ok ((n + 1) - 1) m B w dem (for_up 2 (n + 1) f t1)"
  proof (rule for_up_inv [where P = "\<lambda>k t. table_ok (k - 1) m B w dem t"])
    have "k = 1" if "1 \<le> k" "k \<le> 1" for k :: int using that by simp
    then show "table_ok (2 - 1) m B w dem t1"
      using row1 by (auto simp: table_ok_def pre_row_def good_pre_def)
  next
    fix k t
    assume k: "2 \<le> k" "k < n + 1" and t: "table_ok (k - 1) m B w dem t"
    have wk: "\<And>j. 0 \<le> j \<Longrightarrow> j < m \<Longrightarrow> 0 \<le> w (k - 2) j" and dem: "\<And>j. 0 \<le> j \<Longrightarrow> j < m \<Longrightarrow> 1 \<le> dem j"
      using prob k unfolding mck_problem_def by auto
    have prev: "row_ok m B (w (k - 2)) dem (pre_row t (k - 1)) (t (k - 1))" "good_pre B (pre_row t (k - 1))"
      using t k unfolding table_ok_def by (auto dest: spec [of _ "k - 1"])
    note good = row_good [OF prev wk dem]
    have row: "row_ok m B (w (k - 1)) dem (\<lambda>x. dyna_f (t (k - 1) x)) (f k t k)"
      unfolding f_def using next_row [OF prob k(1) _ m B good] k by simp
    have keep: "f k t i = t i" if "i \<noteq> k" for i using that by (simp add: f_def)
    show "table_ok (k + 1 - 1) m B w dem (f k t)"
      unfolding table_ok_def
    proof (intro allI impI)
      fix i assume i: "1 \<le> i \<and> i \<le> k + 1 - 1"
      show "row_ok m B (w (i - 1)) dem (pre_row (f k t) i) (f k t i) \<and> good_pre B (pre_row (f k t) i)"
      proof (cases "i = k")
        case True
        then show ?thesis using row good(1) k keep [of "k - 1"] by (simp add: pre_row_def)
      next
        case False
        then have "pre_row (f k t) i = pre_row t i" "f k t i = t i"
          using keep [of i] keep [of "i - 1"] i by (auto simp: pre_row_def)
        then show ?thesis using t i False by (simp add: table_ok_def)
      qed
    qed
  qed (use n in simp)
  then show ?thesis by (simp add: mck_table_def t1_def f_def Let_def)
qed

subsection \<open>The table is optimal\<close>

text \<open>\<open>a\<close> chooses a state for each of the first \<open>k\<close> CPUs.\<close>

definition choice_ok :: "int \<Rightarrow> int \<Rightarrow> (int \<Rightarrow> int) \<Rightarrow> bool" where
  "choice_ok k m a \<longleftrightarrow> (\<forall>i. 0 \<le> i \<and> i < k \<longrightarrow> 0 \<le> a i \<and> a i < m)"

lemma sum_int_last: "1 \<le> k \<Longrightarrow> (\<Sum>i\<in>{0..<k::int}. g i) = (\<Sum>i\<in>{0..<k - 1}. g i) + g (k - 1)"
proof -
  assume "1 \<le> k"
  then have "{0..<k} = insert (k - 1) {0..<k - 1}" by auto
  then show ?thesis by (simp add: add.commute)
qed

lemma table_upper:
  assumes tab: "table_ok n m B w dem t" and prob: "mck_problem n m w dem" and k: "1 \<le> k" "k \<le> n"
    and a: "choice_ok k m a" and b: "0 \<le> b" "b \<le> B" and fits: "(\<Sum>i\<in>{0..<k}. w i (a i)) \<le> b"
  shows "(\<Sum>i\<in>{0..<k}. dem (a i)) \<le> dyna_f (t k b)"
  using k b fits a
proof (induction "nat k" arbitrary: k b)
  case 0
  then show ?case by simp
next
  case (Suc x)
  let ?j = "a (k - 1)"
  have k: "1 \<le> k" "k \<le> n" and a: "choice_ok k m a" using Suc.prems by auto
  have j: "0 \<le> ?j" "?j < m" using a k by (auto simp: choice_ok_def)
  have row: "cell_ok m (w (k - 1)) dem (pre_row t k) b (t k b)"
    using tab k Suc.prems by (simp add: table_ok_def row_ok_def)
  have wpos: "0 \<le> w i (a i)" if "0 \<le> i" "i < k" for i
    using prob a that k by (simp add: mck_problem_def choice_ok_def)
  have rest: "0 \<le> (\<Sum>i\<in>{0..<k - 1}. w i (a i))"
    by (rule sum_nonneg) (use wpos in auto)
  have split: "(\<Sum>i\<in>{0..<k}. w i (a i)) = (\<Sum>i\<in>{0..<k - 1}. w i (a i)) + w (k - 1) ?j"
    "(\<Sum>i\<in>{0..<k}. dem (a i)) = (\<Sum>i\<in>{0..<k - 1}. dem (a i)) + dem ?j"
    using k by (simp_all add: sum_int_last)
  have wj: "w (k - 1) ?j \<le> b" using Suc.prems(5) split rest by simp
  have "pre_row t k (b - w (k - 1) ?j) + dem ?j \<le> dyna_f (t k b)"
    by (rule cell_ok_best [OF row j wj])
  moreover have "(\<Sum>i\<in>{0..<k - 1}. dem (a i)) \<le> pre_row t k (b - w (k - 1) ?j)"
  proof (cases "k = 1")
    case True
    then show ?thesis by (simp add: pre_row_def)
  next
    case False
    have "(\<Sum>i\<in>{0..<k - 1}. dem (a i)) \<le> dyna_f (t (k - 1) (b - w (k - 1) ?j))"
      by (rule Suc.hyps(1)) (use Suc False wpos [of "k - 1"] wj split in \<open>auto simp: choice_ok_def\<close>)
    with False show ?thesis by (simp add: pre_row_def)
  qed
  ultimately show ?case using split by simp
qed

text \<open>
  Backtracking visits the rows from the last to the first. After \<open>i\<close> steps it has spent
  \<open>B - b\<close> and gained \<open>dyna_f (t n B)\<close> minus what the rows still to visit achieve within \<open>b\<close>.
\<close>

definition achieved :: "struct_f arr arr \<Rightarrow> int \<Rightarrow> int \<Rightarrow> int" where
  "achieved t k b = (if k = 0 then 0 else dyna_f (t k b))"

definition back_inv ::
    "int \<Rightarrow> int \<Rightarrow> int \<Rightarrow> int arr arr \<Rightarrow> int arr \<Rightarrow> int arr \<Rightarrow> struct_f arr arr \<Rightarrow> int \<Rightarrow> int \<times> int arr \<Rightarrow> bool" where
  "back_inv n m B w dem proxy t i st \<longleftrightarrow>
     (case st of (b, new) \<Rightarrow> 0 \<le> b \<and> b \<le> B \<and>
        (\<forall>c. n - i \<le> c \<and> c < n \<longrightarrow> 0 \<le> new (proxy c) \<and> new (proxy c) < m) \<and>
        (\<Sum>c\<in>{n - i..<n}. w c (new (proxy c))) = B - b \<and>
        (\<Sum>c\<in>{n - i..<n}. dem (new (proxy c))) = achieved t n B - achieved t (n - i) b)"

lemma backtrack_step_inv:
  assumes tab: "table_ok n m B w dem t" and prob: "mck_problem n m w dem"
    and inj: "inj_on proxy {0..<n}" and i: "0 \<le> i" "i < n"
    and inv: "back_inv n m B w dem proxy t i st"
  shows "back_inv n m B w dem proxy t (i + 1) (backtrack_step n w proxy t i st)"
proof -
  obtain b new where st: "st = (b, new)" by (cases st)
  define k where "k = n - i"
  have k: "1 \<le> k" "k \<le> n" using i by (auto simp: k_def)
  have b: "0 \<le> b" "b \<le> B" using inv by (auto simp: back_inv_def st)
  have cell: "cell_ok m (w (k - 1)) dem (pre_row t k) b (t k b)"
    using tab k b by (simp add: table_ok_def row_ok_def)
  define j where "j = dyna_sol (t k b)"
  have j: "0 \<le> j" "j < m" "w (k - 1) j \<le> b" and f: "dyna_f (t k b) = pre_row t k (b - w (k - 1) j) + dem j"
    using cell by (auto simp: cell_ok_def j_def)
  have wj: "0 \<le> w (k - 1) j" using prob k j by (simp add: mck_problem_def)
  have down: "first_down (\<lambda>b. 0 \<le> dyna_sol (t k b)) b = b"
    using b j by (simp add: first_down_step j_def)
  have run: "backtrack_step n w proxy t i st = (b - w (k - 1) j, new(proxy (k - 1) := j))"
    using b(1) by (simp add: backtrack_step_def st k_def [symmetric] down j_def [symmetric] Let_def)
  have other: "(new(proxy (k - 1) := j)) (proxy c) = new (proxy c)" if "k \<le> c" "c < n" for c
  proof -
    have "proxy c \<noteq> proxy (k - 1)"
      using inj_onD [OF inj, of c "k - 1"] that k by auto
    then show ?thesis by simp
  qed
  have "{k - 1..<n} = insert (k - 1) {k..<n}" using k by auto
  then have sum: "(\<Sum>c\<in>{k - 1..<n}. g c ((new(proxy (k - 1) := j)) (proxy c))) =
      g (k - 1) j + (\<Sum>c\<in>{k..<n}. g c (new (proxy c)))" for g :: "int \<Rightarrow> int \<Rightarrow> int"
    using other by simp
  have ach: "achieved t k b = achieved t (k - 1) (b - w (k - 1) j) + dem j"
    using f k by (auto simp: achieved_def pre_row_def)
  have ni: "n - i = k" "n - (i + 1) = k - 1" by (simp_all add: k_def)
  have range: "0 \<le> (new(proxy (k - 1) := j)) (proxy c) \<and> (new(proxy (k - 1) := j)) (proxy c) < m"
    if "k - 1 \<le> c" "c < n" for c
  proof (cases "c = k - 1")
    case True
    then show ?thesis using j by simp
  next
    case False
    then show ?thesis using other [of c] inv that unfolding back_inv_def st ni by auto
  qed
  show ?thesis
    using inv [unfolded st back_inv_def ni prod.case] b j wj ach range sum [of w] sum [of "\<lambda>_. dem"]
    unfolding back_inv_def run ni prod.case by (auto simp del: fun_upd_apply)
qed

lemma mck_backtrack_optimal:
  fixes new :: "int arr"
  assumes tab: "table_ok n m B w dem t" and prob: "mck_problem n m w dem"
    and inj: "inj_on proxy {0..<n}" and n: "1 \<le> n" and B: "0 \<le> B"
  defines "new' \<equiv> mck_backtrack n B w proxy t new"
  shows "choice_ok n m (\<lambda>c. new' (proxy c)) \<and> (\<Sum>c\<in>{0..<n}. w c (new' (proxy c))) \<le> B \<and>
    (\<Sum>c\<in>{0..<n}. dem (new' (proxy c))) = dyna_f (t n B)"
proof -
  have "back_inv n m B w dem proxy t n (for_up 0 n (backtrack_step n w proxy t) (B, new))"
  proof (rule for_up_inv [where P = "back_inv n m B w dem proxy t"])
    show "back_inv n m B w dem proxy t 0 (B, new)" using B by (simp add: back_inv_def)
  qed (use backtrack_step_inv [OF tab prob inj] n in auto)
  moreover obtain b new'' where res: "for_up 0 n (backtrack_step n w proxy t) (B, new) = (b, new'')"
    by fastforce
  ultimately have inv: "back_inv n m B w dem proxy t n (b, new'')" by simp
  have "new' = new''" by (simp add: new'_def mck_backtrack_def res)
  with inv n show ?thesis by (auto simp: back_inv_def choice_ok_def achieved_def)
qed

end
