(* ===== verification/Mutate_Dyn_Pass.thy ===== *)
theory Mutate_Dyn_Pass
  imports Mutate_Dyn
begin

text \<open>
  What a pass of the dynamic-programming mutator guarantees: the knapsack of \<open>mck\<close> chooses
  the states that satisfy most demand within the budget of state changes, the transformation of
  the demand only adds to it, and every CPU ends in a state that exists.
\<close>

subsection \<open>The weights\<close>

lemma mck_weights_at:
  assumes "0 \<le> i" and "i < n" and "0 \<le> j" and "j < m"
  shows "mck_weights n m cur proxy w i j = \<bar>j - cur (proxy i)\<bar>"
proof -
  have "mck_weights n m cur proxy w =
      (\<lambda>i. if 0 \<le> i \<and> i < n then (\<lambda>j. if 0 \<le> j \<and> j < m then ABS (j - cur (proxy i)) else w i j) else w i)"
    unfolding mck_weights_def for_up_fill
    by (rule for_up_map [of 0 n "\<lambda>i r j. if 0 \<le> j \<and> j < m then ABS (j - cur (proxy i)) else r j" w])
  then show ?thesis using assms by simp
qed

lemma mck_weights_problem:
  assumes "\<And>i. 0 \<le> i \<Longrightarrow> i < n \<Longrightarrow> 0 \<le> cur (proxy i) \<and> cur (proxy i) < m"
    and "\<And>j. 0 \<le> j \<Longrightarrow> j < m \<Longrightarrow> 1 \<le> dem j"
  shows "mck_problem n m (mck_weights n m cur proxy w) dem"
  unfolding mck_problem_def
proof (intro conjI allI impI)
  fix i assume i: "0 \<le> i \<and> i < n"
  show "\<exists>c. 0 \<le> c \<and> c < m \<and> mck_weights n m cur proxy w i c = 0"
    by (rule exI [of _ "cur (proxy i)"]) (use i assms(1) mck_weights_at in auto)
qed (use assms(2) mck_weights_at in auto)

subsection \<open>The choice is optimal\<close>

lemma mck_result:
  fixes v :: dyn_vars
  assumes n: "1 \<le> n" and w: "0 \<le> w" and m: "0 \<le> m" and inj: "inj_on (cpu_awake_proxy v) {0..<n}"
    and cur: "\<And>i. 0 \<le> i \<Longrightarrow> i < n \<Longrightarrow> 0 \<le> cur (cpu_awake_proxy v i) \<and> cur (cpu_awake_proxy v i) < m"
    and dem: "\<And>j. 0 \<le> j \<Longrightarrow> j < m \<Longrightarrow> 1 \<le> dyn_demand v j"
  defines "new \<equiv> \<lambda>c. dyn_new_cpu_state (mck n m w cur v) (cpu_awake_proxy v c)"
    and "cost \<equiv> \<lambda>a. \<Sum>c\<in>{0..<n}. \<bar>a c - cur (cpu_awake_proxy v c)\<bar>"
  shows "choice_ok n m new \<and> cost new \<le> w \<and>
    (\<forall>a. choice_ok n m a \<and> cost a \<le> w \<longrightarrow>
      (\<Sum>c\<in>{0..<n}. dyn_demand v (a c)) \<le> (\<Sum>c\<in>{0..<n}. dyn_demand v (new c)))"
proof -
  let ?p = "cpu_awake_proxy v" and ?d = "dyn_demand v"
  define W where "W = mck_weights n m cur ?p (wt v)"
  define t where "t = mck_table n m w W ?d (dyna v)"
  have prob: "mck_problem n m W ?d"
    using mck_weights_problem [of n cur ?p m ?d "wt v"] cur dem by (simp add: W_def)
  have tab: "table_ok n m w W ?d t" unfolding t_def by (rule mck_table_ok [OF prob n m w])
  have new: "new = (\<lambda>c. mck_backtrack n w W ?p t (dyn_new_cpu_state v) (?p c))"
    by (simp add: new_def mck_def W_def t_def Let_def)
  note opt = mck_backtrack_optimal [OF tab prob inj n w, of "dyn_new_cpu_state v"]
  have cost: "(\<Sum>c\<in>{0..<n}. W c (a c)) = cost a" if "choice_ok n m a" for a
    unfolding cost_def by (rule sum.cong) (use that in \<open>auto simp: W_def mck_weights_at choice_ok_def\<close>)
  have "(\<Sum>c\<in>{0..<n}. ?d (a c)) \<le> (\<Sum>c\<in>{0..<n}. ?d (new c))" if "choice_ok n m a" "cost a \<le> w" for a
    using table_upper [OF tab prob n order_refl that(1) w order_refl] cost [OF that(1)] that(2) opt
    by (simp add: new)
  then show ?thesis using opt cost [of new] unfolding new by auto
qed

subsection \<open>The demand transformation\<close>

lemma transfer_grows:
  assumes "\<And>j. 0 \<le> j \<Longrightarrow> j < T \<Longrightarrow> 0 \<le> dem j" and "0 \<le> k" and "k < T"
  shows "dem k \<le> delta_based_demand_transform T n d cur proxy dem k"
proof -
  let ?c = "for_up 0 T (can_win_step n d cur proxy) (\<lambda>_. 0)"
  have "\<forall>k. 0 \<le> k \<and> k < T \<longrightarrow> dem k \<le> for_up 0 T (transfer_step T ?c) dem k"
  proof (rule for_up_preserves [where P = "\<lambda>e. \<forall>k. 0 \<le> k \<and> k < T \<longrightarrow> dem k \<le> e k"])
    fix j e assume j: "0 \<le> j" "j < T" and e: "\<forall>k. 0 \<le> k \<and> k < T \<longrightarrow> dem k \<le> e k"
    then have "0 \<le> e j" using assms(1) [OF j] by (meson order_trans)
    then have "e k \<le> transfer_step T ?c j e k" for k
      by (simp add: transfer_step_def Let_def)
    then show "\<forall>k. 0 \<le> k \<and> k < T \<longrightarrow> dem k \<le> transfer_step T ?c j e k"
      using e by (meson order_trans)
  qed auto
  then show ?thesis using assms by (simp add: delta_based_demand_transform_def Let_def)
qed

subsection \<open>Every CPU is given a state that exists\<close>

lemma backtrack_step_range:
  assumes tab: "table_ok n m B w dem t" and prob: "mck_problem n m w dem"
    and i: "0 \<le> i" "i < n" and b: "b \<le> B"
    and new: "\<And>c. 0 \<le> c \<Longrightarrow> c < N \<Longrightarrow> 0 \<le> new c \<and> new c < m"
    and step: "backtrack_step n w proxy t i (b, new) = (b', new')" and B: "0 \<le> B"
  shows "b' \<le> B \<and> (\<forall>c. 0 \<le> c \<and> c < N \<longrightarrow> 0 \<le> new' c \<and> new' c < m)"
proof -
  define k where "k = n - i"
  have k: "1 \<le> k" "k \<le> n" using i by (auto simp: k_def)
  let ?b = "first_down (\<lambda>b. 0 \<le> dyna_sol (t k b)) b"
  have bB: "?b \<le> B"
    by (rule first_down_cases [of "\<lambda>b. 0 \<le> dyna_sol (t k b)" b]) (use b B in auto)
  show ?thesis
  proof (cases "0 \<le> ?b")
    case False
    then have "b' = ?b" "new' = new"
      using step by (auto simp: backtrack_step_def k_def [symmetric] Let_def)
    then show ?thesis using bB new by simp
  next
    case True
    then have "cell_ok m (w (k - 1)) dem (pre_row t k) ?b (t k ?b)"
      using tab k bB by (simp add: table_ok_def row_ok_def)
    then have j: "0 \<le> dyna_sol (t k ?b)" "dyna_sol (t k ?b) < m"
      by (simp_all add: cell_ok_def)
    have "0 \<le> w (k - 1) (dyna_sol (t k ?b))"
      using prob k j by (simp add: mck_problem_def)
    moreover have "b' = ?b - w (k - 1) (dyna_sol (t k ?b))" "new' = new(proxy (k - 1) := dyna_sol (t k ?b))"
      using step True by (auto simp: backtrack_step_def k_def [symmetric] Let_def)
    ultimately show ?thesis using bB new j by simp
  qed
qed

lemma mck_backtrack_range:
  assumes tab: "table_ok n m B w dem t" and prob: "mck_problem n m w dem" and B: "0 \<le> B"
    and new: "\<And>c. 0 \<le> c \<Longrightarrow> c < N \<Longrightarrow> 0 \<le> new c \<and> new c < m" and c: "0 \<le> c" "c < N"
  shows "0 \<le> mck_backtrack n B w proxy t new c \<and> mck_backtrack n B w proxy t new c < m"
proof -
  let ?P = "\<lambda>st. fst st \<le> B \<and> (\<forall>c. 0 \<le> c \<and> c < N \<longrightarrow> 0 \<le> snd st c \<and> snd st c < m)"
  have "?P (for_up 0 n (backtrack_step n w proxy t) (B, new))"
  proof (rule for_up_preserves [where P = ?P])
    fix i and st :: "int \<times> int arr" assume i: "0 \<le> i" "i < n" and P: "?P st"
    obtain b v b' v' where st: "st = (b, v)" "backtrack_step n w proxy t i st = (b', v')" by fastforce
    then show "?P (backtrack_step n w proxy t i st)"
      using backtrack_step_range [OF tab prob i _ _ _ B, of b N v proxy b' v'] P by simp
  qed (use new in auto)
  then show ?thesis using c by (simp add: mck_backtrack_def)
qed

end
