(* ===== verification/Mutator.thy ===== *)
theory Mutator
  imports Mutate_Dyn_Pass
begin

text \<open>
  The work item of \<open>mutate_common.c\<close>, \<open>state_change\<close>, which runs the configured mutator and
  schedules itself again, and the contract all four mutators meet: a pass keeps every CPU in a
  state that exists and the tables the next pass reads in range. The 32-bit sleep counters bound
  the number of passes the contract is good for.
\<close>

subsection \<open>The work item\<close>

definition state_change :: "kenv \<Rightarrow> 'a dyn_st_scheme \<Rightarrow> 'a dyn_st_scheme" where
  "state_change env s =
     (let s = (if mutation_method s = ONDEMAND_MUTATOR then ondemand env s
               else if mutation_method s = CONSERVATIVE_MUTATOR then conservative env s
               else if mutation_method s = GREEDY_DELTA_MUTATOR then greedy_delta env (delta s) s
               else if mutation_method s = MEM_DYNAMIC_PROG_MUTATOR then mem_dynamic_prog env (delta s) s
               else s\<lparr>timer_started := False\<rparr>)
      in if timer_started s then s\<lparr>state_work_pending := True\<rparr> else s)"

subsection \<open>The contract\<close>

definition slept :: "int \<Rightarrow> int \<Rightarrow> proc_info arr \<Rightarrow> bool" where
  "slept n k f \<longleftrightarrow> (\<forall>i. 0 \<le> i \<and> i < n \<longrightarrow> proc_ok (f i) \<and> uint (sleep_time (f i)) \<le> k)"

definition mut_inv :: "int \<Rightarrow> 'a dyn_st_scheme \<Rightarrow> bool" where
  "mut_inv k s \<longleftrightarrow>
     cur_ok s \<and> slept (total_online_cpus s) k (info s) \<and> 0 \<le> delta s \<and>
     1 \<le> total_online_cpus s \<and> total_online_cpus s < 2 ^ 31 \<and>
     1 \<le> total_states s \<and> total_states s < 2 ^ 31 \<and>
     (\<forall>j. 0 \<le> j \<and> j < total_states s \<longrightarrow> 0 \<le> demand (states s j)) \<and>
     (\<forall>c. 0 \<le> c \<and> c < total_online_cpus s \<longrightarrow>
        0 \<le> cpu_awake_proxy (dyn s) c \<and> cpu_awake_proxy (dyn s) c < total_online_cpus s \<and>
        0 \<le> dyn_new_cpu_state (dyn s) c \<and> dyn_new_cpu_state (dyn s) c < total_states s)"

text \<open>What no step of a pass changes.\<close>

definition kept :: "'a dyn_st_scheme \<Rightarrow> 'a dyn_st_scheme \<Rightarrow> bool" where
  "kept s t \<longleftrightarrow>
     total_online_cpus t = total_online_cpus s \<and> total_states t = total_states s \<and> delta t = delta s \<and>
     mutation_method t = mutation_method s"

lemma kept_refl [simp]: "kept s s"
  by (simp add: kept_def)

lemma kept_trans: "kept s t \<Longrightarrow> kept t u \<Longrightarrow> kept s u"
  by (simp add: kept_def)

lemma set_freq_kept:
  "kept s (snd (sched_set_freq env i st s)) \<and> info (snd (sched_set_freq env i st s)) = info s \<and>
   dyn (snd (sched_set_freq env i st s)) = dyn s \<and> gd (snd (sched_set_freq env i st s)) = gd s"
  by (rule freq_frameE [OF sched_set_freq_frame [of s env i st]]) (simp add: kept_def)

lemma inform_demand:
  "demand (states (snd (seeker_cpufreq_inform env i st s)) j) = demand (states s j)"
proof -
  have "states (log_cpu_state env c u) = states u" for c and u :: "'a state_st_scheme"
    by (rule log_cpu_state_frame [of env c u]) simp
  then show ?thesis
    by (simp add: seeker_cpufreq_inform_def Let_def upd_state_def write_seqlock_def write_sequnlock_def)
qed

lemma set_freq_demand:
  assumes "0 \<le> i" "i < 2 ^ 31" "0 \<le> st" "st < 2 ^ 31"
  shows "demand (states (snd (sched_set_freq env i st s)) j) = demand (states s j)"
  by (rule sched_set_freq_preserves [where P = "\<lambda>u. demand (states u j) = demand (states s j)"])
    (use assms in \<open>simp_all add: inform_demand\<close>)

text \<open>
  What happens to the tables between two moments of interest: a tick of the timer, with what the kernel
  answers then; a decision about a task, which raises the demand of a state; a change of frequency
  that the governor reports. Only states and CPUs that exist are decided on and reported.
\<close>

datatype between = Tick kenv | Decided int | Informed kenv int int

definition tick_step :: "(kenv \<Rightarrow> 'a dyn_st_scheme \<Rightarrow> 'a dyn_st_scheme) \<Rightarrow> between \<Rightarrow> 'a dyn_st_scheme \<Rightarrow> 'a dyn_st_scheme" where
  "tick_step pass e s = (case e of
     Tick env \<Rightarrow> pass env s
   | Decided j \<Rightarrow> if 0 \<le> j \<and> j < total_states s then demand_inc j s else s
   | Informed env c st \<Rightarrow>
       if 0 \<le> c \<and> c < total_online_cpus s \<and> 0 \<le> st \<and> st < total_states s
       then snd (seeker_cpufreq_inform env c st s) else s)"

fun ticks_in :: "between list \<Rightarrow> int" where
  "ticks_in [] = 0"
| "ticks_in (Tick env # es) = 1 + ticks_in es"
| "ticks_in (_ # es) = ticks_in es"

lemma ticks_in_nonneg: "0 \<le> ticks_in es"
  by (induction es rule: ticks_in.induct) auto

lemma inform_keeps:
  assumes inv: "mut_inv k s" and c: "0 \<le> c" "c < total_online_cpus s" and st: "0 \<le> st" "st < total_states s"
  shows "mut_inv k (snd (seeker_cpufreq_inform env c st s)) \<and> kept s (snd (seeker_cpufreq_inform env c st s))"
proof -
  let ?t = "snd (seeker_cpufreq_inform env c st s)"
  have f: "kept s ?t \<and> info ?t = info s \<and> dyn ?t = dyn s"
    by (rule freq_frameE [OF inform_frame [of s env c st]]) (simp add: kept_def)
  moreover have "cur_ok ?t"
    using inv st f by (auto simp: cur_ok_def mut_inv_def inform_cur kept_def)
  ultimately show ?thesis using inv by (auto simp: mut_inv_def kept_def inform_demand)
qed

lemma demand_inc_keeps:
  "mut_inv k s \<Longrightarrow> mut_inv k (demand_inc j s) \<and> kept s (demand_inc j s)"
  by (auto simp: demand_inc_def upd_state_def mut_inv_def kept_def cur_ok_def)

locale mutator =
  fixes pass :: "kenv \<Rightarrow> 'a dyn_st_scheme \<Rightarrow> 'a dyn_st_scheme"
  assumes pass_inv: "mut_inv k s \<Longrightarrow> 1 \<le> k \<Longrightarrow> k + 2 < 2 ^ 32 \<Longrightarrow>
    mut_inv (k + 1) (pass env s) \<and> kept s (pass env s)"
begin

lemma passes_inv:
  assumes "mut_inv k s" and "1 \<le> k" and "k + ticks_in es + 1 < 2 ^ 32"
  shows "mut_inv (k + ticks_in es) (fold (tick_step pass) es s) \<and> kept s (fold (tick_step pass) es s)"
  using assms
proof (induction es arbitrary: k s)
  case (Cons e es)
  let ?t = "tick_step pass e s"
  have t: "mut_inv (k + ticks_in [e]) ?t \<and> kept s ?t"
  proof (cases e)
    case (Tick env)
    then show ?thesis using pass_inv [of k s env] Cons.prems ticks_in_nonneg [of es] by (simp add: tick_step_def)
  next
    case (Decided j)
    then show ?thesis using demand_inc_keeps [of k s j] Cons.prems(1) by (simp add: tick_step_def)
  next
    case (Informed env c st)
    then show ?thesis using inform_keeps [of k s c st env] Cons.prems(1) by (simp add: tick_step_def)
  qed
  have n: "ticks_in (e # es) = ticks_in [e] + ticks_in es" "0 \<le> ticks_in [e]" by (cases e; simp)+
  then have "mut_inv (k + ticks_in [e] + ticks_in es) (fold (tick_step pass) es ?t) \<and> kept ?t (fold (tick_step pass) es ?t)"
    using Cons.prems t by (intro Cons.IH) auto
  then show ?case using t kept_trans n(1) by (auto simp: add.assoc)
qed simp

end

subsection \<open>The load-driven mutators\<close>

lemma aim_keeps:
  assumes inv: "mut_inv k s" and i: "0 \<le> i" "i < total_online_cpus s" and g: "0 \<le> g" "g < total_states s"
  shows "mut_inv k (aim env i g s) \<and> kept s (aim env i g s)"
proof -
  have b: "i < 2 ^ 31" "g < 2 ^ 31" using inv i g by (auto simp: mut_inv_def)
  have "cur_ok (snd (sched_set_freq env i g s))"
    by (rule sched_set_freq_cur_ok) (use inv i g b in \<open>auto simp: mut_inv_def\<close>)
  then show ?thesis
    using inv set_freq_kept [of s env i g] set_freq_demand [of i g env s] i g b
    by (auto simp: aim_def mut_inv_def kept_def)
qed

lemma slept_mono: "slept n k f \<Longrightarrow> k \<le> l \<Longrightarrow> slept n l f"
  by (force simp: slept_def)

lemma slept_procs_ok: "slept n k f \<Longrightarrow> procs_ok n f"
  by (simp add: slept_def procs_ok_def)

lemma mut_inv_mono: "mut_inv k s \<Longrightarrow> k \<le> l \<Longrightarrow> mut_inv l s"
  by (auto simp: mut_inv_def intro: slept_mono)

context aiming_mutator
begin

lemma aiming_pass:
  fixes s :: "'a simple_st_scheme"
  assumes P: "P s" and n: "\<And>t. P t \<Longrightarrow> total_online_cpus t = total_online_cpus s \<and> cur_ok t"
    and upd: "\<And>t p w v. P t \<Longrightarrow> P (t\<lparr>prev_idle_time := p, od_new_cpu_state := w, cv_new_cpu_state := v\<rparr>)"
    and aim: "\<And>t i g. P t \<Longrightarrow> 0 \<le> i \<Longrightarrow> i < total_online_cpus s \<Longrightarrow> 0 \<le> g \<Longrightarrow> g < total_states t \<Longrightarrow> P (aim env i g t)"
  shows "P (for_up 0 (total_online_cpus s) body s)"
proof (rule for_up_preserves [where P = P])
  fix i t assume i: "0 \<le> i" "i < total_online_cpus s" and t: "P t"
  obtain p w v where body: "body i t = aim env i (target i t)
      (t\<lparr>prev_idle_time := (prev_idle_time t)(i := p), od_new_cpu_state := w, cv_new_cpu_state := v\<rparr>)"
    using body_aim by blast
  have "0 \<le> target i t \<and> target i t < total_states t"
    by (rule target_range) (use n [OF t] i in \<open>auto simp: cur_ok_def\<close>)
  then show "P (body i t)" unfolding body using upd [OF t] i by (intro aim) auto
qed (rule P)

end

text \<open>The on-demand and the conservative mutator meet the contract.\<close>

lemma aiming_mutators_keep:
  fixes s :: "'a dyn_st_scheme"
  assumes "mut_inv k s"
  shows "mut_inv k (ondemand env s) \<and> kept s (ondemand env s)"
    and "mut_inv k (conservative env s) \<and> kept s (conservative env s)"
proof -
  let ?P = "\<lambda>t. mut_inv k t \<and> kept s t"
  have upd: "?P (t\<lparr>prev_idle_time := p, od_new_cpu_state := w, cv_new_cpu_state := v\<rparr>)" if "?P t"
    for p w v and t :: "'a dyn_st_scheme"
    using that by (auto simp: mut_inv_def kept_def cur_ok_def)
  have aim: "?P (aim env i g t)" if "?P t" "0 \<le> i" "i < total_online_cpus s" "0 \<le> g" "g < total_states t"
    for i g and t :: "'a dyn_st_scheme"
    using aim_keeps [of k t i g env] that kept_trans [of s t] by (simp add: kept_def)
  have P: "total_online_cpus t = total_online_cpus s \<and> cur_ok t" if "?P t" for t :: "'a dyn_st_scheme"
    using that by (simp add: mut_inv_def kept_def)
  show "?P (ondemand env s)"
    unfolding ondemand_def by (rule od.aiming_pass [where P = ?P, OF _ P upd aim]) (use assms in simp_all)
  show "?P (conservative env s)"
    unfolding conservative_def by (rule cv.aiming_pass [where P = ?P, OF _ P upd aim]) (use assms in simp_all)
qed

interpretation od_mutator: mutator ondemand
  by unfold_locales (auto simp: aiming_mutators_keep
      intro: mut_inv_mono [OF aiming_mutators_keep(1) [THEN conjunct1]])

interpretation cv_mutator: mutator conservative
  by unfold_locales (auto simp: aiming_mutators_keep
      intro: mut_inv_mono [OF aiming_mutators_keep(2) [THEN conjunct1]])

subsection \<open>Applying the new states\<close>

text \<open>
  Both table-driven mutators apply their choice CPU by CPU; each step may add one to the sleep
  time of its own CPU only.
\<close>

lemma slept_loop:
  assumes Q: "Q s" and slept: "slept n k (info s)" and n: "0 \<le> n"
    and step: "\<And>i t. 0 \<le> i \<Longrightarrow> i < n \<Longrightarrow> Q t \<Longrightarrow> proc_ok (info t i) \<Longrightarrow> uint (sleep_time (info t i)) \<le> k \<Longrightarrow>
      Q (body i t) \<and> proc_ok (info (body i t) i) \<and> uint (sleep_time (info (body i t) i)) \<le> k + 1 \<and>
      (\<forall>c. c \<noteq> i \<longrightarrow> info (body i t) c = info t c)"
  shows "Q (for_up 0 n body s) \<and> slept n (k + 1) (info (for_up 0 n body s))"
proof -
  let ?I = "\<lambda>i t. Q t \<and> slept i (k + 1) (info t) \<and> (\<forall>c. i \<le> c \<longrightarrow> info t c = info s c)"
  have "?I n (for_up 0 n body s)"
  proof (rule for_up_inv [where P = ?I])
    fix i t assume i: "0 \<le> i" "i < n" and I: "?I i t"
    have here: "proc_ok (info t i)" "uint (sleep_time (info t i)) \<le> k"
      using I slept i by (auto simp: slept_def)
    note st = step [OF i conjunct1 [OF I] here]
    have "slept (i + 1) (k + 1) (info (body i t))"
      unfolding slept_def
    proof (intro allI impI)
      fix c assume c: "0 \<le> c \<and> c < i + 1"
      show "proc_ok (info (body i t) c) \<and> uint (sleep_time (info (body i t) c)) \<le> k + 1"
        using st I c by (cases "c = i") (auto simp: slept_def)
    qed
    then show "?I (i + 1) (body i t)" using st I by auto
  qed (use Q n in \<open>auto simp: slept_def\<close>)
  then show ?thesis by simp
qed

text \<open>One more interval asleep does not wrap the counter.\<close>

lemma sleep_longer:
  assumes "proc_ok p" and "awake p = 0" and "uint (sleep_time p) \<le> k" and "k + 2 < 2 ^ 32"
  shows "proc_ok (p\<lparr>sleep_time := sleep_time p + 1\<rparr>)" and "uint (sleep_time p + 1) \<le> k + 1"
proof -
  have "sleep_time p \<noteq> - 1" using assms(1,2) by (auto simp: proc_ok_def UINT_MAX_def)
  then have u: "uint (sleep_time p + 1) = uint (sleep_time p) + 1"
    using arg_cong [OF unat_word_inc, of "sleep_time p" int] by simp
  then show "uint (sleep_time p + 1) \<le> k + 1" using assms(3) by simp
  have "uint (sleep_time p + 1) < 2 ^ 32 - 1" using u assms(3,4) by simp
  moreover have "uint (- 1 :: u32) = 2 ^ 32 - 1" by (simp add: unsigned_minus_1_eq_mask mask_eq_exp_minus_1)
  ultimately have "sleep_time p + 1 \<noteq> - 1" by (metis less_irrefl)
  moreover have "sleep_time p + 1 \<noteq> 0"
  proof
    assume "sleep_time p + 1 = 0"
    then have "uint (sleep_time p) + 1 = 0" using u by simp
    then show False using uint_ge_0 [of "sleep_time p"] by linarith
  qed
  ultimately show "proc_ok (p\<lparr>sleep_time := sleep_time p + 1\<rparr>)"
    using assms(2) by (simp add: proc_ok_def UINT_MAX_def)
qed

definition apply_ok :: "'a dyn_st_scheme \<Rightarrow> 'a dyn_st_scheme \<Rightarrow> bool" where
  "apply_ok s t \<longleftrightarrow> cur_ok t \<and> kept s t \<and> dyn t = dyn s \<and> gd t = gd s \<and> timer_started t = timer_started s \<and>
     (\<forall>j. demand (states t j) = demand (states s j))"

lemma set_freq_apply_ok:
  assumes ok: "apply_ok s t" and i: "0 \<le> i" "i < 2 ^ 31" and st: "0 \<le> st" "st < total_states s" "total_states s < 2 ^ 31"
  shows "apply_ok s (snd (sched_set_freq env i st t)) \<and> info (snd (sched_set_freq env i st t)) = info t"
proof -
  have "cur_ok (snd (sched_set_freq env i st t))"
    by (rule sched_set_freq_cur_ok) (use ok i st in \<open>auto simp: apply_ok_def kept_def\<close>)
  moreover have "demand (states (snd (sched_set_freq env i st t)) j) = demand (states t j)" for j
    by (rule set_freq_demand) (use i st in auto)
  moreover have "timer_started (snd (sched_set_freq env i st t)) = timer_started t"
    by (rule freq_frameE [OF sched_set_freq_frame [of t env i st]]) simp
  ultimately show ?thesis
    using ok set_freq_kept [of t env i st] kept_trans by (auto simp: apply_ok_def)
qed

lemma slept_woken:
  assumes "slept n k f0" and "woken n f0 f" and "0 \<le> k"
  shows "slept n k f"
  unfolding slept_def
proof (intro allI impI)
  fix i assume "0 \<le> i \<and> i < n"
  then have "proc_ok (f0 i) \<and> uint (sleep_time (f0 i)) \<le> k" using assms(1) by (simp add: slept_def)
  moreover have "f i = f0 i \<or> f i = (f0 i)\<lparr>sleep_time := 0, awake := 1\<rparr>" using assms(2) by (auto simp: woken_def)
  ultimately show "proc_ok (f i) \<and> uint (sleep_time (f i)) \<le> k"
    using assms(3) by (auto simp: proc_ok_def)
qed

lemma wake_up_procs_slept:
  assumes "slept (total_online_cpus s) k (info s)" and "0 \<le> total_online_cpus s" "total_online_cpus s < 2 ^ 31" "0 \<le> k"
  obtains f where "wake_up_procs req s = s\<lparr>info := f\<rparr>" and "slept (total_online_cpus s) k f"
  using wake_up_procs_spec [OF slept_procs_ok [OF assms(1)] assms(2,3), of req thesis]
    slept_woken [OF assms(1) _ assms(4)] that by blast

lemma committed:
  fixes s :: "'a dyn_st_scheme" and ns :: "state_desc arr"
  assumes "mut_inv k s"
  defines "t \<equiv> commit_states ns s"
  shows "apply_ok t t" "kept s t" "info t = info s" "dyn t = dyn s" "gd t = gd s"
    "\<And>j. 0 \<le> j \<Longrightarrow> j < total_states s \<Longrightarrow> demand (states t j) = 0"
  using assms(1) by (auto simp: t_def commit_states_at apply_ok_def kept_def cur_ok_def mut_inv_def)

lemma log_entry_inv:
  fixes s :: "'a dyn_st_scheme"
  shows "mut_inv k (log_entry env e s) = mut_inv k s" and "kept r (log_entry env e s) = kept r s"
  by (rule log_entry_frame [of env e s], simp add: mut_inv_def kept_def cur_ok_def)+

text \<open>From the state committed to the end of the pass.\<close>

lemma pass_end:
  fixes s :: "'a dyn_st_scheme"
  assumes inv: "mut_inv k s" and k: "1 \<le> k" "k + 2 < 2 ^ 32"
    and step: "\<And>i t. 0 \<le> i \<Longrightarrow> i < total_online_cpus s \<Longrightarrow> apply_ok (commit_states ns s) t \<Longrightarrow>
      proc_ok (info t i) \<Longrightarrow> uint (sleep_time (info t i)) \<le> k \<Longrightarrow>
      apply_ok (commit_states ns s) (body i t) \<and> proc_ok (info (body i t) i) \<and>
      uint (sleep_time (info (body i t) i)) \<le> k + 1 \<and> (\<forall>c. c \<noteq> i \<longrightarrow> info (body i t) c = info t c)"
  shows "mut_inv (k + 1) (for_up 0 (total_online_cpus s) body (commit_states ns s)) \<and>
    kept s (for_up 0 (total_online_cpus s) body (commit_states ns s))"
proof -
  let ?c = "commit_states ns s" and ?t = "for_up 0 (total_online_cpus s) body (commit_states ns s)"
  note c = committed [OF inv, where ns = ns]
  have "apply_ok ?c ?t \<and> slept (total_online_cpus s) (k + 1) (info ?t)"
    by (rule slept_loop) (use c inv step in \<open>auto simp: mut_inv_def\<close>)
  then show ?thesis
    using inv c kept_trans [OF c(2), of ?t] by (auto simp: mut_inv_def apply_ok_def kept_def)
qed

lemma apply_cpu_step:
  fixes s :: "'a dyn_st_scheme"
  assumes ok: "apply_ok s t" and p: "proc_ok (info t i)" "uint (sleep_time (info t i)) \<le> k"
    and i: "0 \<le> i" "i < 2 ^ 31" and k: "1 \<le> k" "k + 2 < 2 ^ 32" and T: "1 \<le> total_states s" "total_states s < 2 ^ 31"
    and new: "0 \<le> new_cpu_state (gd s) i" "new_cpu_state (gd s) i < total_states s"
  shows "apply_ok s (apply_cpu env i t) \<and> proc_ok (info (apply_cpu env i t) i) \<and>
    uint (sleep_time (info (apply_cpu env i t) i)) \<le> k + 1 \<and>
    (\<forall>c. c \<noteq> i \<longrightarrow> info (apply_cpu env i t) c = info t c)"
proof -
  have gd: "gd t = gd s" using ok by (simp add: apply_ok_def)
  have upd: "apply_ok s (upd_info i f u)" if "apply_ok s u" for f and u :: "'a dyn_st_scheme"
    using that by (auto simp: apply_ok_def upd_info_def kept_def cur_ok_def)
  consider (sel) "selected_cpus (gd s) i = 0" | (still) "selected_cpus (gd s) i \<noteq> 0" "awake (info t i) = 0"
    | (down) "selected_cpus (gd s) i \<noteq> 0" "awake (info t i) \<noteq> 0" by blast
  then show ?thesis
  proof cases
    case sel
    let ?u = "upd_info i (\<lambda>p. p\<lparr>awake := 1\<rparr>) (upd_info i (\<lambda>p. p\<lparr>sleep_time := 0\<rparr>) t)"
    have run: "apply_cpu env i t = (if new_cpu_state (gd s) i \<noteq> cur_cpu_state t i
        then snd (sched_set_freq env i (new_cpu_state (gd s) i) ?u) else ?u)"
      using sel by (simp add: apply_cpu_def gd upd_info_def Let_def)
    have "apply_ok s ?u" by (intro upd ok)
    then show ?thesis
      using set_freq_apply_ok [of s ?u i "new_cpu_state (gd s) i" env] i new T k
      unfolding run by (auto simp: upd_info_def proc_ok_def)
  next
    case still
    then have run: "apply_cpu env i t = upd_info i (\<lambda>p. p\<lparr>sleep_time := sleep_time p + 1\<rparr>) t"
      by (simp add: apply_cpu_def gd)
    show ?thesis
      using upd [OF ok] sleep_longer [OF p(1) still(2) p(2) k(2)] unfolding run by (simp add: upd_info_def)
  next
    case down
    define u where "u = (if cur_cpu_state t i \<noteq> 0 then snd (sched_set_freq env i 0 t) else t)"
    have run: "apply_cpu env i t = upd_info i (\<lambda>p. p\<lparr>awake := 0, sleep_time := 1\<rparr>) u"
      using down by (simp add: apply_cpu_def gd u_def Let_def)
    have "apply_ok s u" "info u = info t"
      using set_freq_apply_ok [OF ok i, of 0 env] T ok by (simp_all add: u_def)
    then show ?thesis
      using upd [of u "\<lambda>p. p\<lparr>awake := 0, sleep_time := 1\<rparr>"] k unfolding run
      by (simp add: upd_info_def proc_ok_def UINT_MAX_def)
  qed
qed

lemma greedy_keeps:
  fixes s :: "'a dyn_st_scheme"
  assumes inv: "mut_inv k s" and k: "1 \<le> k" "k + 2 < 2 ^ 32"
  shows "mut_inv (k + 1) (greedy_delta env d s) \<and> kept s (greedy_delta env d s)"
proof -
  let ?n = "total_online_cpus s" and ?T = "total_states s"
  have b: "cur_ok s" "procs_ok ?n (info s)" "1 \<le> ?n" "0 \<le> ?n" "?n < 2 ^ 31" "1 \<le> ?T" "?T < 2 ^ 31"
      "slept ?n k (info s)"
    using inv slept_procs_ok by (auto simp: mut_inv_def)
  obtain v sel u where ch: "greedy_choose env d s = (v, sel, u)" by (cases "greedy_choose env d s")
  obtain e where auc: "auction_inv ?T ?n (cur_cpu_state s) d v e sel"
    using greedy_choose_spec [OF b(1,2,4,5) ch] by metis
  have "u = wake_up_procs (get_tasks_load env (s\<lparr>interval_count := interval_count s + 1\<rparr>)) (s\<lparr>interval_count := interval_count s + 1\<rparr>)"
    using ch by (simp add: greedy_choose_def Let_def split: prod.splits)
  then obtain f where u: "u = s\<lparr>interval_count := interval_count s + 1, info := f\<rparr>" and f: "slept ?n k f"
    using wake_up_procs_slept [of "s\<lparr>interval_count := interval_count s + 1\<rparr>" k] b k by auto
  have uT: "total_states u = ?T" "total_online_cpus u = ?n" by (simp_all add: u)
  define w where "w = provide_cpus ?T ?n v"
  have new: "0 \<le> new_cpu_state w j \<and> new_cpu_state w j < ?T" if "0 \<le> j" "j < ?n" for j
    using provide_cpus_spec [OF b(3,6), of v] auc that b(6) by (auto simp: w_def auction_inv_def split: if_splits)
  define r where "r = u\<lparr>gd := w\<rparr>"
  have r: "mut_inv k r" "kept s r" "total_online_cpus r = ?n" "total_states r = ?T" "gd r = w"
    using inv f by (auto simp: r_def u mut_inv_def kept_def cur_ok_def)
  have e: "\<exists>e. greedy_delta env d s = log_entry env e (for_up 0 (total_online_cpus r) (apply_cpu env) (commit_states (new_states w) r))"
    unfolding greedy_delta_def ch prod.case Let_def uT w_def [symmetric] r_def [symmetric] committed(2) [OF r(1), unfolded kept_def, THEN conjunct1]
    by (rule exI, rule refl)
  have "mut_inv (k + 1) (for_up 0 (total_online_cpus r) (apply_cpu env) (commit_states (new_states w) r)) \<and>
    kept r (for_up 0 (total_online_cpus r) (apply_cpu env) (commit_states (new_states w) r))"
  proof (rule pass_end [OF r(1) k])
    fix i and t :: "'a dyn_st_scheme"
    assume i: "0 \<le> i" "i < total_online_cpus r" and t: "apply_ok (commit_states (new_states w) r) t"
      and p: "proc_ok (info t i)" "uint (sleep_time (info t i)) \<le> k"
    show "apply_ok (commit_states (new_states w) r) (apply_cpu env i t) \<and> proc_ok (info (apply_cpu env i t) i) \<and>
      uint (sleep_time (info (apply_cpu env i t) i)) \<le> k + 1 \<and> (\<forall>c. c \<noteq> i \<longrightarrow> info (apply_cpu env i t) c = info t c)"
      by (rule apply_cpu_step [OF t p])
        (use i k r b new in \<open>auto simp: commit_states_at\<close>)
  qed
  then show ?thesis using e kept_trans [OF r(2)] by (auto simp: log_entry_inv)
qed

interpretation gd_mutator: mutator "\<lambda>env. greedy_delta env d"
  by unfold_locales (rule greedy_keeps)

subsection \<open>The dynamic-programming mutator\<close>

lemma retire_procs_slept:
  fixes p :: "int arr"
  assumes slept: "slept (total_online_cpus s) k (info s)" and n: "0 \<le> total_online_cpus s" and k: "1 \<le> k"
    and p: "\<And>c. 0 \<le> c \<Longrightarrow> c < total_online_cpus s \<Longrightarrow> 0 \<le> p c \<and> p c < total_online_cpus s"
  shows "\<exists>q r f. retire_procs env req q0 p s = (q, r, s\<lparr>info := f\<rparr>) \<and> slept (total_online_cpus s) k f \<and>
    (\<forall>c. 0 \<le> c \<and> c < total_online_cpus s \<longrightarrow> 0 \<le> r c \<and> r c < total_online_cpus s)"
proof (cases "awake_sum (total_online_cpus s) (info s) \<le> req")
  case True
  then have "retire_procs env req q0 p s = (q0, p, s\<lparr>info := info s\<rparr>)" by (simp add: retire_procs_def Let_def)
  then show ?thesis using slept p by blast
next
  case False
  let ?n = "total_online_cpus s"
  let ?st = "for_break 0 ?n (retire_step env req) (info s, q0, awake_sum ?n (info s))"
  have f: "slept ?n k (fst ?st)"
  proof (rule for_break_preserves [where P = "\<lambda>st. slept ?n k (fst st)"])
    fix i and st :: "proc_info arr \<times> int arr \<times> int" assume "slept ?n k (fst st)"
    then show "slept ?n k (fst (snd (retire_step env req i st)))"
      using k by (cases st) (auto simp: retire_step_def slept_def Let_def proc_ok_def UINT_MAX_def)
  qed (simp add: slept)
  have r: "0 \<le> fst (for_up 0 ?n (proxy_step (fst ?st)) (p, 0)) c \<and> fst (for_up 0 ?n (proxy_step (fst ?st)) (p, 0)) c < ?n"
    if c: "0 \<le> c" "c < ?n" for c
  proof (rule for_up_preserves [where P = "\<lambda>st. 0 \<le> fst st c \<and> fst st c < ?n"])
    fix i and st :: "int arr \<times> int" assume "0 \<le> i" "i < ?n" "0 \<le> fst st c \<and> fst st c < ?n"
    then show "0 \<le> fst (proxy_step (fst ?st) i st) c \<and> fst (proxy_step (fst ?st) i st) c < ?n"
      by (cases st) (auto simp: proxy_step_def)
  qed (use p c in simp)
  have "retire_procs env req q0 p s =
      (fst (snd ?st), fst (for_up 0 ?n (proxy_step (fst ?st)) (p, 0)), s\<lparr>info := fst ?st\<rparr>)"
    using False by (simp add: retire_procs_def Let_def split: prod.split)
  then show ?thesis using f r by blast
qed

lemma mck_range:
  assumes n: "1 \<le> n" "n \<le> N" and w: "0 \<le> w" and m: "0 \<le> m"
    and proxy: "\<And>c. 0 \<le> c \<Longrightarrow> c < N \<Longrightarrow> 0 \<le> cpu_awake_proxy v c \<and> cpu_awake_proxy v c < N"
    and cur: "\<And>c. 0 \<le> c \<Longrightarrow> c < N \<Longrightarrow> 0 \<le> cur c \<and> cur c < m"
    and dem: "\<And>j. 0 \<le> j \<Longrightarrow> j < m \<Longrightarrow> 1 \<le> dyn_demand v j"
    and new: "\<And>c. 0 \<le> c \<Longrightarrow> c < N \<Longrightarrow> 0 \<le> dyn_new_cpu_state v c \<and> dyn_new_cpu_state v c < m"
    and c: "0 \<le> c" "c < N"
  shows "0 \<le> dyn_new_cpu_state (mck n m w cur v) c \<and> dyn_new_cpu_state (mck n m w cur v) c < m"
proof -
  let ?W = "mck_weights n m cur (cpu_awake_proxy v) (wt v)"
  have "mck_problem n m ?W (dyn_demand v)"
    by (rule mck_weights_problem) (use n proxy cur dem in auto)
  from mck_backtrack_range [OF mck_table_ok [OF this n(1) m w] this w new c]
  show ?thesis by (simp add: mck_def Let_def)
qed

lemma dyn_choose_inv:
  fixes s :: "'a dyn_st_scheme"
  assumes inv: "mut_inv k s" and k: "1 \<le> k" "k + 2 < 2 ^ 32" and d: "0 \<le> d"
  shows "mut_inv k (dyn_choose env d s) \<and> kept s (dyn_choose env d s)"
proof -
  let ?N = "total_online_cpus s" and ?T = "total_states s"
  let ?s = "s\<lparr>interval_count := interval_count s + 1\<rparr>"
  define n where "n = (if get_tasks_load env ?s = 0 then 1 else get_tasks_load env ?s)"
  have n: "1 \<le> n" "n \<le> ?N"
    using get_tasks_load_bounds [of ?s env] inv by (auto simp: n_def mut_inv_def)
  define v0 where "v0 = (dyn s)\<lparr>dyn_new_states :=
      for_up 0 ?T (\<lambda>j a. a(j := (a j)\<lparr>cpus := 0, cpumask := {}\<rparr>)) (dyn_new_states (dyn s))\<rparr>"
  define v1 where "v1 = v0\<lparr>dyn_demand := for_up 0 ?T (\<lambda>j a. a(j := demand_get j ?s + 1)) (dyn_demand v0)\<rparr>"
  obtain f where f: "wake_up_procs n ?s = ?s\<lparr>info := f\<rparr>" "slept ?N k f"
    using wake_up_procs_slept [of ?s k n] inv k by (auto simp: mut_inv_def)
  have slept: "slept (total_online_cpus (?s\<lparr>info := f\<rparr>)) k (info (?s\<lparr>info := f\<rparr>))" using f(2) by simp
  have N: "0 \<le> total_online_cpus (?s\<lparr>info := f\<rparr>)" using inv by (simp add: mut_inv_def)
  have px: "0 \<le> cpu_awake_proxy v1 c \<and> cpu_awake_proxy v1 c < total_online_cpus (?s\<lparr>info := f\<rparr>)"
    if "0 \<le> c" "c < total_online_cpus (?s\<lparr>info := f\<rparr>)" for c
    using inv that by (simp add: mut_inv_def v0_def v1_def)
  obtain q r g where ret: "retire_procs env n (put_to_sleep v1) (cpu_awake_proxy v1) (?s\<lparr>info := f\<rparr>) =
      (q, r, ?s\<lparr>info := f\<rparr>\<lparr>info := g\<rparr>)" and g: "slept (total_online_cpus (?s\<lparr>info := f\<rparr>)) k g"
    and r: "\<And>c. 0 \<le> c \<Longrightarrow> c < total_online_cpus (?s\<lparr>info := f\<rparr>) \<Longrightarrow> 0 \<le> r c \<and> r c < total_online_cpus (?s\<lparr>info := f\<rparr>)"
    using retire_procs_slept [where env = env and req = n and ?q0.0 = "put_to_sleep v1" and p = "cpu_awake_proxy v1",
        OF slept N k(1) px] by blast
  define v2 where "v2 = v1\<lparr>put_to_sleep := q, cpu_awake_proxy := r\<rparr>"
  define v3 where "v3 = v2\<lparr>dyn_demand := delta_based_demand_transform ?T n d (cur_cpu_state s) (cpu_awake_proxy v2) (dyn_demand v2)\<rparr>"
  have run: "dyn_choose env d s = ?s\<lparr>info := g, dyn := mck n ?T d (cur_cpu_state s) v3\<rparr>"
    using f(1) ret by (simp add: dyn_choose_def Let_def n_def [symmetric] v0_def v1_def v2_def v3_def)
  have dem: "1 \<le> dyn_demand v3 j" if j: "0 \<le> j" "j < ?T" for j
  proof -
    have one: "1 \<le> dyn_demand v2 j" if "0 \<le> j" "j < ?T" for j
      using that inv by (simp add: v2_def v1_def for_up_fill demand_get_def mut_inv_def)
    have "dyn_demand v2 j \<le> dyn_demand v3 j"
    proof -
      have "0 \<le> dyn_demand v2 j" if "0 \<le> j" "j < ?T" for j using one [OF that] by simp
      from transfer_grows [where dem = "dyn_demand v2" and n = n and d = d and cur = "cur_cpu_state s"
          and proxy = "cpu_awake_proxy v2", OF this j]
      show ?thesis by (simp add: v3_def)
    qed
    with one [OF j] show ?thesis by simp
  qed
  have proxy: "cpu_awake_proxy (mck n ?T d (cur_cpu_state s) v3) = r" "cpu_awake_proxy v3 = r"
      "dyn_new_cpu_state v3 = dyn_new_cpu_state (dyn s)"
    by (simp_all add: mck_def Let_def v0_def v1_def v2_def v3_def)
  have new: "0 \<le> dyn_new_cpu_state (mck n ?T d (cur_cpu_state s) v3) c \<and>
      dyn_new_cpu_state (mck n ?T d (cur_cpu_state s) v3) c < ?T" if "0 \<le> c" "c < ?N" for c
    by (rule mck_range [OF n d]) (use inv that dem r proxy in \<open>simp_all add: mut_inv_def cur_ok_def\<close>)
  have g': "slept ?N k g" and r': "\<And>c. 0 \<le> c \<Longrightarrow> c < ?N \<Longrightarrow> 0 \<le> r c \<and> r c < ?N" using g r by simp_all
  have cur: "cur_ok (dyn_choose env d s)" using inv by (simp add: run mut_inv_def cur_ok_def)
  have kept: "kept s (dyn_choose env d s)" by (simp add: run kept_def)
  show ?thesis
    using inv g' new r' cur kept unfolding mut_inv_def by (simp add: run proxy)
qed

lemma dyn_apply_step:
  fixes s :: "'a dyn_st_scheme"
  assumes ok: "apply_ok s t" and p: "proc_ok (info t i)" "uint (sleep_time (info t i)) \<le> k"
    and i: "0 \<le> i" "i < 2 ^ 31" and k: "1 \<le> k" "k + 2 < 2 ^ 32" and T: "1 \<le> total_states s" "total_states s < 2 ^ 31"
    and new: "0 \<le> dyn_new_cpu_state (dyn s) i" "dyn_new_cpu_state (dyn s) i < total_states s"
  shows "apply_ok s (dyn_apply_cpu env i t) \<and> proc_ok (info (dyn_apply_cpu env i t) i) \<and>
    uint (sleep_time (info (dyn_apply_cpu env i t) i)) \<le> k + 1 \<and>
    (\<forall>c. c \<noteq> i \<longrightarrow> info (dyn_apply_cpu env i t) c = info t c)"
proof -
  define u where "u = (if put_to_sleep (dyn t) i = 1 then snd (sched_set_freq env i 0 t) else t)"
  have u: "apply_ok s u" "info u = info t"
    using set_freq_apply_ok [OF ok i, of 0 env] T ok by (simp_all add: u_def)
  have dyn: "dyn u = dyn s" using u by (simp add: apply_ok_def)
  show ?thesis
  proof (cases "awake (info t i) = 0")
    case True
    then have run: "dyn_apply_cpu env i t = upd_info i (\<lambda>p. p\<lparr>sleep_time := sleep_time p + 1\<rparr>) u"
      using u(2) by (simp add: dyn_apply_cpu_def u_def [symmetric] Let_def)
    have "apply_ok s (upd_info i (\<lambda>p. p\<lparr>sleep_time := sleep_time p + 1\<rparr>) u)"
      using u(1) by (auto simp: apply_ok_def upd_info_def kept_def cur_ok_def)
    then show ?thesis
      using sleep_longer [OF p(1) True p(2) k(2)] u(2) unfolding run by (simp add: upd_info_def)
  next
    case False
    then have run: "dyn_apply_cpu env i t = (if dyn_new_cpu_state (dyn s) i \<noteq> cur_cpu_state u i
        then snd (sched_set_freq env i (dyn_new_cpu_state (dyn s) i) u) else u)"
      using u(2) by (simp add: dyn_apply_cpu_def u_def [symmetric] Let_def dyn)
    show ?thesis
      using set_freq_apply_ok [OF u(1) i new T(2), of env] u p unfolding run by simp
  qed
qed

lemma place_loop:
  "dyn_new_cpu_state (for_up 0 n (place_step f) v) = dyn_new_cpu_state v \<and>
   cpu_awake_proxy (for_up 0 n (place_step f) v) = cpu_awake_proxy v"
  by (rule for_up_preserves [where P = "\<lambda>u. dyn_new_cpu_state u = dyn_new_cpu_state v \<and> cpu_awake_proxy u = cpu_awake_proxy v"])
    (simp_all add: place_step_def Let_def)

lemma dyn_keeps:
  fixes s :: "'a dyn_st_scheme"
  assumes inv: "mut_inv k s" and k: "1 \<le> k" "k + 2 < 2 ^ 32" and d: "0 \<le> d"
  shows "mut_inv (k + 1) (mem_dynamic_prog env d s) \<and> kept s (mem_dynamic_prog env d s)"
proof -
  define c where "c = dyn_choose env d s"
  have c: "mut_inv k c" "kept s c" using dyn_choose_inv [OF inv k d, of env] by (simp_all add: c_def)
  define r where "r = c\<lparr>dyn := for_up 0 (total_online_cpus c) (place_step (info c)) (dyn c)\<rparr>"
  have r: "mut_inv k r" "kept s r"
    using c place_loop [of "total_online_cpus c" "info c" "dyn c"] by (auto simp: r_def mut_inv_def kept_def cur_ok_def)
  let ?ns = "dyn_new_states (dyn r)"
  let ?t = "for_up 0 (total_online_cpus r) (dyn_apply_cpu env) (commit_states ?ns r)"
  have tot: "total_online_cpus (commit_states ?ns r) = total_online_cpus r" by (simp add: commit_states_at)
  have run: "mem_dynamic_prog env d s = log_entry env (mutator_entry (dyn_demand (dyn ?t)) ?t) ?t"
    unfolding mem_dynamic_prog_def Let_def c_def [symmetric] r_def [symmetric] tot by (rule refl)
  have "mut_inv (k + 1) ?t \<and> kept r ?t"
  proof (rule pass_end [OF r(1) k])
    fix i and t :: "'a dyn_st_scheme"
    assume i: "0 \<le> i" "i < total_online_cpus r" and t: "apply_ok (commit_states ?ns r) t"
      and p: "proc_ok (info t i)" "uint (sleep_time (info t i)) \<le> k"
    show "apply_ok (commit_states ?ns r) (dyn_apply_cpu env i t) \<and> proc_ok (info (dyn_apply_cpu env i t) i) \<and>
      uint (sleep_time (info (dyn_apply_cpu env i t) i)) \<le> k + 1 \<and>
      (\<forall>c. c \<noteq> i \<longrightarrow> info (dyn_apply_cpu env i t) c = info t c)"
      by (rule dyn_apply_step [OF t p])
        (use i k r(1) in \<open>auto simp: mut_inv_def commit_states_at\<close>)
  qed
  then show ?thesis using kept_trans [OF r(2)] unfolding run by (simp add: log_entry_inv)
qed

text \<open>Its interpretation needs a budget that is not negative; the invariant has it, the code does not
  check its module parameter.\<close>

interpretation dyn_mutator: mutator "\<lambda>env s. mem_dynamic_prog env (delta s) s"
proof (unfold_locales)
  fix k :: int and s :: "'a dyn_st_scheme" and env
  assume "mut_inv k s" "1 \<le> k" "k + 2 < 2 ^ 32"
  then show "mut_inv (k + 1) (mem_dynamic_prog env (delta s) s) \<and> kept s (mem_dynamic_prog env (delta s) s)"
    by (intro dyn_keeps) (simp_all add: mut_inv_def)
qed

subsection \<open>Ticks of the timer\<close>

lemma state_change_keeps:
  fixes s :: "'a dyn_st_scheme"
  assumes inv: "mut_inv k s" and k: "1 \<le> k" "k + 2 < 2 ^ 32"
  shows "mut_inv (k + 1) (state_change env s) \<and> kept s (state_change env s)"
proof -
  have pend: "mut_inv l (t\<lparr>state_work_pending := b\<rparr>) = mut_inv l t" "kept s (t\<lparr>state_work_pending := b\<rparr>) = kept s t"
      "mut_inv l (t\<lparr>timer_started := b\<rparr>) = mut_inv l t" "kept s (t\<lparr>timer_started := b\<rparr>) = kept s t"
    for l b and t :: "'a dyn_st_scheme"
    by (simp_all add: mut_inv_def kept_def cur_ok_def)
  have "mut_inv (k + 1) s" using mut_inv_mono [OF inv] by simp
  then show ?thesis
    using od_mutator.pass_inv [OF inv k, of env] cv_mutator.pass_inv [OF inv k, of env]
      gd_mutator.pass_inv [OF inv k, of env "delta s"] dyn_mutator.pass_inv [OF inv k, of env]
    by (simp add: state_change_def Let_def pend)
qed

interpretation ticks: mutator state_change
  by unfold_locales (rule state_change_keeps)

subsection \<open>Properties\<close>

definition ex_dyn :: dyn_st where
  "ex_dyn = gd_st.extend ex_gd (dyn_st.fields
     \<lparr>dyn_new_states = (\<lambda>i. ex_desc i {}), cpu_awake_proxy = (\<lambda>i. i), put_to_sleep = (\<lambda>_. 0),
       dyn_new_cpu_state = (\<lambda>_. 0), dyn_demand = (\<lambda>j. j + 1), dyna = (\<lambda>_ _. \<lparr>dyna_f = 0, dyna_sol = 0\<rparr>),
       wt = (\<lambda>_ _. 0)\<rparr>)"

lemmas ex_dyn_simps = ex_dyn_def ex_gd_simps dyn_st.defs

lemma ex_dyn_inv: "mut_inv 4 ex_dyn"
proof -
  have "cur_ok ex_dyn = cur_ok ex_gd" by (simp add: cur_ok_def ex_dyn_simps)
  moreover have "info ex_dyn = info ex_mut" "total_online_cpus ex_dyn = 2" "total_states ex_dyn = total_states ex_gd"
    by (simp_all add: ex_dyn_simps)
  moreover have "uint (sleep_time (info ex_mut i)) \<le> 4" for i by (simp add: ex_mut_simps)
  moreover have "0 \<le> demand (states ex_dyn j)" for j by (simp add: ex_dyn_simps ex_desc_def)
  moreover have "0 \<le> delta ex_dyn" "dyn_new_cpu_state (dyn ex_dyn) = (\<lambda>_. 0)" "cpu_awake_proxy (dyn ex_dyn) = (\<lambda>i. i)"
    by (simp_all add: ex_dyn_simps)
  ultimately show ?thesis
    using ex_gd_ok(1) ex_mut_procs ex_gd_bounds by (auto simp: mut_inv_def slept_def procs_ok_def)
qed

text \<open>
  C9: whichever mutator is configured, any sequence of ticks of the timer, each with its own answers of
  the kernel, of decisions about tasks and of frequency changes reported in between keeps every CPU
  in a state that exists, keeps the number of CPUs and states and keeps the invariant itself, so that
  sequences can be joined. The invariant: a module parameter \<open>delta\<close> that is not negative, at least
  one CPU and one state and fewer than 2^31, no negative demand, tables of the mutators in range and
  32-bit sleep counters of at most \<open>k\<close>; each tick adds at most one to a counter, and they must not
  run over.
\<close>
theorem ticks_keep_states:
  fixes s :: "'a dyn_st_scheme"
  assumes "mut_inv k s" and "1 \<le> k" and "k + ticks_in es + 1 < 2 ^ 32" and "t = fold (tick_step state_change) es s"
  shows "cur_ok t \<and> total_states t = total_states s \<and> total_online_cpus t = total_online_cpus s \<and>
    mut_inv (k + ticks_in es) t"
proof -
  have t: "mut_inv (k + ticks_in es) t" "kept s t" using ticks.passes_inv [OF assms(1-3)] by (simp_all add: assms(4))
  from t(1) have "cur_ok t" by (simp add: mut_inv_def)
  with t show ?thesis by (simp add: kept_def)
qed

lemma ticks_keep_states_witness:
  "cur_ok (fold (tick_step state_change)
     [Tick ex_env, Decided 1, Tick (ex_env\<lparr>HZ := 250\<rparr>), Informed ex_env 0 1, Tick ex_env] ex_dyn)"
  by (rule ticks_keep_states [OF ex_dyn_inv _ _ refl, THEN conjunct1]) simp_all

text \<open>
  C2: The knapsack of \<open>mck\<close> gives each of the first \<open>n\<close> awake CPUs a state that exists, at a
  total distance from the current states of at most \<open>w\<close>, and no other choice of states within
  that budget adds up to more demand.
\<close>
theorem mck_optimal:
  fixes v :: dyn_vars
  assumes "1 \<le> n" and "0 \<le> w" and "0 \<le> m" and "inj_on (cpu_awake_proxy v) {0..<n}"
    and "\<And>i. 0 \<le> i \<Longrightarrow> i < n \<Longrightarrow> 0 \<le> cur (cpu_awake_proxy v i) \<and> cur (cpu_awake_proxy v i) < m"
    and "\<And>j. 0 \<le> j \<Longrightarrow> j < m \<Longrightarrow> 1 \<le> dyn_demand v j"
  shows "let new = \<lambda>c. dyn_new_cpu_state (mck n m w cur v) (cpu_awake_proxy v c);
      cost = \<lambda>a. \<Sum>c\<in>{0..<n}. \<bar>a c - cur (cpu_awake_proxy v c)\<bar>
    in choice_ok n m new \<and> cost new \<le> w \<and>
      (\<forall>a. choice_ok n m a \<and> cost a \<le> w \<longrightarrow>
        (\<Sum>c\<in>{0..<n}. dyn_demand v (a c)) \<le> (\<Sum>c\<in>{0..<n}. dyn_demand v (new c)))"
  unfolding Let_def by (rule mck_result) (use assms in auto)

lemma mck_optimal_witness:
  "(\<Sum>c\<in>{0..<2}. \<bar>dyn_new_cpu_state (mck 2 3 1 (\<lambda>_. 1) (dyn ex_dyn)) c - 1\<bar>) \<le> 1 \<and>
   5 \<le> (\<Sum>c\<in>{0..<2}. dyn_new_cpu_state (mck 2 3 1 (\<lambda>_. 1) (dyn ex_dyn)) c + 1)"
proof -
  have d: "cpu_awake_proxy (dyn ex_dyn) = (\<lambda>i. i)" "dyn_demand (dyn ex_dyn) = (\<lambda>j. j + 1)"
    by (simp_all add: ex_dyn_simps)
  have two: "{0..<2} = {0, 1 :: int}" by auto
  have "choice_ok 2 3 (\<lambda>c. if c = 0 then 2 else 1)" by (simp add: choice_ok_def)
  moreover have "(\<Sum>c\<in>{0..<2::int}. \<bar>(if c = 0 then 2 else 1) - 1\<bar>) \<le> (1 :: int)" unfolding two by simp
  moreover have "(\<Sum>c\<in>{0..<2::int}. (if c = 0 then 2 else 1) + 1) = (5 :: int)" unfolding two by simp
  moreover note mck_optimal [of 2 1 3 "dyn ex_dyn" "\<lambda>_. 1"]
  ultimately show ?thesis
    unfolding d Let_def by (auto simp: inj_on_def dest!: spec [of _ "\<lambda>c. if c = 0 then 2 else 1"])
qed

text \<open>
  The transformation of the demand never takes demand away from a state: what the
  comment calls a transfer leaves the demand of the state it comes from in place.
\<close>
theorem demand_transform_only_adds:
  assumes "\<And>j. 0 \<le> j \<Longrightarrow> j < T \<Longrightarrow> 0 \<le> dem j" and "0 \<le> k" and "k < T"
  shows "dem k \<le> delta_based_demand_transform T n d cur proxy dem k"
  by (rule transfer_grows) (use assms in auto)

lemma demand_transform_only_adds_witness:
  "4 \<le> delta_based_demand_transform 3 1 0 (\<lambda>_. 0) (\<lambda>i. i) ((\<lambda>_. 0)(2 := 4)) 2 \<and>
   delta_based_demand_transform 3 1 0 (\<lambda>_. 0) (\<lambda>i. i) ((\<lambda>_. 0)(2 := 4)) 0 = 4"
  using demand_transform_only_adds [of 3 "(\<lambda>_. 0)(2 := 4)" 2 1 0 "\<lambda>_. 0" "\<lambda>i. i"]
  by (simp add: delta_based_demand_transform_def can_win_step_def transfer_step_def Let_def
      for_up.simps for_break.simps first_up.simps first_down.simps)

end
