(* ===== verification/Migrate.thy ===== *)
theory Migrate
  imports Mutator "HOL-Library.Multiset"
begin

text \<open>
  Migrating tasks from a kernel module (\<open>Module/seeker-scheduler/migrate.c\<close>). The scheduler may not
  migrate a task from inside a probe, so it leaves a work item in a pool of \<open>MIG_POOL_SIZE\<close> slots; the
  kernel's work queue later runs \<open>change_cpus\<close> on the slot. Abstractly the pool is a bounded
  multiset of requested migrations, which is what the locale \<open>migration_pool\<close> promises.

  The task structs live in a store indexed by their address; the members the kernel patch adds are
  fields of the record. The handlers run to completion, so the pool's lock is held only inside one of
  them; the one routine that leaves its critical section before it is done is split at that point.
\<close>

subsection \<open>State\<close>

record task_struct =
  pid :: int
  comm :: string
  cpus_allowed :: "int set"
  need_resched :: bool
  seeker_scheduled :: int
  fixed_state :: int
  cpustate :: int
  interval :: u64
  inst :: u64
  re_cy :: u64
  ref_cy :: u64
  hist_step :: int

record mask_work =
  pending :: bool
  mw_task :: "nat option"
  mw_mask :: "int set"
  mw_free :: int

record mig_st = dyn_st +
  tasks :: "nat \<Rightarrow> task_struct"
  mig_pool :: "mask_work arr"

definition MIG_POOL_SIZE :: "kenv \<Rightarrow> int" where "MIG_POOL_SIZE env = NR_CPUS env * 8"

definition upd_task :: "nat \<Rightarrow> (task_struct \<Rightarrow> task_struct) \<Rightarrow> 'a mig_st_scheme \<Rightarrow> 'a mig_st_scheme" where
  "upd_task a f s = s\<lparr>tasks := (tasks s)(a := f (tasks s a))\<rparr>"

definition upd_slot :: "int \<Rightarrow> (mask_work \<Rightarrow> mask_work) \<Rightarrow> 'a mig_st_scheme \<Rightarrow> 'a mig_st_scheme" where
  "upd_slot i f s = s\<lparr>mig_pool := (mig_pool s)(i := f (mig_pool s i))\<rparr>"

subsection \<open>Operations\<close>

text \<open>\<open>None\<close> is a NULL dereference.\<close>

definition change_cpus :: "kenv \<Rightarrow> int \<Rightarrow> 'a mig_st_scheme \<Rightarrow> 'a mig_st_scheme option" where
  "change_cpus env i s =
     (let mw = mig_pool s i in
      if mw_free mw = 1 then Some s
      else
        (case mw_task mw of
           None \<Rightarrow> None
         | Some ts \<Rightarrow>
             let s = (if mw_mask mw = cpus_allowed (tasks s ts) then s
                      else upd_task ts (\<lambda>t. t\<lparr>cpus_allowed :=
                             set_cpus_allowed_ptr env ts (cpus_allowed t) (mw_mask mw)\<rparr>) s)
             in Some (upd_slot i (\<lambda>mw. mw\<lparr>mw_free := 1\<rparr>) s)))"

text \<open>The work queue takes a pending item off its list before it runs it.\<close>

definition run_work :: "kenv \<Rightarrow> int \<Rightarrow> 'a mig_st_scheme \<Rightarrow> 'a mig_st_scheme option" where
  "run_work env i s =
     (if pending (mig_pool s i) then change_cpus env i (upd_slot i (\<lambda>mw. mw\<lparr>pending := False\<rparr>) s)
      else Some s)"

definition init_mig_pool :: "kenv \<Rightarrow> 'a mig_st_scheme \<Rightarrow> 'a mig_st_scheme" where
  "init_mig_pool env s =
     for_up 0 (MIG_POOL_SIZE env) (\<lambda>i. upd_slot i (\<lambda>mw. mw\<lparr>pending := False, mw_free := 1\<rparr>)) s"

definition exit_mig_pool :: "kenv \<Rightarrow> 'a mig_st_scheme \<Rightarrow> 'a mig_st_scheme" where
  "exit_mig_pool env s =
     for_up 0 (MIG_POOL_SIZE env)
       (\<lambda>i s. if mw_free (mig_pool s i) = 1 then upd_slot i (\<lambda>mw. mw\<lparr>mw_free := 0\<rparr>) s
              else upd_slot i (\<lambda>mw. mw\<lparr>pending := False, mw_free := 0\<rparr>) s) s"

text \<open>\<open>put_work\<close> claims a slot under the lock (\<open>-1\<close> when there is none) and fills it after releasing it.\<close>

definition put_work_claim :: "kenv \<Rightarrow> 'a mig_st_scheme \<Rightarrow> int \<times> 'a mig_st_scheme" where
  "put_work_claim env s =
     (let i = first_up (\<lambda>i. mw_free (mig_pool s i) = 1) 0 (MIG_POOL_SIZE env)
      in if i = - 1 then (i, s) else (i, upd_slot i (\<lambda>mw. mw\<lparr>mw_free := 0\<rparr>) s))"

definition put_work_fill :: "int \<Rightarrow> nat \<Rightarrow> int set \<Rightarrow> 'a mig_st_scheme \<Rightarrow> 'a mig_st_scheme" where
  "put_work_fill i ts m s =
     upd_slot i (\<lambda>mw. mw\<lparr>mw_mask := m, mw_task := Some ts, pending := True\<rparr>) s"

definition put_work :: "kenv \<Rightarrow> nat \<Rightarrow> int set \<Rightarrow> 'a mig_st_scheme \<Rightarrow> 'a mig_st_scheme" where
  "put_work env ts m s =
     (case put_work_claim env s of (i, s) \<Rightarrow> if i = - 1 then s else put_work_fill i ts m s)"

definition cancel_step :: "nat \<Rightarrow> int \<Rightarrow> 'a mig_st_scheme \<Rightarrow> 'a mig_st_scheme option" where
  "cancel_step ts i s =
     (if mw_free (mig_pool s i) = 0 then
        (case mw_task (mig_pool s i) of
           None \<Rightarrow> None
         | Some a \<Rightarrow>
             if pid (tasks s ts) = pid (tasks s a)
             then Some (upd_slot i (\<lambda>mw. mw\<lparr>pending := False, mw_free := 1\<rparr>) s) else Some s)
      else Some s)"

definition cancel_task_work :: "kenv \<Rightarrow> nat \<Rightarrow> 'a mig_st_scheme \<Rightarrow> 'a mig_st_scheme option" where
  "cancel_task_work env ts s =
     for_up 0 (MIG_POOL_SIZE env) (\<lambda>i r. Option.bind r (cancel_step ts i)) (Some s)"

subsection \<open>The pool as a bounded multiset\<close>

definition slot_ok :: "mask_work \<Rightarrow> bool" where
  "slot_ok w \<longleftrightarrow> (mw_free w = 0 \<or> mw_free w = 1) \<and> (pending w \<longleftrightarrow> mw_free w = 0) \<and>
     (mw_free w = 0 \<longrightarrow> mw_task w \<noteq> None)"

definition pool_ok :: "kenv \<Rightarrow> 'a mig_st_scheme \<Rightarrow> bool" where
  "pool_ok env s \<longleftrightarrow> (\<forall>i. 0 \<le> i \<and> i < MIG_POOL_SIZE env \<longrightarrow> slot_ok (mig_pool s i))"

definition used_slots :: "kenv \<Rightarrow> 'a mig_st_scheme \<Rightarrow> int set" where
  "used_slots env s = {i \<in> {0..<MIG_POOL_SIZE env}. mw_free (mig_pool s i) = 0}"

definition request_of :: "mask_work \<Rightarrow> nat \<times> int set" where
  "request_of w = (the (mw_task w), mw_mask w)"

definition requests :: "kenv \<Rightarrow> 'a mig_st_scheme \<Rightarrow> (nat \<times> int set) multiset" where
  "requests env s = image_mset (\<lambda>i. request_of (mig_pool s i)) (mset_set (used_slots env s))"

lemma finite_used [simp]: "finite (used_slots env s)"
  by (rule finite_subset [of _ "{0..<MIG_POOL_SIZE env}"]) (auto simp: used_slots_def)

lemma used_free: "i \<in> used_slots env s \<Longrightarrow> mw_free (mig_pool s i) = 0"
  by (simp add: used_slots_def)

lemma size_requests: "size (requests env s) = card (used_slots env s)"
  by (simp add: requests_def)

lemma size_requests_le: "size (requests env s) \<le> nat (MIG_POOL_SIZE env)"
proof -
  have "card (used_slots env s) \<le> card {0..<MIG_POOL_SIZE env}"
    by (rule card_mono) (auto simp: used_slots_def)
  then show ?thesis by (simp add: size_requests)
qed

text \<open>The pool is full when every slot is used.\<close>

lemma no_free_slot:
  assumes "\<And>k. 0 \<le> k \<Longrightarrow> k < MIG_POOL_SIZE env \<Longrightarrow> mw_free (mig_pool s k) \<noteq> 1" and "pool_ok env s"
  shows "size (requests env s) = nat (MIG_POOL_SIZE env)"
proof -
  have "used_slots env s = {0..<MIG_POOL_SIZE env}"
    using assms by (auto simp: used_slots_def pool_ok_def slot_ok_def)
  then show ?thesis by (simp add: size_requests)
qed

lemma free_slot:
  assumes "0 \<le> i" "i < MIG_POOL_SIZE env" "mw_free (mig_pool s i) = 1"
  shows "size (requests env s) < nat (MIG_POOL_SIZE env)"
proof -
  have "i \<notin> used_slots env s" "i \<in> {0..<MIG_POOL_SIZE env}" "used_slots env s \<subseteq> {0..<MIG_POOL_SIZE env}"
    using assms by (auto simp: used_slots_def)
  then have "used_slots env s \<subset> {0..<MIG_POOL_SIZE env}" by blast
  then have "card (used_slots env s) < card {0..<MIG_POOL_SIZE env}"
    by (intro psubset_card_mono) auto
  then show ?thesis by (simp add: size_requests)
qed

text \<open>Changing one slot: taking a free one adds a request, freeing a used one removes it.\<close>

lemma requests_take:
  assumes i: "0 \<le> i" "i < MIG_POOL_SIZE env" and f: "mw_free (mig_pool s i) \<noteq> 0" "mw_free w = 0"
    and p: "mig_pool t = (mig_pool s)(i := w)"
  shows "requests env t = add_mset (request_of w) (requests env s)"
proof -
  have u: "used_slots env t = insert i (used_slots env s)" "i \<notin> used_slots env s"
    using i f p by (auto simp: used_slots_def)
  have "image_mset (\<lambda>j. request_of (mig_pool t j)) (mset_set (used_slots env s)) = requests env s"
    unfolding requests_def by (rule image_mset_cong) (use u p in auto)
  then show ?thesis using u p by (simp add: requests_def)
qed

lemma requests_release:
  assumes i: "0 \<le> i" "i < MIG_POOL_SIZE env" and f: "mw_free (mig_pool s i) = 0" "mw_free w \<noteq> 0"
    and p: "mig_pool t = (mig_pool s)(i := w)"
  shows "requests env s = add_mset (request_of (mig_pool s i)) (requests env t)"
  by (rule requests_take [OF i, of t]) (use f p in auto)

lemma pool_ok_upd:
  "pool_ok env s \<Longrightarrow> mig_pool t = (mig_pool s)(i := w) \<Longrightarrow> slot_ok w \<Longrightarrow> pool_ok env t"
  by (simp add: pool_ok_def)


subsection \<open>Each operation on the multiset\<close>

lemma put_work_requests:
  assumes ok: "pool_ok env s"
  shows "pool_ok env (put_work env ts m s) \<and> tasks (put_work env ts m s) = tasks s \<and>
    requests env (put_work env ts m s) =
      (if size (requests env s) < nat (MIG_POOL_SIZE env) then add_mset (ts, m) (requests env s)
       else requests env s)"
proof -
  let ?i = "first_up (\<lambda>i. mw_free (mig_pool s i) = 1) 0 (MIG_POOL_SIZE env)"
  let ?w = "\<lparr>pending = True, mw_task = Some ts, mw_mask = m, mw_free = 0\<rparr>"
  show ?thesis
  proof (cases rule: first_up_cases [where i = 0 and p = "\<lambda>i. mw_free (mig_pool s i) = 1" and
        n = "MIG_POOL_SIZE env", OF order_refl, case_names none hit])
    case none
    then have "put_work env ts m s = s" by (simp add: put_work_def put_work_claim_def)
    moreover have "size (requests env s) = nat (MIG_POOL_SIZE env)"
      by (rule no_free_slot [OF _ ok]) (use none in blast)
    ultimately show ?thesis using ok by simp
  next
    case hit
    then have pool: "mig_pool (put_work env ts m s) = (mig_pool s)(?i := ?w)"
        "tasks (put_work env ts m s) = tasks s"
      by (auto simp: put_work_def put_work_claim_def put_work_fill_def upd_slot_def Let_def)
    have "slot_ok ?w" by (simp add: slot_ok_def)
    then show ?thesis
      using pool_ok_upd [OF ok pool(1)] requests_take [OF hit(1,2) _ _ pool(1)] free_slot [OF hit(1-3)]
        hit(3) pool(2)
      by (simp add: request_of_def)
  qed
qed

lemma run_work_requests:
  assumes ok: "pool_ok env s" and i: "0 \<le> i" "i < MIG_POOL_SIZE env" and p: "pending (mig_pool s i)"
  shows "\<exists>t a m. run_work env i s = Some t \<and> pool_ok env t \<and>
    requests env s = add_mset (a, m) (requests env t) \<and>
    tasks t = (tasks s)(a := (tasks s a)\<lparr>cpus_allowed :=
      if m = cpus_allowed (tasks s a) then m else set_cpus_allowed_ptr env a (cpus_allowed (tasks s a)) m\<rparr>)"
proof -
  let ?w = "mig_pool s i"
  have w: "mw_free ?w = 0" "slot_ok ?w" using ok i p by (auto simp: pool_ok_def slot_ok_def)
  then obtain a where a: "mw_task ?w = Some a" by (auto simp: slot_ok_def)
  let ?v = "?w\<lparr>pending := False, mw_free := 1\<rparr>"
  obtain t where t: "run_work env i s = Some t" "mig_pool t = (mig_pool s)(i := ?v)"
      "tasks t = (tasks s)(a := (tasks s a)\<lparr>cpus_allowed :=
        if mw_mask ?w = cpus_allowed (tasks s a) then mw_mask ?w
        else set_cpus_allowed_ptr env a (cpus_allowed (tasks s a)) (mw_mask ?w)\<rparr>)"
    using p w(1) a
    by (cases "mw_mask ?w = cpus_allowed (tasks s a)")
      (auto simp: run_work_def change_cpus_def upd_slot_def upd_task_def Let_def)
  have "slot_ok ?v" by (simp add: slot_ok_def)
  then have "pool_ok env t" using pool_ok_upd [OF ok t(2)] by blast
  moreover have "requests env s = add_mset (a, mw_mask ?w) (requests env t)"
    using requests_release [OF i w(1) _ t(2)] a by (simp add: request_of_def)
  ultimately show ?thesis using t(1,3) by blast
qed

text \<open>The loop of \<open>cancel_task_work\<close> releases the slots of the task's pid, one by one.\<close>

definition used_by :: "nat \<Rightarrow> 'a mig_st_scheme \<Rightarrow> int \<Rightarrow> bool" where
  "used_by ts s i \<longleftrightarrow> mw_free (mig_pool s i) = 0 \<and>
     pid (tasks s (the (mw_task (mig_pool s i)))) = pid (tasks s ts)"

definition release :: "mask_work \<Rightarrow> mask_work" where
  "release w = w\<lparr>pending := False, mw_free := 1\<rparr>"

definition filled :: "kenv \<Rightarrow> 'a mig_st_scheme \<Rightarrow> bool" where
  "filled env s \<longleftrightarrow> (\<forall>i \<in> {0..<MIG_POOL_SIZE env}. mw_free (mig_pool s i) = 0 \<longrightarrow> mw_task (mig_pool s i) \<noteq> None)"

lemma pool_filled: "pool_ok env s \<Longrightarrow> filled env s"
  by (auto simp: pool_ok_def slot_ok_def filled_def)

lemma cancel_step_slot:
  "mw_free (mig_pool s i) = 0 \<longrightarrow> mw_task (mig_pool s i) \<noteq> None \<Longrightarrow>
   cancel_step ts i s = Some (if used_by ts s i then upd_slot i release s else s)"
  by (auto simp: cancel_step_def used_by_def upd_slot_def release_def split: option.split)

lemma cancel_task_work_eq:
  assumes "filled env s"
  shows "cancel_task_work env ts s =
    Some (s\<lparr>mig_pool := (\<lambda>k. if 0 \<le> k \<and> k < MIG_POOL_SIZE env \<and> used_by ts s k
                              then release (mig_pool s k) else mig_pool s k)\<rparr>)"
proof (cases "0 \<le> MIG_POOL_SIZE env")
  case True
  let ?upto = "\<lambda>j. s\<lparr>mig_pool := (\<lambda>k. if 0 \<le> k \<and> k < j \<and> used_by ts s k
                              then release (mig_pool s k) else mig_pool s k)\<rparr>"
  show ?thesis unfolding cancel_task_work_def
  proof (rule for_up_inv [where P = "\<lambda>j r. r = Some (?upto j)", OF _ True])
    fix j r assume j: "0 \<le> j" "j < MIG_POOL_SIZE env" and r: "r = Some (?upto j)"
    have "mw_free (mig_pool (?upto j) j) = 0 \<longrightarrow> mw_task (mig_pool (?upto j) j) \<noteq> None"
      using assms j by (simp add: filled_def)
    note step = cancel_step_slot [OF this, of ts]
    have "used_by ts (?upto j) j = used_by ts s j" by (simp add: used_by_def)
    then show "Option.bind r (cancel_step ts j) = Some (?upto (j + 1))"
      unfolding r step Option.bind.bind_lunit using j(1) by (auto simp: upd_slot_def fun_eq_iff)
  next
    have "(\<lambda>k. if 0 \<le> k \<and> k < 0 \<and> used_by ts s k then release (mig_pool s k) else mig_pool s k) = mig_pool s"
      by (rule ext) auto
    then show "Some s = Some (?upto 0)" by simp
  qed
next
  case False
  then have "(\<lambda>k. if 0 \<le> k \<and> k < MIG_POOL_SIZE env \<and> used_by ts s k then release (mig_pool s k)
      else mig_pool s k) = mig_pool s"
    by (intro ext) auto
  with False show ?thesis by (simp add: cancel_task_work_def)
qed

lemma cancel_requests:
  assumes ok: "pool_ok env s"
  shows "\<exists>t. cancel_task_work env ts s = Some t \<and> pool_ok env t \<and> tasks t = tasks s \<and>
    requests env t = filter_mset (\<lambda>(a, m). pid (tasks s a) \<noteq> pid (tasks s ts)) (requests env s)"
proof -
  let ?p = "\<lambda>k. if 0 \<le> k \<and> k < MIG_POOL_SIZE env \<and> used_by ts s k then release (mig_pool s k) else mig_pool s k"
  let ?t = "s\<lparr>mig_pool := ?p\<rparr>"
  have "pool_ok env ?t" using ok by (simp add: pool_ok_def slot_ok_def release_def)
  moreover have "requests env ?t = filter_mset (\<lambda>(a, m). pid (tasks s a) \<noteq> pid (tasks s ts)) (requests env s)"
  proof -
    have u: "used_slots env ?t = {i \<in> used_slots env s. \<not> used_by ts s i}"
      by (auto simp: used_slots_def release_def)
    have "requests env ?t = image_mset (\<lambda>i. request_of (mig_pool s i)) (mset_set (used_slots env ?t))"
      unfolding requests_def by (rule image_mset_cong) (auto simp: u)
    also have "\<dots> = image_mset (\<lambda>i. request_of (mig_pool s i))
        (filter_mset (\<lambda>i. \<not> used_by ts s i) (mset_set (used_slots env s)))"
      by (simp add: u filter_mset_mset_set)
    also have "filter_mset (\<lambda>i. \<not> used_by ts s i) (mset_set (used_slots env s)) =
        filter_mset (\<lambda>i. case request_of (mig_pool s i) of (a, m) \<Rightarrow> pid (tasks s a) \<noteq> pid (tasks s ts))
          (mset_set (used_slots env s))"
      by (rule filter_mset_cong [OF refl]) (auto simp: used_by_def request_of_def dest: used_free)
    finally show ?thesis by (simp add: requests_def filter_mset_image_mset)
  qed
  ultimately show ?thesis using cancel_task_work_eq [OF pool_filled [OF ok], of ts] by auto
qed


text \<open>Setting up and tearing down are loops over the slots.\<close>

lemma slots_loop:
  assumes "0 \<le> n"
  shows "for_up 0 n (\<lambda>i. upd_slot i g) s =
    s\<lparr>mig_pool := (\<lambda>k. if 0 \<le> k \<and> k < n then g (mig_pool s k) else mig_pool s k)\<rparr>"
proof -
  let ?upto = "\<lambda>j. s\<lparr>mig_pool := (\<lambda>k. if 0 \<le> k \<and> k < j then g (mig_pool s k) else mig_pool s k)\<rparr>"
  show ?thesis
  proof (rule for_up_inv [where P = "\<lambda>j t. t = ?upto j", OF _ assms])
    have "(\<lambda>k. if 0 \<le> k \<and> k < (0::int) then g (mig_pool s k) else mig_pool s k) = mig_pool s"
      by (rule ext) auto
    then show "s = ?upto 0" by simp
  qed (auto simp: upd_slot_def fun_eq_iff)
qed

lemma pool_size_nonneg: "0 \<le> NR_CPUS env \<Longrightarrow> 0 \<le> MIG_POOL_SIZE env"
  by (simp add: MIG_POOL_SIZE_def)

lemma init_mig_pool_pool:
  "0 \<le> NR_CPUS env \<Longrightarrow> init_mig_pool env s = s\<lparr>mig_pool := (\<lambda>k. if 0 \<le> k \<and> k < MIG_POOL_SIZE env
    then release (mig_pool s k) else mig_pool s k)\<rparr>"
  unfolding init_mig_pool_def release_def by (simp add: slots_loop pool_size_nonneg)

lemma exit_mig_pool_pool:
  fixes s :: "'a mig_st_scheme"
  assumes "0 \<le> NR_CPUS env"
  shows "exit_mig_pool env s = s\<lparr>mig_pool := (\<lambda>k. if 0 \<le> k \<and> k < MIG_POOL_SIZE env
    then (mig_pool s k)\<lparr>pending := pending (mig_pool s k) \<and> mw_free (mig_pool s k) = 1, mw_free := 0\<rparr>
    else mig_pool s k)\<rparr>"
proof -
  have "(\<lambda>i (s :: 'a mig_st_scheme). if mw_free (mig_pool s i) = 1 then upd_slot i (\<lambda>mw. mw\<lparr>mw_free := 0\<rparr>) s
              else upd_slot i (\<lambda>mw. mw\<lparr>pending := False, mw_free := 0\<rparr>) s) =
     (\<lambda>i. upd_slot i (\<lambda>mw. mw\<lparr>pending := pending mw \<and> mw_free mw = 1, mw_free := 0\<rparr>))"
    by (intro ext) (auto simp: upd_slot_def)
  then show ?thesis using assms unfolding exit_mig_pool_def by (simp add: slots_loop pool_size_nonneg)
qed

lemma init_mig_pool_requests:
  assumes "0 \<le> NR_CPUS env"
  shows "pool_ok env (init_mig_pool env s) \<and> requests env (init_mig_pool env s) = {#}"
  using assms
  by (auto simp: init_mig_pool_pool pool_ok_def slot_ok_def release_def requests_def used_slots_def mset_set_empty_iff)

lemma exit_mig_pool_idle:
  assumes "0 \<le> NR_CPUS env" "pool_ok env s" and "0 \<le> i" and "i < MIG_POOL_SIZE env"
  shows "\<not> pending (mig_pool (exit_mig_pool env s) i) \<and> mw_free (mig_pool (exit_mig_pool env s) i) = 0"
  using assms by (auto simp: exit_mig_pool_pool pool_ok_def slot_ok_def)

subsection \<open>The contract\<close>

text \<open>
  What the probes rely on: a bounded multiset of requested migrations. \<open>who\<close> identifies a task in a
  given state (by its pid).
\<close>

locale migration_pool =
  fixes ok :: "'s \<Rightarrow> bool" and reqs :: "'s \<Rightarrow> ('t \<times> 'm) multiset" and cap :: nat
    and who :: "'s \<Rightarrow> 't \<Rightarrow> int"
    and put :: "'t \<Rightarrow> 'm \<Rightarrow> 's \<Rightarrow> 's" and cancel :: "'t \<Rightarrow> 's \<Rightarrow> 's option"
  assumes put_ok: "ok s \<Longrightarrow> ok (put t m s)"
    and put_who: "ok s \<Longrightarrow> who (put t m s) = who s"
    and put_reqs: "ok s \<Longrightarrow> reqs (put t m s) =
      (if size (reqs s) < cap then add_mset (t, m) (reqs s) else reqs s)"
    and cancel_runs: "ok s \<Longrightarrow> \<exists>s'. cancel t s = Some s' \<and> ok s' \<and> who s' = who s \<and>
      reqs s' = filter_mset (\<lambda>(a, m). who s a \<noteq> who s t) (reqs s)"
begin

text \<open>A released task has no request left, even one made just before.\<close>

lemma cancel_put:
  assumes "ok s"
  shows "\<exists>u v. cancel t (put t m s) = Some u \<and> cancel t s = Some v \<and> reqs u = reqs v \<and>
    (\<forall>a m'. (a, m') \<in># reqs u \<longrightarrow> who u a \<noteq> who u t)"
proof -
  obtain u where u: "cancel t (put t m s) = Some u" "who u = who (put t m s)"
      "reqs u = filter_mset (\<lambda>(a, m'). who (put t m s) a \<noteq> who (put t m s) t) (reqs (put t m s))"
    using cancel_runs [OF put_ok [OF assms]] by blast
  obtain v where v: "cancel t s = Some v" "reqs v = filter_mset (\<lambda>(a, m). who s a \<noteq> who s t) (reqs s)"
    using cancel_runs [OF assms] by blast
  show ?thesis using u v put_who [OF assms] put_reqs [OF assms] by auto
qed

lemma puts_bounded:
  assumes "ok s" and "size (reqs s) \<le> cap"
  shows "ok (fold (\<lambda>(t, m). put t m) ps s) \<and> size (reqs (fold (\<lambda>(t, m). put t m) ps s)) \<le> cap"
  using assms
proof (induction ps arbitrary: s)
  case (Cons p ps)
  obtain a m where p: "p = (a, m)" by (cases p)
  have "ok (put a m s)" "size (reqs (put a m s)) \<le> cap"
    using put_ok [OF Cons.prems(1)] put_reqs [OF Cons.prems(1), of a m] Cons.prems(2) by simp_all
  from Cons.IH [OF this] show ?case by (simp add: p)
qed simp

end

interpretation pool: migration_pool "pool_ok env" "requests env" "nat (MIG_POOL_SIZE env)"
  "\<lambda>s a. pid (tasks s a)" "put_work env" "cancel_task_work env" for env
proof
  fix s :: "'a mig_st_scheme" and t :: nat and m :: "int set"
  assume ok: "pool_ok env s"
  show "pool_ok env (put_work env t m s)"
    "(\<lambda>a. pid (tasks (put_work env t m s) a)) = (\<lambda>a. pid (tasks s a))"
    "requests env (put_work env t m s) = (if size (requests env s) < nat (MIG_POOL_SIZE env)
       then add_mset (t, m) (requests env s) else requests env s)"
    using put_work_requests [OF ok, of t m] by simp_all
  show "\<exists>s'. cancel_task_work env t s = Some s' \<and> pool_ok env s' \<and>
      (\<lambda>a. pid (tasks s' a)) = (\<lambda>a. pid (tasks s a)) \<and>
      requests env s' = filter_mset (\<lambda>(a, m). pid (tasks s a) \<noteq> pid (tasks s t)) (requests env s)"
    using cancel_requests [OF ok, of t] by auto
qed

subsection \<open>Properties\<close>

text \<open>
  C5: the pool refines a multiset of at most \<open>MIG_POOL_SIZE\<close> requested migrations:
  \<open>put_work\<close> adds one (and drops it when the pool is full), running a pending slot removes one and
  gives its task the mask the kernel decides on, \<open>cancel_task_work\<close> never meets a NULL task and
  removes exactly the requests of the tasks with the released pid.
\<close>
theorem pool_refines:
  assumes ok: "pool_ok env s"
  shows "(pool_ok env (put_work env ts m s) \<and>
      requests env (put_work env ts m s) =
        (if size (requests env s) < nat (MIG_POOL_SIZE env) then add_mset (ts, m) (requests env s)
         else requests env s)) \<and>
    (\<forall>i. 0 \<le> i \<and> i < MIG_POOL_SIZE env \<and> pending (mig_pool s i) \<longrightarrow>
      (\<exists>t a m'. run_work env i s = Some t \<and> pool_ok env t \<and>
        requests env s = add_mset (a, m') (requests env t) \<and>
        tasks t = (tasks s)(a := (tasks s a)\<lparr>cpus_allowed :=
          if m' = cpus_allowed (tasks s a) then m'
          else set_cpus_allowed_ptr env a (cpus_allowed (tasks s a)) m'\<rparr>))) \<and>
    (\<exists>t. cancel_task_work env ts s = Some t \<and> pool_ok env t \<and> tasks t = tasks s \<and>
      requests env t = filter_mset (\<lambda>(a, m). pid (tasks s a) \<noteq> pid (tasks s ts)) (requests env s))"
  using put_work_requests [OF ok, of ts m] run_work_requests [OF ok] cancel_requests [OF ok, of ts]
  by blast

definition ex_task :: "nat \<Rightarrow> task_struct" where
  "ex_task a = \<lparr>pid = int a, comm = ''task'', cpus_allowed = {0, 1}, need_resched = False,
     seeker_scheduled = 3562, fixed_state = - 1, cpustate = 0, interval = 0, inst = 0, re_cy = 0,
     ref_cy = 0, hist_step = 0\<rparr>"

definition ex_mig :: mig_st where
  "ex_mig = dyn_st.extend ex_dyn (mig_st.fields ex_task
     ((\<lambda>_. \<lparr>pending = False, mw_task = None, mw_mask = {}, mw_free = 1\<rparr>)
       (0 := \<lparr>pending = True, mw_task = Some 7, mw_mask = {1}, mw_free = 0\<rparr>)))"

lemmas ex_mig_simps = ex_mig_def mig_st.defs dyn_st.defs ex_task_def

lemma ex_mig_ok: "pool_ok ex_env ex_mig"
  by (auto simp: pool_ok_def slot_ok_def ex_mig_simps)

lemma ex_pool_size: "MIG_POOL_SIZE ex_env = 32"
  by (simp add: MIG_POOL_SIZE_def ex_env_def)

lemma ex_mig_requests: "requests ex_env ex_mig = {#(7, {1})#}"
proof -
  have "used_slots ex_env ex_mig = {0}"
    by (auto simp: used_slots_def ex_mig_simps ex_pool_size)
  then show ?thesis by (simp add: requests_def request_of_def ex_mig_simps)
qed

lemma pool_refines_witness:
  "requests ex_env (put_work ex_env 3 {0} ex_mig) = {#(3, {0}), (7, {1})#} \<and>
   map_option (\<lambda>t. cpus_allowed (tasks t 7)) (run_work ex_env 0 ex_mig) = Some {1} \<and>
   map_option (requests ex_env) (cancel_task_work ex_env 7 ex_mig) = Some {#}"
proof (intro conjI)
  note r = pool_refines [OF ex_mig_ok]
  show "requests ex_env (put_work ex_env 3 {0} ex_mig) = {#(3, {0}), (7, {1})#}"
    using r [of 3 "{0}"] by (simp add: ex_mig_requests ex_pool_size)
  have "pending (mig_pool ex_mig 0)" by (simp add: ex_mig_simps)
  then show "map_option (\<lambda>t. cpus_allowed (tasks t 7)) (run_work ex_env 0 ex_mig) = Some {1}"
    using conjunct1 [OF conjunct2 [OF r [of 3 "{0}"]], rule_format, of 0]
    by (auto simp: ex_mig_requests ex_pool_size add_mset_eq_single) (simp_all add: ex_env_def ex_mig_simps)
  show "map_option (requests ex_env) (cancel_task_work ex_env 7 ex_mig) = Some {#}"
    using conjunct2 [OF conjunct2 [OF r [of 7 "{0}"]]] by (auto simp: ex_mig_requests)
qed

lemma first_up_hit: "first_up p 0 n \<noteq> - 1 \<Longrightarrow> 0 \<le> first_up p 0 n \<and> first_up p 0 n < n"
  by (cases rule: first_up_cases [where i = 0 and p = p and n = n, OF order_refl]) auto

text \<open>A NULL task in a used slot is fatal to \<open>cancel_task_work\<close>.\<close>

lemma cancel_unfilled:
  assumes i: "0 \<le> i" "i < MIG_POOL_SIZE env" and f: "mw_free (mig_pool s i) = 0" "mw_task (mig_pool s i) = None"
  shows "cancel_task_work env ts s = None"
proof -
  let ?P = "\<lambda>j r. case r of None \<Rightarrow> True | Some u \<Rightarrow> j \<le> i \<and> mig_pool u i = mig_pool s i"
  have "?P (MIG_POOL_SIZE env) (cancel_task_work env ts s)"
    unfolding cancel_task_work_def
  proof (rule for_up_inv [where P = ?P])
    fix j r assume "?P j r"
    then show "?P (j + 1) (Option.bind r (cancel_step ts j))"
      by (cases "j = i") (auto simp: cancel_step_def f upd_slot_def split: option.splits)
  qed (use i in auto)
  then show ?thesis using i(2) by (auto split: option.splits)
qed

text \<open>
  C36: \<open>put_work\<close> releases the pool's lock before the slot it claimed is filled, and a task released on
  another CPU in that window meets what the slot held before. If the slot was never used,
  \<open>cancel_task_work\<close> dereferences NULL; if it last served a task with the released pid, the slot is
  marked free again although it is then filled and scheduled, so the requested migration never
  happens: the work item runs and changes no task.
\<close>
theorem put_work_window:
  assumes "pool_ok env s" and "put_work_claim env s = (i, s1)" and "i \<noteq> - 1"
  shows "case mw_task (mig_pool s i) of
      None \<Rightarrow> cancel_task_work env dying s1 = None
    | Some old \<Rightarrow> pid (tasks s old) = pid (tasks s dying) \<longrightarrow>
        (\<exists>s2 s4. cancel_task_work env dying s1 = Some s2 \<and>
          run_work env i (put_work_fill i ts m s2) = Some s4 \<and>
          requests env (put_work_fill i ts m s2) = requests env s2 \<and> tasks s4 = tasks s)"
proof -
  let ?i = "first_up (\<lambda>i. mw_free (mig_pool s i) = 1) 0 (MIG_POOL_SIZE env)"
  have i: "0 \<le> i" "i < MIG_POOL_SIZE env" and s1: "s1 = upd_slot i (\<lambda>mw. mw\<lparr>mw_free := 0\<rparr>) s"
    using assms(2,3) first_up_hit [of "\<lambda>i. mw_free (mig_pool s i) = 1" "MIG_POOL_SIZE env"]
    by (auto simp: put_work_claim_def Let_def split: if_splits)
  show ?thesis
  proof (cases "mw_task (mig_pool s i)")
    case None
    then show ?thesis using cancel_unfilled [OF i, of s1] by (simp add: s1 upd_slot_def)
  next
    case (Some old)
    have "filled env s1" using pool_filled [OF assms(1)] Some by (auto simp: filled_def s1 upd_slot_def)
    note c = cancel_task_work_eq [OF this, of dying]
    show ?thesis
    proof (cases "pid (tasks s old) = pid (tasks s dying)")
      case True
      define s2 where "s2 = the (cancel_task_work env dying s1)"
      have s2: "cancel_task_work env dying s1 = Some s2" "mw_free (mig_pool s2 i) = 1" "tasks s2 = tasks s"
        using c True Some i by (simp_all add: s2_def used_by_def s1 upd_slot_def release_def)
      let ?s3 = "put_work_fill i ts m s2"
      have "used_slots env ?s3 = used_slots env s2"
        using s2(2) by (auto simp: used_slots_def put_work_fill_def upd_slot_def)
      moreover have "image_mset (\<lambda>j. request_of (mig_pool ?s3 j)) (mset_set (used_slots env s2)) = requests env s2"
        unfolding requests_def
        by (rule image_mset_cong) (use s2(2) in \<open>auto simp: put_work_fill_def upd_slot_def dest: used_free\<close>)
      ultimately have "requests env ?s3 = requests env s2" by (simp add: requests_def)
      moreover obtain s4 where "run_work env i ?s3 = Some s4" "tasks s4 = tasks s"
        using s2 by (auto simp: run_work_def change_cpus_def put_work_fill_def upd_slot_def)
      ultimately show ?thesis using s2(1) Some by auto
    qed (simp add: Some)
  qed
qed

lemma put_work_window_witness:
  "cancel_task_work ex_env 3 (snd (put_work_claim ex_env ex_mig)) = None"
proof -
  have "put_work_claim ex_env ex_mig = (1, snd (put_work_claim ex_env ex_mig))"
    by (simp add: put_work_claim_def ex_pool_size ex_mig_simps exec)
  from put_work_window [OF ex_mig_ok this, of 3] show ?thesis
    by (simp add: ex_mig_simps)
qed

end
