(* ===== verification/Pmu_Msr.thy ===== *)
theory Pmu_Msr
  imports Prelude
begin

text \<open>
  The programmable performance counters: \<open>Module/pmu/pmu_int.h\<close>, \<open>Module/pmu/msr_pmu.c\<close> and
  \<open>Module/pmu/intr_pmu.c\<close> in the Core 2 Duo build (two programmable and three fixed
  counters per CPU). A bit field of the C structures is a word of its width, so an assignment
  truncates; the registers of a CPU are a store from MSR addresses to their low and high
  halves, which \<open>rdmsr\<close> and \<open>wrmsr\<close> read and write. A counter number is a non-negative
  index, and \<open>this_cpu\<close> is the CPU the code runs on (\<open>smp_processor_id\<close>).
\<close>

unbundle bit_operations_syntax

subsection \<open>Register layout\<close>

type_synonym flag = "1 word"
type_synonym byte = "8 word"

definition NUM_COUNTERS :: int where "NUM_COUNTERS = 2"
definition NUM_FIXED_COUNTERS :: int where "NUM_FIXED_COUNTERS = 3"

definition BITS :: "nat \<Rightarrow> u32" where "BITS n = push_bit n 1 - 1"
definition BITS_AT :: "nat \<Rightarrow> nat \<Rightarrow> u32" where "BITS_AT nbits p = push_bit p (BITS nbits)"
definition U64 :: "u32 \<Rightarrow> u32 \<Rightarrow> u64" where "U64 l h = ucast l OR push_bit 32 (ucast h)"

definition EVTSEL_RESERVED_BITS :: u32 where "EVTSEL_RESERVED_BITS = BITS_AT 1 21"
definition EVTSEL_RESERVED_BITS_HIGH :: u32 where "EVTSEL_RESERVED_BITS_HIGH = NOT 0"
definition CTR0_OVERFLOW_MASK :: u32 where "CTR0_OVERFLOW_MASK = BITS_AT 1 0"
definition CTR1_OVERFLOW_MASK :: u32 where "CTR1_OVERFLOW_MASK = BITS_AT 1 1"
definition CTR0_OVERFLOW_CLEAR_MASK :: u32 where "CTR0_OVERFLOW_CLEAR_MASK = NOT (BITS_AT 1 0)"
definition CTR1_OVERFLOW_CLEAR_MASK :: u32 where "CTR1_OVERFLOW_CLEAR_MASK = NOT (BITS_AT 1 1)"
definition FIXSEL_RESERVED_BITS :: u32 where
  "FIXSEL_RESERVED_BITS = NOT (BITS_AT 2 0 OR BITS_AT 3 3 OR BITS_AT 3 7 OR BITS_AT 1 11)"
definition FIXED_CTR0_OVERFLOW_MASK :: u32 where "FIXED_CTR0_OVERFLOW_MASK = BITS_AT 1 0"
definition FIXED_CTR1_OVERFLOW_MASK :: u32 where "FIXED_CTR1_OVERFLOW_MASK = BITS_AT 1 1"
definition FIXED_CTR2_OVERFLOW_MASK :: u32 where "FIXED_CTR2_OVERFLOW_MASK = BITS_AT 1 2"
definition FIXED_CTR0_OVERFLOW_CLEAR_MASK :: u32 where "FIXED_CTR0_OVERFLOW_CLEAR_MASK = NOT (BITS_AT 1 0)"
definition FIXED_CTR1_OVERFLOW_CLEAR_MASK :: u32 where "FIXED_CTR1_OVERFLOW_CLEAR_MASK = NOT (BITS_AT 1 1)"
definition FIXED_CTR2_OVERFLOW_CLEAR_MASK :: u32 where "FIXED_CTR2_OVERFLOW_CLEAR_MASK = NOT (BITS_AT 1 2)"

definition EVTSEL0 :: u32 where "EVTSEL0 = 0x186"
definition EVTSEL1 :: u32 where "EVTSEL1 = 0x187"
definition PMC0 :: u32 where "PMC0 = 0xC1"
definition PMC1 :: u32 where "PMC1 = 0xC2"
definition MSR_PERF_GLOBAL_STATUS :: u32 where "MSR_PERF_GLOBAL_STATUS = 0x38E"
definition MSR_PERF_GLOBAL_OVF_CTRL :: u32 where "MSR_PERF_GLOBAL_OVF_CTRL = 0x390"
definition MSR_PERF_FIXED_CTR0 :: u32 where "MSR_PERF_FIXED_CTR0 = 0x309"
definition MSR_PERF_FIXED_CTR1 :: u32 where "MSR_PERF_FIXED_CTR1 = 0x30A"
definition MSR_PERF_FIXED_CTR2 :: u32 where "MSR_PERF_FIXED_CTR2 = 0x30B"
definition MSR_PERF_FIXED_CTR_CTRL :: u32 where "MSR_PERF_FIXED_CTR_CTRL = 0x38D"

definition SHIFT_EVT_SEL :: nat where "SHIFT_EVT_SEL = 0"
definition LOW_BITS_EVT_SEL :: nat where "LOW_BITS_EVT_SEL = 8"
definition SHIFT_EVT_MASK :: nat where "SHIFT_EVT_MASK = 8"
definition SHIFT_USR_FLAG :: nat where "SHIFT_USR_FLAG = 16"
definition SHIFT_OS_FLAG :: nat where "SHIFT_OS_FLAG = 17"
definition SHIFT_EDGE_FLAG :: nat where "SHIFT_EDGE_FLAG = 18"
definition SHIFT_PC_FLAG :: nat where "SHIFT_PC_FLAG = 19"
definition SHIFT_INT_FLAG :: nat where "SHIFT_INT_FLAG = 20"
definition SHIFT_ENABLED :: nat where "SHIFT_ENABLED = 22"
definition SHIFT_INV_FLAG :: nat where "SHIFT_INV_FLAG = 23"
definition SHIFT_CNT_MASK :: nat where "SHIFT_CNT_MASK = 24"

definition SHIFT_FIX_OS0 :: nat where "SHIFT_FIX_OS0 = 0"
definition SHIFT_FIX_USR0 :: nat where "SHIFT_FIX_USR0 = 1"
definition SHIFT_FIX_PMI0 :: nat where "SHIFT_FIX_PMI0 = 3"
definition SHIFT_FIX_OS1 :: nat where "SHIFT_FIX_OS1 = 4"
definition SHIFT_FIX_USR1 :: nat where "SHIFT_FIX_USR1 = 5"
definition SHIFT_FIX_PMI1 :: nat where "SHIFT_FIX_PMI1 = 7"
definition SHIFT_FIX_OS2 :: nat where "SHIFT_FIX_OS2 = 8"
definition SHIFT_FIX_USR2 :: nat where "SHIFT_FIX_USR2 = 9"
definition SHIFT_FIX_PMI2 :: nat where "SHIFT_FIX_PMI2 = 11"

lemmas evtsel_bits = BITS_def BITS_AT_def EVTSEL_RESERVED_BITS_def EVTSEL_RESERVED_BITS_HIGH_def
  SHIFT_EVT_SEL_def LOW_BITS_EVT_SEL_def SHIFT_EVT_MASK_def SHIFT_USR_FLAG_def SHIFT_OS_FLAG_def
  SHIFT_EDGE_FLAG_def SHIFT_PC_FLAG_def SHIFT_INT_FLAG_def SHIFT_ENABLED_def SHIFT_INV_FLAG_def
  SHIFT_CNT_MASK_def

lemmas fixctrl_bits = BITS_def BITS_AT_def FIXSEL_RESERVED_BITS_def SHIFT_FIX_OS0_def
  SHIFT_FIX_USR0_def SHIFT_FIX_PMI0_def SHIFT_FIX_OS1_def SHIFT_FIX_USR1_def SHIFT_FIX_PMI1_def
  SHIFT_FIX_OS2_def SHIFT_FIX_USR2_def SHIFT_FIX_PMI2_def

lemmas ovf_bits = BITS_def BITS_AT_def CTR0_OVERFLOW_MASK_def CTR1_OVERFLOW_MASK_def
  CTR0_OVERFLOW_CLEAR_MASK_def CTR1_OVERFLOW_CLEAR_MASK_def FIXED_CTR0_OVERFLOW_MASK_def
  FIXED_CTR1_OVERFLOW_MASK_def FIXED_CTR2_OVERFLOW_MASK_def FIXED_CTR0_OVERFLOW_CLEAR_MASK_def
  FIXED_CTR1_OVERFLOW_CLEAR_MASK_def FIXED_CTR2_OVERFLOW_CLEAR_MASK_def

lemmas msr_addresses = EVTSEL0_def EVTSEL1_def PMC0_def PMC1_def MSR_PERF_GLOBAL_STATUS_def
  MSR_PERF_GLOBAL_OVF_CTRL_def MSR_PERF_FIXED_CTR0_def MSR_PERF_FIXED_CTR1_def
  MSR_PERF_FIXED_CTR2_def MSR_PERF_FIXED_CTR_CTRL_def

subsection \<open>The state of the module\<close>

record evtsel_t =
  ev_select :: byte
  ev_mask :: byte
  usr_flag :: flag
  os_flag :: flag
  edge :: flag
  pc_flag :: flag
  int_flag :: flag
  rsvd :: flag
  ev_enabled :: flag
  inv_flag :: flag
  cnt_mask :: byte
  ev_addr :: u32

record fixctrl_t =
  pmi0 :: flag
  os0 :: flag
  usr0 :: flag
  pmi1 :: flag
  os1 :: flag
  usr1 :: flag
  pmi2 :: flag
  os2 :: flag
  usr2 :: flag

record cleared_t =
  cl_low :: u32
  cl_high :: u32
  cl_all :: u64

record counter_t =
  ct_low :: u32
  ct_high :: u32
  ct_addr :: u32
  ct_event :: u32
  ct_mask :: u32
  ct_enabled :: u32

record fcounter_t =
  fc_low :: u32
  fc_high :: u32
  fc_addr :: u32

record pmu_st =
  this_cpu :: int
  msr :: "int \<Rightarrow> u32 \<Rightarrow> u32 \<times> u32"
  evtsel :: "evtsel_t arr arr"
  counters :: "counter_t arr arr"
  cleared :: "cleared_t arr arr"
  fcontrol :: "fixctrl_t arr"
  fcounters :: "fcounter_t arr arr"
  fcleared :: "cleared_t arr arr"

text \<open>Updates of one cell of a two-dimensional array, and the accesses to this CPU's registers.\<close>

definition upd2 :: "int \<Rightarrow> int \<Rightarrow> ('a \<Rightarrow> 'a) \<Rightarrow> 'a arr arr \<Rightarrow> 'a arr arr" where
  "upd2 i j f t = t(i := (t i)(j := f (t i j)))"

lemma upd2_at [simp]: "upd2 i j f t k l = (if k = i \<and> l = j then f (t i j) else t k l)"
  by (simp add: upd2_def)

definition rdmsr :: "u32 \<Rightarrow> 'a pmu_st_scheme \<Rightarrow> u32 \<times> u32" where
  "rdmsr a s = msr s (this_cpu s) a"

definition wrmsr :: "u32 \<Rightarrow> u32 \<Rightarrow> u32 \<Rightarrow> 'a pmu_st_scheme \<Rightarrow> 'a pmu_st_scheme" where
  "wrmsr a l h s = s\<lparr>msr := (msr s)(this_cpu s := (msr s (this_cpu s))(a := (l, h)))\<rparr>"

subsection \<open>Event selection: \<open>msr_pmu.c\<close>\<close>

definition evtsel_read :: "int \<Rightarrow> 'a pmu_st_scheme \<Rightarrow> u32" where
  "evtsel_read i s = (case rdmsr (ev_addr (evtsel s (this_cpu s) i)) s of (l, h) \<Rightarrow> l)"

definition evtsel_clear :: "int \<Rightarrow> 'a pmu_st_scheme \<Rightarrow> 'a pmu_st_scheme" where
  "evtsel_clear i s =
     (let a = ev_addr (evtsel s (this_cpu s) i)
      in case rdmsr a s of (l, h) \<Rightarrow>
           wrmsr a (l AND EVTSEL_RESERVED_BITS) (h AND EVTSEL_RESERVED_BITS_HIGH) s)"

definition evtsel_image :: "evtsel_t \<Rightarrow> u32" where
  "evtsel_image e =
     push_bit SHIFT_EVT_SEL (ucast (ev_select e) AND BITS LOW_BITS_EVT_SEL)
     OR push_bit SHIFT_EVT_MASK (ucast (ev_mask e))
     OR push_bit SHIFT_USR_FLAG (ucast (usr_flag e))
     OR push_bit SHIFT_OS_FLAG (ucast (os_flag e))
     OR push_bit SHIFT_EDGE_FLAG (ucast (edge e))
     OR push_bit SHIFT_PC_FLAG (ucast (pc_flag e))
     OR push_bit SHIFT_INT_FLAG (ucast (int_flag e))
     OR push_bit SHIFT_ENABLED (ucast (ev_enabled e))
     OR push_bit SHIFT_INV_FLAG (ucast (inv_flag e))
     OR push_bit SHIFT_CNT_MASK (ucast (cnt_mask e))"

definition evtsel_write :: "kenv \<Rightarrow> int \<Rightarrow> 'a pmu_st_scheme \<Rightarrow> 'a pmu_st_scheme" where
  "evtsel_write env i s =
     (if this_cpu s < NR_CPUS env then
        (let e = evtsel s (this_cpu s) i
         in case rdmsr (ev_addr e) s of (l, h) \<Rightarrow>
              wrmsr (ev_addr e) ((l AND EVTSEL_RESERVED_BITS) OR evtsel_image e)
                (h AND EVTSEL_RESERVED_BITS_HIGH) s)
      else s)"

subsection \<open>The counters\<close>

definition counter_clear :: "kenv \<Rightarrow> int \<Rightarrow> 'a pmu_st_scheme \<Rightarrow> 'a pmu_st_scheme" where
  "counter_clear env i s =
     (if NUM_COUNTERS \<le> i then s
      else if this_cpu s < NR_CPUS env then wrmsr (ct_addr (counters s (this_cpu s) i)) 0 0 s
      else s)"

definition counter_read :: "kenv \<Rightarrow> 'a pmu_st_scheme \<Rightarrow> 'a pmu_st_scheme" where
  "counter_read env s =
     (if this_cpu s < NR_CPUS env then
        for_up 0 NUM_COUNTERS
          (\<lambda>i s. if ct_enabled (counters s (this_cpu s) i) = 0 then s
                 else case rdmsr (ct_addr (counters s (this_cpu s) i)) s of (l, h) \<Rightarrow>
                   s\<lparr>counters := upd2 (this_cpu s) i (\<lambda>c. c\<lparr>ct_low := l, ct_high := h\<rparr>) (counters s)\<rparr>) s
      else s)"

definition get_counter_data :: "int \<Rightarrow> int \<Rightarrow> 'a pmu_st_scheme \<Rightarrow> u64" where
  "get_counter_data i cpu s =
     (if NUM_COUNTERS \<le> i then 0
      else U64 (ct_low (counters s cpu i)) (ct_high (counters s cpu i)))"

definition counter_disable :: "kenv \<Rightarrow> int \<Rightarrow> 'a pmu_st_scheme \<Rightarrow> 'a pmu_st_scheme" where
  "counter_disable env i s =
     (let cpu = this_cpu s in
      if NUM_COUNTERS \<le> i \<or> NR_CPUS env \<le> cpu then s
      else if ct_enabled (counters s cpu i) = 0 then s
      else
        let s = evtsel_clear i s; s = counter_clear env i s;
            s = s\<lparr>evtsel := upd2 cpu i (\<lambda>e. e\<lparr>ev_enabled := 0\<rparr>) (evtsel s),
                  counters := upd2 cpu i (\<lambda>c. c\<lparr>ct_enabled := 0\<rparr>) (counters s)\<rparr>
        in evtsel_write env i s)"

definition evtsel_for :: "u32 \<Rightarrow> u32 \<Rightarrow> u32 \<Rightarrow> evtsel_t \<Rightarrow> evtsel_t" where
  "evtsel_for event emask os e =
     e\<lparr>ev_select := ucast event, ev_mask := ucast emask, usr_flag := 1, os_flag := ucast (os AND 1),
       pc_flag := 1, int_flag := 0, inv_flag := 0, cnt_mask := 0, ev_enabled := 1, edge := 0\<rparr>"

definition counter_enable ::
  "kenv \<Rightarrow> u32 \<Rightarrow> u32 \<Rightarrow> u32 \<Rightarrow> 'a pmu_st_scheme \<Rightarrow> int \<times> 'a pmu_st_scheme" where
  "counter_enable env event emask os s =
     (let cpu = this_cpu s in
      if NR_CPUS env \<le> cpu then (- 1, s)
      else
        let i = first_up (\<lambda>i. ct_enabled (counters s cpu i) = 0) 0 NUM_COUNTERS in
        if i < 0 then (- 1, s)
        else
          let s = evtsel_clear i s; s = counter_clear env i s;
              s = s\<lparr>evtsel := upd2 cpu i (evtsel_for event emask os) (evtsel s),
                    counters := upd2 cpu i
                      (\<lambda>c. c\<lparr>ct_enabled := 1, ct_event := event, ct_mask := emask\<rparr>) (counters s)\<rparr>
          in (i, evtsel_write env i s))"

subsection \<open>Overflow interrupts: \<open>intr_pmu.c\<close>\<close>

definition pmu_configure_interrupt ::
  "int \<Rightarrow> u32 \<Rightarrow> u32 \<Rightarrow> 'a pmu_st_scheme \<Rightarrow> int \<times> 'a pmu_st_scheme" where
  "pmu_configure_interrupt ctr l h s =
     (if ctr < NUM_COUNTERS then
        (- 1, s\<lparr>cleared := upd2 (this_cpu s) ctr
                  (\<lambda>_. \<lparr>cl_low = l, cl_high = h, cl_all = ucast l OR push_bit 32 (ucast h)\<rparr>) (cleared s)\<rparr>)
      else (- 1, s))"

definition pmu_enable_interrupt :: "kenv \<Rightarrow> int \<Rightarrow> 'a pmu_st_scheme \<Rightarrow> int \<times> 'a pmu_st_scheme" where
  "pmu_enable_interrupt env ctr s =
     (if this_cpu s < NR_CPUS env \<and> ctr < NUM_COUNTERS then
        (0, evtsel_write env ctr
              (s\<lparr>evtsel := upd2 (this_cpu s) ctr (\<lambda>e. e\<lparr>int_flag := 1\<rparr>) (evtsel s)\<rparr>))
      else (- 1, s))"

definition pmu_disable_interrupt :: "kenv \<Rightarrow> int \<Rightarrow> 'a pmu_st_scheme \<Rightarrow> int \<times> 'a pmu_st_scheme" where
  "pmu_disable_interrupt env ctr s =
     (if ctr < NUM_COUNTERS \<and> this_cpu s < NR_CPUS env then
        (0, evtsel_write env ctr
              (s\<lparr>cleared := upd2 (this_cpu s) ctr (\<lambda>_. \<lparr>cl_low = 0, cl_high = 0, cl_all = 0\<rparr>) (cleared s),
                 evtsel := upd2 (this_cpu s) ctr (\<lambda>e. e\<lparr>int_flag := 0\<rparr>) (evtsel s)\<rparr>))
      else (- 1, s))"

text \<open>The result is declared \<open>int\<close>; the value computed in the \<open>u32\<close> variable is converted.\<close>

definition pmu_is_interrupt :: "int \<Rightarrow> 'a pmu_st_scheme \<Rightarrow> int" where
  "pmu_is_interrupt ctr s =
     (if NUM_COUNTERS \<le> ctr then - 1
      else case rdmsr MSR_PERF_GLOBAL_STATUS s of (l, h) \<Rightarrow>
        if ctr = 0 then sint (l AND CTR0_OVERFLOW_MASK)
        else if ctr = 1 then sint (l AND CTR1_OVERFLOW_MASK)
        else - 1)"

definition pmu_clear_ovf_status :: "int \<Rightarrow> 'a pmu_st_scheme \<Rightarrow> int \<times> 'a pmu_st_scheme" where
  "pmu_clear_ovf_status ctr s =
     (if NUM_COUNTERS < ctr then (- 1, s)
      else case rdmsr MSR_PERF_GLOBAL_OVF_CTRL s of (l, h) \<Rightarrow>
        if ctr = 0 then (0, wrmsr MSR_PERF_GLOBAL_OVF_CTRL (l AND CTR0_OVERFLOW_CLEAR_MASK) h s)
        else if ctr = 1 then (0, wrmsr MSR_PERF_GLOBAL_OVF_CTRL (l AND CTR1_OVERFLOW_CLEAR_MASK) h s)
        else (- 1, s))"

end
