(* ===== verification/Pmu_Fixed.thy ===== *)
theory Pmu_Fixed
  imports Pmu_Msr
begin

text \<open>
  The fixed-function counters, \<open>Module/pmu/msr_fpmu.c\<close> and \<open>Module/pmu/intr_fpmu.c\<close>, and the
  life of the module, \<open>Module/pmu/main.c\<close>: the static tables, the set-up of every CPU's
  registers through \<open>on_each_cpu\<close>, and the exit.
\<close>

unbundle bit_operations_syntax

subsection \<open>The control register: \<open>msr_fpmu.c\<close>\<close>

definition control_read :: "'a pmu_st_scheme \<Rightarrow> u32" where
  "control_read s = (case rdmsr MSR_PERF_FIXED_CTR_CTRL s of (l, h) \<Rightarrow> l)"

definition control_clear :: "'a pmu_st_scheme \<Rightarrow> 'a pmu_st_scheme" where
  "control_clear s =
     (case rdmsr MSR_PERF_FIXED_CTR_CTRL s of (l, h) \<Rightarrow>
        wrmsr MSR_PERF_FIXED_CTR_CTRL (l AND FIXSEL_RESERVED_BITS) h s)"

definition fixctrl_image :: "fixctrl_t \<Rightarrow> u32" where
  "fixctrl_image c =
     push_bit SHIFT_FIX_OS0 (ucast (os0 c))
     OR push_bit SHIFT_FIX_USR0 (ucast (usr0 c))
     OR push_bit SHIFT_FIX_PMI0 (ucast (pmi0 c))
     OR push_bit SHIFT_FIX_OS1 (ucast (os1 c))
     OR push_bit SHIFT_FIX_USR1 (ucast (usr1 c))
     OR push_bit SHIFT_FIX_PMI1 (ucast (pmi1 c))
     OR push_bit SHIFT_FIX_OS2 (ucast (os2 c))
     OR push_bit SHIFT_FIX_USR2 (ucast (usr2 c))
     OR push_bit SHIFT_FIX_PMI2 (ucast (pmi2 c))"

text \<open>The masked old value is overwritten by the image: the code assigns where it means to OR.\<close>

definition control_write :: "kenv \<Rightarrow> 'a pmu_st_scheme \<Rightarrow> 'a pmu_st_scheme" where
  "control_write env s =
     (if this_cpu s < NR_CPUS env then
        case rdmsr MSR_PERF_FIXED_CTR_CTRL s of (l, h) \<Rightarrow>
          wrmsr MSR_PERF_FIXED_CTR_CTRL (fixctrl_image (fcontrol s (this_cpu s))) h s
      else s)"

subsection \<open>The fixed counters\<close>

definition fcounter_clear :: "kenv \<Rightarrow> int \<Rightarrow> 'a pmu_st_scheme \<Rightarrow> 'a pmu_st_scheme" where
  "fcounter_clear env i s =
     (if this_cpu s < NR_CPUS env then
        let a = fc_addr (fcounters s (this_cpu s) i); c = fcleared s (this_cpu s) i
        in wrmsr a (cl_low c) (cl_high c) (wrmsr a (cl_low c) (cl_high c) s)
      else s)"

definition fcounter_read :: "kenv \<Rightarrow> 'a pmu_st_scheme \<Rightarrow> 'a pmu_st_scheme" where
  "fcounter_read env s =
     (if this_cpu s < NR_CPUS env then
        for_up 0 NUM_FIXED_COUNTERS
          (\<lambda>i s. case rdmsr (fc_addr (fcounters s (this_cpu s) i)) s of (l, h) \<Rightarrow>
             s\<lparr>fcounters := upd2 (this_cpu s) i (\<lambda>c. c\<lparr>fc_low := l, fc_high := h\<rparr>) (fcounters s)\<rparr>) s
      else s)"

definition get_fcounter_data :: "kenv \<Rightarrow> int \<Rightarrow> int \<Rightarrow> 'a pmu_st_scheme \<Rightarrow> u64" where
  "get_fcounter_data env i cpu s =
     (if NUM_FIXED_COUNTERS \<le> i \<and> NR_CPUS env \<le> cpu then - 1
      else U64 (fc_low (fcounters s cpu i)) (fc_high (fcounters s cpu i)) - cl_all (fcleared s cpu i))"

definition fcounters_disable :: "kenv \<Rightarrow> 'a pmu_st_scheme \<Rightarrow> 'a pmu_st_scheme" where
  "fcounters_disable env s =
     (if this_cpu s < NR_CPUS env then
        control_clear (for_up 0 NUM_FIXED_COUNTERS (fcounter_clear env) s)
      else s)"

definition fcounters_enable :: "kenv \<Rightarrow> u32 \<Rightarrow> 'a pmu_st_scheme \<Rightarrow> 'a pmu_st_scheme" where
  "fcounters_enable env os s =
     (if this_cpu s < NR_CPUS env then
        let s = for_up 0 NUM_FIXED_COUNTERS (fcounter_clear env) s;
            s = s\<lparr>fcontrol := (fcontrol s)(this_cpu s := (fcontrol s (this_cpu s))
                    \<lparr>os0 := ucast os, os1 := ucast os, os2 := ucast os,
                     usr0 := 1, usr1 := 1, usr2 := 1, pmi0 := 0, pmi1 := 0, pmi2 := 0\<rparr>)\<rparr>
        in control_write env s
      else s)"

subsection \<open>Overflow interrupts: \<open>intr_fpmu.c\<close>\<close>

definition set_fcleared :: "int \<Rightarrow> u32 \<Rightarrow> u32 \<Rightarrow> 'a pmu_st_scheme \<Rightarrow> 'a pmu_st_scheme" where
  "set_fcleared ctr l h s =
     s\<lparr>fcleared := upd2 (this_cpu s) ctr
         (\<lambda>_. \<lparr>cl_low = l, cl_high = h, cl_all = ucast l OR push_bit 32 (ucast h)\<rparr>) (fcleared s)\<rparr>"

definition fpmu_configure_interrupt ::
  "int \<Rightarrow> u32 \<Rightarrow> u32 \<Rightarrow> 'a pmu_st_scheme \<Rightarrow> int \<times> 'a pmu_st_scheme" where
  "fpmu_configure_interrupt ctr l h s =
     (if ctr < NUM_FIXED_COUNTERS then (0, set_fcleared ctr l h s) else (0, s))"

text \<open>The switch over the counter that sets one of the three interrupt flags.\<close>

definition set_pmi :: "int \<Rightarrow> flag \<Rightarrow> 'a pmu_st_scheme \<Rightarrow> int \<times> 'a pmu_st_scheme" where
  "set_pmi ctr v s =
     (let c = fcontrol s (this_cpu s);
          put = (\<lambda>c. s\<lparr>fcontrol := (fcontrol s)(this_cpu s := c)\<rparr>)
      in if ctr = 0 then (0, put (c\<lparr>pmi0 := v\<rparr>))
         else if ctr = 1 then (0, put (c\<lparr>pmi1 := v\<rparr>))
         else if ctr = 2 then (0, put (c\<lparr>pmi2 := v\<rparr>))
         else (- 1, s))"

definition fpmu_enable_interrupt :: "kenv \<Rightarrow> int \<Rightarrow> 'a pmu_st_scheme \<Rightarrow> int \<times> 'a pmu_st_scheme" where
  "fpmu_enable_interrupt env ctr s =
     (case set_pmi ctr 1 s of (r, s) \<Rightarrow> if r \<noteq> - 1 then (r, control_write env s) else (r, s))"

definition fpmu_disable_interrupt :: "kenv \<Rightarrow> int \<Rightarrow> 'a pmu_st_scheme \<Rightarrow> int \<times> 'a pmu_st_scheme" where
  "fpmu_disable_interrupt env ctr s =
     (let (r0, s) = (if ctr < NUM_FIXED_COUNTERS
             then (0, s\<lparr>fcleared := upd2 (this_cpu s) ctr (\<lambda>_. \<lparr>cl_low = 0, cl_high = 0, cl_all = 0\<rparr>) (fcleared s)\<rparr>)
             else (- 1, s));
          (r1, s) = set_pmi ctr 0 s;
          r = (if r1 = - 1 then - 1 else r0)
      in if r \<noteq> - 1 then (r, control_write env s) else (r, s))"

definition fpmu_is_interrupt :: "int \<Rightarrow> 'a pmu_st_scheme \<Rightarrow> int" where
  "fpmu_is_interrupt ctr s =
     (case rdmsr MSR_PERF_GLOBAL_STATUS s of (l, h) \<Rightarrow>
        if ctr = 0 then sint (h AND FIXED_CTR0_OVERFLOW_MASK)
        else if ctr = 1 then sint (h AND FIXED_CTR1_OVERFLOW_MASK)
        else if ctr = 2 then sint (h AND FIXED_CTR2_OVERFLOW_MASK)
        else 0)"

definition fpmu_clear_ovf_status :: "int \<Rightarrow> 'a pmu_st_scheme \<Rightarrow> int \<times> 'a pmu_st_scheme" where
  "fpmu_clear_ovf_status ctr s =
     (case rdmsr MSR_PERF_GLOBAL_OVF_CTRL s of (l, h) \<Rightarrow>
        if ctr = 0 then (0, wrmsr MSR_PERF_GLOBAL_OVF_CTRL l (h AND FIXED_CTR0_OVERFLOW_CLEAR_MASK) s)
        else if ctr = 1 then (0, wrmsr MSR_PERF_GLOBAL_OVF_CTRL l (h AND FIXED_CTR1_OVERFLOW_CLEAR_MASK) s)
        else if ctr = 2 then (0, wrmsr MSR_PERF_GLOBAL_OVF_CTRL l (h AND FIXED_CTR2_OVERFLOW_CLEAR_MASK) s)
        else (- 1, s))"

subsection \<open>The module: \<open>main.c\<close>\<close>

text \<open>The static tables. Only the rows of CPU 0 are spelled out in the code; the others are zero.\<close>

definition evtsel_0 :: "u32 \<Rightarrow> evtsel_t" where
  "evtsel_0 a = \<lparr>ev_select = 0, ev_mask = 0, usr_flag = 0, os_flag = 0, edge = 0, pc_flag = 0,
     int_flag = 0, rsvd = 0, ev_enabled = 0, inv_flag = 0, cnt_mask = 0, ev_addr = a\<rparr>"

definition counter_0 :: "u32 \<Rightarrow> u32 \<Rightarrow> counter_t" where
  "counter_0 a e = \<lparr>ct_low = 0, ct_high = 0, ct_addr = a, ct_event = e, ct_mask = 0, ct_enabled = 0\<rparr>"

definition pmu_static :: "(int \<Rightarrow> u32 \<Rightarrow> u32 \<times> u32) \<Rightarrow> pmu_st" where
  "pmu_static m =
     \<lparr>this_cpu = 0, msr = m,
      evtsel = (\<lambda>_ _. evtsel_0 0)(0 := (\<lambda>_. evtsel_0 0)(0 := evtsel_0 EVTSEL0, 1 := evtsel_0 EVTSEL1)),
      counters = (\<lambda>_ _. counter_0 0 0)(0 := (\<lambda>_. counter_0 0 0)(0 := counter_0 PMC0 0, 1 := counter_0 PMC1 1)),
      cleared = (\<lambda>_ _. \<lparr>cl_low = 0, cl_high = 0, cl_all = 0\<rparr>),
      fcontrol = (\<lambda>_. \<lparr>pmi0 = 0, os0 = 0, usr0 = 0, pmi1 = 0, os1 = 0, usr1 = 0, pmi2 = 0, os2 = 0, usr2 = 0\<rparr>),
      fcounters = (\<lambda>_ _. \<lparr>fc_low = 0, fc_high = 0, fc_addr = 0\<rparr>)
        (0 := (\<lambda>_. \<lparr>fc_low = 0, fc_high = 0, fc_addr = 0\<rparr>)
           (0 := \<lparr>fc_low = 0, fc_high = 0, fc_addr = MSR_PERF_FIXED_CTR0\<rparr>,
            1 := \<lparr>fc_low = 0, fc_high = 0, fc_addr = MSR_PERF_FIXED_CTR1\<rparr>,
            2 := \<lparr>fc_low = 0, fc_high = 0, fc_addr = MSR_PERF_FIXED_CTR2\<rparr>)),
      fcleared = (\<lambda>_ _. \<lparr>cl_low = 0, cl_high = 0, cl_all = 0\<rparr>)\<rparr>"

definition copy_row :: "int \<Rightarrow> int \<Rightarrow> 'a pmu_st_scheme \<Rightarrow> 'a pmu_st_scheme" where
  "copy_row cpu i s =
     s\<lparr>counters := upd2 cpu i (\<lambda>_. counters s 0 i) (counters s),
       evtsel := upd2 cpu i (\<lambda>_. evtsel s 0 i) (evtsel s)\<rparr>"

definition pmu_init_msrs :: "kenv \<Rightarrow> 'a pmu_st_scheme \<Rightarrow> 'a pmu_st_scheme" where
  "pmu_init_msrs env s =
     (let cpu = this_cpu s;
          s = (if cpu \<noteq> 0 then for_up 0 NUM_COUNTERS (copy_row cpu) s else s)
      in for_up 0 NUM_COUNTERS
           (\<lambda>i s. counter_clear env i (counter_disable env i (evtsel_clear i s))) s)"

definition copy_frow :: "int \<Rightarrow> int \<Rightarrow> 'a pmu_st_scheme \<Rightarrow> 'a pmu_st_scheme" where
  "copy_frow cpu i s =
     s\<lparr>fcounters := upd2 cpu i (\<lambda>_. fcounters s 0 i) (fcounters s),
       fcleared := upd2 cpu i (\<lambda>_. fcleared s 0 i) (fcleared s)\<rparr>"

definition fpmu_init_msrs :: "kenv \<Rightarrow> 'a pmu_st_scheme \<Rightarrow> 'a pmu_st_scheme" where
  "fpmu_init_msrs env s =
     (let cpu = this_cpu s in
      if cpu < NR_CPUS env then
        let s = for_up 0 NUM_FIXED_COUNTERS
              (\<lambda>i s. fcounter_clear env i (if cpu \<noteq> 0 then copy_frow cpu i s else s)) s;
            s = (if cpu \<noteq> 0 then s\<lparr>fcontrol := (fcontrol s)(cpu := fcontrol s 0)\<rparr> else s)
        in fcounters_disable env (control_clear s)
      else s)"

text \<open>
  \<open>on_each_cpu\<close> runs a function once on every CPU, in an order the code does not control; its
  return value is the kernel's.
\<close>

definition on_each_cpu :: "int list \<Rightarrow> ('a pmu_st_scheme \<Rightarrow> 'a pmu_st_scheme) \<Rightarrow> 'a pmu_st_scheme \<Rightarrow> 'a pmu_st_scheme" where
  "on_each_cpu cpus f s = fold (\<lambda>cpu s. f (s\<lparr>this_cpu := cpu\<rparr>)) cpus s"

definition pmu_init ::
  "kenv \<Rightarrow> int list \<Rightarrow> int \<Rightarrow> int list \<Rightarrow> int \<Rightarrow> 'a pmu_st_scheme \<Rightarrow> int \<times> 'a pmu_st_scheme" where
  "pmu_init env cpus ret fcpus fret s =
     (let s = on_each_cpu cpus (pmu_init_msrs env) s in
      if ret < 0 then (- ENODEV, s)
      else
        let s = on_each_cpu fcpus (fpmu_init_msrs env) s in
        if fret < 0 then (- ENODEV, s) else (0, s))"

definition pmu_exit :: "kenv \<Rightarrow> 'a pmu_st_scheme \<Rightarrow> 'a pmu_st_scheme" where
  "pmu_exit env s =
     s\<lparr>counters := for_up 0 (NR_CPUS env)
         (\<lambda>i t. for_up 0 NUM_COUNTERS (\<lambda>j t. upd2 i j (\<lambda>c. c\<lparr>ct_enabled := 0\<rparr>) t) t) (counters s)\<rparr>"

end
