(* ===== verification/Pmu_Runs.thy ===== *)
theory Pmu_Runs
  imports Pmu_Fixed
begin

text \<open>
  The invariant of the PMU module. A run of the module starts when \<open>pmu_init\<close> succeeds on the
  static tables and goes on with any call of the module's interface on any CPU, interleaved
  with the hardware counting events. The invariant has two halves: the selection registers of
  every CPU hold what the tables say, a counter counting exactly when it is marked enabled
  (\<open>pmu_ok\<close>), and the tables of the fixed counters are wired to their registers with a
  consistent cleared value (\<open>fpmu_ok\<close>).
\<close>

unbundle bit_operations_syntax

subsection \<open>Reading a selection register back\<close>

lemma BITS_mask: "BITS n = mask n"
  by (simp add: BITS_def push_bit_eq_mult mask_eq_exp_minus_1)

lemma bit_BITS_AT: "bit (BITS_AT n p) k \<longleftrightarrow> p \<le> k \<and> k < p + n \<and> k < 32"
  by (auto simp: BITS_AT_def BITS_mask bit_simps)

definition evtsel_fields :: "u32 \<Rightarrow> evtsel_t \<Rightarrow> evtsel_t" where
  "evtsel_fields l e =
     e\<lparr>ev_select := ucast l, ev_mask := ucast (drop_bit 8 l), usr_flag := ucast (drop_bit 16 l),
       os_flag := ucast (drop_bit 17 l), edge := ucast (drop_bit 18 l), pc_flag := ucast (drop_bit 19 l),
       int_flag := ucast (drop_bit 20 l), ev_enabled := ucast (drop_bit 22 l),
       inv_flag := ucast (drop_bit 23 l), cnt_mask := ucast (drop_bit 24 l)\<rparr>"

lemma evtsel_fields_image: "evtsel_fields ((l AND EVTSEL_RESERVED_BITS) OR evtsel_image e) e = e"
proof (rule evtsel_t.equality)
qed (simp_all add: evtsel_fields_def evtsel_image_def EVTSEL_RESERVED_BITS_def BITS_mask
  SHIFT_EVT_SEL_def LOW_BITS_EVT_SEL_def SHIFT_EVT_MASK_def SHIFT_USR_FLAG_def SHIFT_OS_FLAG_def
  SHIFT_EDGE_FLAG_def SHIFT_PC_FLAG_def SHIFT_INT_FLAG_def SHIFT_ENABLED_def SHIFT_INV_FLAG_def
  SHIFT_CNT_MASK_def, (rule bit_eqI, auto simp: bit_simps bit_BITS_AT dest: bit_imp_le_length)+)

text \<open>Register addresses of counter \<open>i\<close>.\<close>

definition EVTSEL_of :: "int \<Rightarrow> u32" where "EVTSEL_of i = (if i = 0 then EVTSEL0 else EVTSEL1)"
definition PMC_of :: "int \<Rightarrow> u32" where "PMC_of i = (if i = 0 then PMC0 else PMC1)"

definition evtsel_reg :: "'a pmu_st_scheme \<Rightarrow> int \<Rightarrow> int \<Rightarrow> u32" where
  "evtsel_reg s cpu i = fst (msr s cpu (EVTSEL_of i))"

definition pmu_wired :: "'a pmu_st_scheme \<Rightarrow> int \<Rightarrow> bool" where
  "pmu_wired s cpu \<longleftrightarrow> (\<forall>i. 0 \<le> i \<and> i < NUM_COUNTERS \<longrightarrow>
     ev_addr (evtsel s cpu i) = EVTSEL_of i \<and> ct_addr (counters s cpu i) = PMC_of i)"

definition in_sync :: "'a pmu_st_scheme \<Rightarrow> int \<Rightarrow> int \<Rightarrow> bool" where
  "in_sync s cpu i \<longleftrightarrow>
     evtsel_fields (evtsel_reg s cpu i) (evtsel s cpu i) = evtsel s cpu i \<and>
     (ct_enabled (counters s cpu i) \<noteq> 0 \<longleftrightarrow> ev_enabled (evtsel s cpu i) = 1)"

definition pmu_ok :: "int \<Rightarrow> 'a pmu_st_scheme \<Rightarrow> bool" where
  "pmu_ok n s \<longleftrightarrow> (\<forall>cpu. 0 \<le> cpu \<and> cpu < n \<longrightarrow>
     pmu_wired s cpu \<and> (\<forall>i. 0 \<le> i \<and> i < NUM_COUNTERS \<longrightarrow> in_sync s cpu i))"

lemma counter_index: "0 \<le> i \<and> i < NUM_COUNTERS \<longleftrightarrow> i = 0 \<or> i = 1"
  by (auto simp: NUM_COUNTERS_def)

lemma in_counters: "0 \<le> i \<Longrightarrow> i < NUM_COUNTERS \<Longrightarrow> i = 0 \<or> i = 1"
  by (auto simp: NUM_COUNTERS_def)

lemma EVTSEL_of_eq [simp]:
  "0 \<le> i \<Longrightarrow> i < NUM_COUNTERS \<Longrightarrow> 0 \<le> j \<Longrightarrow> j < NUM_COUNTERS \<Longrightarrow> EVTSEL_of i = EVTSEL_of j \<longleftrightarrow> i = j"
  by (drule (1) in_counters)+ (auto simp: EVTSEL_of_def msr_addresses)

lemma PMC_not_EVTSEL [simp]: "PMC_of i \<noteq> EVTSEL_of j" "EVTSEL_of j \<noteq> PMC_of i"
  by (auto simp: EVTSEL_of_def PMC_of_def msr_addresses)

text \<open>What a write of the selection register does to the registers and the tables.\<close>

lemma evtsel_write_run:
  assumes "this_cpu s < NR_CPUS env" and "pmu_wired s (this_cpu s)" and "0 \<le> i" and "i < NUM_COUNTERS"
  shows "evtsel_write env i s = s\<lparr>msr := (msr s)(this_cpu s := (msr s (this_cpu s))
      (EVTSEL_of i := ((evtsel_reg s (this_cpu s) i AND EVTSEL_RESERVED_BITS) OR evtsel_image (evtsel s (this_cpu s) i),
        snd (msr s (this_cpu s) (EVTSEL_of i)))))\<rparr>"
  using assms
  by (simp add: evtsel_write_def pmu_wired_def rdmsr_def wrmsr_def Let_def evtsel_reg_def EVTSEL_RESERVED_BITS_HIGH_def split: prod.split)


definition pmu_ok_but :: "int \<Rightarrow> int \<Rightarrow> int \<Rightarrow> 'a pmu_st_scheme \<Rightarrow> bool" where
  "pmu_ok_but n cpu i s \<longleftrightarrow> (\<forall>c. 0 \<le> c \<and> c < n \<longrightarrow>
     pmu_wired s c \<and> (\<forall>j. 0 \<le> j \<and> j < NUM_COUNTERS \<and> \<not> (c = cpu \<and> j = i) \<longrightarrow> in_sync s c j))"

lemma pmu_ok_but_ok: "pmu_ok n s \<Longrightarrow> pmu_ok_but n cpu i s"
  by (simp add: pmu_ok_def pmu_ok_but_def)

lemma evtsel_write_ok:
  assumes but: "pmu_ok_but n cpu i s" and cpu: "this_cpu s = cpu" "0 \<le> cpu" "cpu < n" "n \<le> NR_CPUS env"
    and i: "0 \<le> i" "i < NUM_COUNTERS"
    and flag: "ct_enabled (counters s cpu i) \<noteq> 0 \<longleftrightarrow> ev_enabled (evtsel s cpu i) = 1"
  shows "pmu_ok n (evtsel_write env i s)"
proof -
  have wired: "pmu_wired s (this_cpu s)" using but cpu by (simp add: pmu_ok_but_def)
  have run: "evtsel_write env i s = s\<lparr>msr := (msr s)(cpu := (msr s cpu)
      (EVTSEL_of i := ((evtsel_reg s cpu i AND EVTSEL_RESERVED_BITS) OR evtsel_image (evtsel s cpu i),
        snd (msr s cpu (EVTSEL_of i)))))\<rparr>"
    using evtsel_write_run [of s env i] wired cpu i by simp
  have "in_sync (evtsel_write env i s) c j" if "0 \<le> c" "c < n" "0 \<le> j" "j < NUM_COUNTERS" for c j
  proof (cases "c = cpu \<and> j = i")
    case True
    then show ?thesis
      using flag by (simp add: run in_sync_def evtsel_reg_def evtsel_fields_image)
  next
    case False
    then have "in_sync s c j" using but that by (simp add: pmu_ok_but_def)
    moreover have "msr (evtsel_write env i s) c (EVTSEL_of j) = msr s c (EVTSEL_of j)"
      using False that i by (auto simp: run)
    ultimately show ?thesis by (simp add: run in_sync_def evtsel_reg_def)
  qed
  then show ?thesis
    using but by (auto simp: pmu_ok_def pmu_ok_but_def run pmu_wired_def)
qed

text \<open>Writes to this CPU's own selection register and counter disturb no other counter.\<close>

lemma wrmsr_ok_but:
  assumes but: "pmu_ok_but n cpu i s" and cpu: "this_cpu s = cpu" and i: "0 \<le> i" "i < NUM_COUNTERS"
    and a: "a = EVTSEL_of i \<or> (\<forall>j. a \<noteq> EVTSEL_of j)"
  shows "pmu_ok_but n cpu i (wrmsr a l h s)"
proof -
  have "msr (wrmsr a l h s) c (EVTSEL_of j) = msr s c (EVTSEL_of j)"
    if "0 \<le> j" "j < NUM_COUNTERS" "\<not> (c = cpu \<and> j = i)" for c j
    using that a i cpu by (auto simp: wrmsr_def)
  then have "in_sync (wrmsr a l h s) c j \<longleftrightarrow> in_sync s c j"
    if "0 \<le> j" "j < NUM_COUNTERS" "\<not> (c = cpu \<and> j = i)" for c j
    using that by (simp add: in_sync_def evtsel_reg_def) (simp add: wrmsr_def)
  then show ?thesis using but by (auto simp: pmu_ok_but_def pmu_wired_def) (auto simp: wrmsr_def)
qed

lemma evtsel_clear_ok_but:
  assumes "pmu_ok_but n cpu i s" and "this_cpu s = cpu" and "0 \<le> cpu" "cpu < n" "0 \<le> i" "i < NUM_COUNTERS"
  shows "pmu_ok_but n cpu i (evtsel_clear i s)"
proof -
  have "ev_addr (evtsel s cpu i) = EVTSEL_of i" using assms by (simp add: pmu_ok_but_def pmu_wired_def)
  then show ?thesis using assms
    by (auto simp: evtsel_clear_def Let_def intro!: wrmsr_ok_but split: prod.split)
qed

lemma counter_clear_ok_but:
  assumes "pmu_ok_but n cpu i s" and "this_cpu s = cpu" and "0 \<le> cpu" "cpu < n" "0 \<le> i" "i < NUM_COUNTERS"
  shows "pmu_ok_but n cpu i (counter_clear env i s)"
proof -
  have "ct_addr (counters s cpu i) = PMC_of i" using assms by (simp add: pmu_ok_but_def pmu_wired_def)
  then show ?thesis using assms by (auto simp: counter_clear_def intro!: wrmsr_ok_but)
qed

lemma evtsel_clear_frame [simp]:
  "this_cpu (evtsel_clear i s) = this_cpu s" "evtsel (evtsel_clear i s) = evtsel s"
  "counters (evtsel_clear i s) = counters s"
  by (simp_all add: evtsel_clear_def wrmsr_def Let_def split: prod.split)

lemma counter_clear_frame [simp]:
  "this_cpu (counter_clear env i s) = this_cpu s" "evtsel (counter_clear env i s) = evtsel s"
  "counters (counter_clear env i s) = counters s"
  by (simp_all add: counter_clear_def wrmsr_def)

lemma evtsel_write_frame [simp]:
  "this_cpu (evtsel_write env i s) = this_cpu s" "evtsel (evtsel_write env i s) = evtsel s"
  "counters (evtsel_write env i s) = counters s"
  by (simp_all add: evtsel_write_def wrmsr_def Let_def split: prod.split)

lemma tables_ok_but:
  assumes "pmu_ok_but n cpu i s"
    and "\<And>e. ev_addr (f e) = ev_addr e" and "\<And>c. ct_addr (g c) = ct_addr c"
  shows "pmu_ok_but n cpu i (s\<lparr>evtsel := upd2 cpu i f (evtsel s), counters := upd2 cpu i g (counters s)\<rparr>)"
  using assms by (auto simp: pmu_ok_but_def pmu_wired_def in_sync_def evtsel_reg_def)

lemma counter_enable_ok:
  assumes ok: "pmu_ok n s" and cpu: "0 \<le> this_cpu s" "this_cpu s < n" "n \<le> NR_CPUS env"
  shows "pmu_ok n (snd (counter_enable env event emask os s))"
proof -
  let ?p = "\<lambda>i. ct_enabled (counters s (this_cpu s) i) = 0"
  let ?i = "first_up ?p 0 NUM_COUNTERS"
  show ?thesis
  proof (cases "?i < 0")
    case True
    then show ?thesis using ok by (simp add: counter_enable_def Let_def)
  next
    case False
    then have i: "0 \<le> ?i \<and> ?i < NUM_COUNTERS"
      using first_up_cases [of 0 ?p NUM_COUNTERS "0 \<le> ?i \<and> ?i < NUM_COUNTERS"] by simp
    let ?s = "counter_clear env ?i (evtsel_clear ?i s)"
    have "pmu_ok_but n (this_cpu s) ?i ?s"
      using pmu_ok_but_ok [OF ok] cpu i by (intro counter_clear_ok_but evtsel_clear_ok_but) auto
    from tables_ok_but [OF this, of "evtsel_for event emask os"
        "\<lambda>c. c\<lparr>ct_enabled := 1, ct_event := event, ct_mask := emask\<rparr>"]
    have "pmu_ok n (evtsel_write env ?i (?s\<lparr>evtsel := upd2 (this_cpu s) ?i (evtsel_for event emask os) (evtsel ?s),
       counters := upd2 (this_cpu s) ?i (\<lambda>c. c\<lparr>ct_enabled := 1, ct_event := event, ct_mask := emask\<rparr>) (counters ?s)\<rparr>))"
      using cpu i by (intro evtsel_write_ok) (auto simp: evtsel_for_def)
    then show ?thesis using False cpu by (simp add: counter_enable_def Let_def)
  qed
qed


lemma counter_disable_ok:
  assumes ok: "pmu_ok n s" and cpu: "0 \<le> this_cpu s" "this_cpu s < n" "n \<le> NR_CPUS env" and i: "0 \<le> i"
  shows "pmu_ok n (counter_disable env i s)"
proof (cases "NUM_COUNTERS \<le> i \<or> ct_enabled (counters s (this_cpu s) i) = 0")
  case True
  then show ?thesis using ok by (auto simp: counter_disable_def Let_def)
next
  case False
  let ?s = "counter_clear env i (evtsel_clear i s)"
  have "pmu_ok_but n (this_cpu s) i ?s"
    using pmu_ok_but_ok [OF ok] cpu i False by (intro counter_clear_ok_but evtsel_clear_ok_but) auto
  from tables_ok_but [OF this, of "\<lambda>e. e\<lparr>ev_enabled := 0\<rparr>" "\<lambda>c. c\<lparr>ct_enabled := 0\<rparr>"]
  have "pmu_ok n (evtsel_write env i (?s\<lparr>evtsel := upd2 (this_cpu s) i (\<lambda>e. e\<lparr>ev_enabled := 0\<rparr>) (evtsel ?s),
     counters := upd2 (this_cpu s) i (\<lambda>c. c\<lparr>ct_enabled := 0\<rparr>) (counters ?s)\<rparr>))"
    using cpu i False by (intro evtsel_write_ok) auto
  then show ?thesis using False cpu by (simp add: counter_disable_def Let_def)
qed

lemma set_int_flag_ok:
  assumes ok: "pmu_ok n s" and cpu: "0 \<le> this_cpu s" "this_cpu s < n" "n \<le> NR_CPUS env"
    and i: "0 \<le> i" "i < NUM_COUNTERS"
  shows "pmu_ok n (evtsel_write env i (s\<lparr>evtsel := upd2 (this_cpu s) i (\<lambda>e. e\<lparr>int_flag := v\<rparr>) (evtsel s)\<rparr>))"
proof -
  have "upd2 c j (\<lambda>c. c) (counters s) = counters s" for c j by (simp add: upd2_def)
  then have "pmu_ok_but n (this_cpu s) i (s\<lparr>evtsel := upd2 (this_cpu s) i (\<lambda>e. e\<lparr>int_flag := v\<rparr>) (evtsel s)\<rparr>)"
    using tables_ok_but [OF pmu_ok_but_ok [OF ok], of "\<lambda>e. e\<lparr>int_flag := v\<rparr>" "\<lambda>c. c"] by (simp del: upd2_at)
  moreover have "in_sync s (this_cpu s) i" using ok cpu i by (simp add: pmu_ok_def)
  ultimately show ?thesis using cpu i by (intro evtsel_write_ok) (auto simp: in_sync_def)
qed

text \<open>Two states that agree on what the programmable counters are configured to.\<close>

definition same_config :: "'a pmu_st_scheme \<Rightarrow> 'a pmu_st_scheme \<Rightarrow> bool" where
  "same_config s t \<longleftrightarrow> evtsel t = evtsel s \<and>
     (\<forall>c i. ct_addr (counters t c i) = ct_addr (counters s c i) \<and>
       ct_enabled (counters t c i) = ct_enabled (counters s c i) \<and>
       fst (msr t c (EVTSEL_of i)) = fst (msr s c (EVTSEL_of i)))"

lemma same_config_ok: "same_config s t \<Longrightarrow> pmu_ok n s \<Longrightarrow> pmu_ok n t"
  by (simp add: same_config_def pmu_ok_def pmu_wired_def in_sync_def evtsel_reg_def)

lemma same_config_refl [simp]: "same_config s s"
  by (simp add: same_config_def)

lemma same_config_trans: "same_config s t \<Longrightarrow> same_config t u \<Longrightarrow> same_config s u"
  by (simp add: same_config_def)

lemma wrmsr_config: "(\<And>j. a \<noteq> EVTSEL_of j) \<Longrightarrow> same_config s (wrmsr a l h s)"
  by (auto simp: same_config_def wrmsr_def)

lemma not_evtsel [simp]:
  "MSR_PERF_GLOBAL_OVF_CTRL \<noteq> EVTSEL_of j" "MSR_PERF_FIXED_CTR_CTRL \<noteq> EVTSEL_of j"
  by (simp_all add: EVTSEL_of_def msr_addresses)

lemma counter_read_config: "same_config s (counter_read env s)"
proof -
  have "same_config s (for_up 0 NUM_COUNTERS
          (\<lambda>i s. if ct_enabled (counters s (this_cpu s) i) = 0 then s
                 else case rdmsr (ct_addr (counters s (this_cpu s) i)) s of (l, h) \<Rightarrow>
                   s\<lparr>counters := upd2 (this_cpu s) i (\<lambda>c. c\<lparr>ct_low := l, ct_high := h\<rparr>) (counters s)\<rparr>) s)"
    by (rule for_up_preserves [where P = "same_config s"]) (auto simp: same_config_def split: prod.split)
  then show ?thesis by (simp add: counter_read_def)
qed

lemma ovf_status_config: "same_config s (snd (pmu_clear_ovf_status ctr s))"
  by (auto simp: pmu_clear_ovf_status_def intro!: wrmsr_config split: prod.split)

subsection \<open>Fixed counters\<close>

definition FIXED_of :: "int \<Rightarrow> u32" where
  "FIXED_of i = (if i = 0 then MSR_PERF_FIXED_CTR0 else if i = 1 then MSR_PERF_FIXED_CTR1 else MSR_PERF_FIXED_CTR2)"

lemma FIXED_not_EVTSEL [simp]: "FIXED_of i \<noteq> EVTSEL_of j" "FIXED_of i \<noteq> MSR_PERF_FIXED_CTR_CTRL"
  by (simp_all add: FIXED_of_def EVTSEL_of_def msr_addresses)

lemma FIXED_of_eq [simp]:
  "0 \<le> i \<Longrightarrow> i < NUM_FIXED_COUNTERS \<Longrightarrow> 0 \<le> j \<Longrightarrow> j < NUM_FIXED_COUNTERS \<Longrightarrow> FIXED_of i = FIXED_of j \<longleftrightarrow> i = j"
  by (auto simp: FIXED_of_def msr_addresses NUM_FIXED_COUNTERS_def)

definition fpmu_ok :: "int \<Rightarrow> 'a pmu_st_scheme \<Rightarrow> bool" where
  "fpmu_ok n s \<longleftrightarrow> (\<forall>c i. 0 \<le> c \<and> c < n \<and> 0 \<le> i \<and> i < NUM_FIXED_COUNTERS \<longrightarrow>
     fc_addr (fcounters s c i) = FIXED_of i \<and>
     cl_all (fcleared s c i) = U64 (cl_low (fcleared s c i)) (cl_high (fcleared s c i)))"

text \<open>The two halves of the invariant of the module.\<close>

definition pmu_inv :: "int \<Rightarrow> 'a pmu_st_scheme \<Rightarrow> bool" where
  "pmu_inv n s \<longleftrightarrow> pmu_ok n s \<and> fpmu_ok n s"

definition same_fixed :: "'a pmu_st_scheme \<Rightarrow> 'a pmu_st_scheme \<Rightarrow> bool" where
  "same_fixed s t \<longleftrightarrow> fcleared t = fcleared s \<and> (\<forall>c i. fc_addr (fcounters t c i) = fc_addr (fcounters s c i))"

lemma same_fixed_refl [simp]: "same_fixed s s"
  by (simp add: same_fixed_def)

lemma same_both: "same_config s t \<Longrightarrow> same_fixed s t \<Longrightarrow> pmu_inv n s \<Longrightarrow> pmu_inv n t"
  using same_config_ok [of s t n] by (simp add: pmu_inv_def fpmu_ok_def same_fixed_def)

lemma wrmsr_fixed [simp]: "same_fixed s (wrmsr a l h t) \<longleftrightarrow> same_fixed s t"
  by (simp add: same_fixed_def wrmsr_def)

lemma wrmsr_this [simp]: "this_cpu (wrmsr a l h s) = this_cpu s" "fcounters (wrmsr a l h s) = fcounters s"
    "fcleared (wrmsr a l h s) = fcleared s" "fcontrol (wrmsr a l h s) = fcontrol s"
  by (simp_all add: wrmsr_def)

definition fcpu_ok :: "'a pmu_st_scheme \<Rightarrow> int \<Rightarrow> bool" where
  "fcpu_ok s c \<longleftrightarrow> (\<forall>i. 0 \<le> i \<and> i < NUM_FIXED_COUNTERS \<longrightarrow>
     fc_addr (fcounters s c i) = FIXED_of i \<and>
     cl_all (fcleared s c i) = U64 (cl_low (fcleared s c i)) (cl_high (fcleared s c i)))"

lemma fpmu_ok_cpus: "fpmu_ok n s \<longleftrightarrow> (\<forall>c. 0 \<le> c \<and> c < n \<longrightarrow> fcpu_ok s c)"
  by (auto simp: fpmu_ok_def fcpu_ok_def)

lemma same_fixed_cpu: "same_fixed s t \<Longrightarrow> fcpu_ok s c \<Longrightarrow> fcpu_ok t c"
  by (simp add: fcpu_ok_def same_fixed_def)

lemma fcounter_clear_config:
  assumes "fc_addr (fcounters s (this_cpu s) i) = FIXED_of i"
  shows "same_config s (fcounter_clear env i s) \<and> same_fixed s (fcounter_clear env i s) \<and>
    this_cpu (fcounter_clear env i s) = this_cpu s"
  using assms by (simp add: fcounter_clear_def Let_def same_config_trans [OF wrmsr_config wrmsr_config])

lemma fcounter_clears_config:
  assumes "fcpu_ok s (this_cpu s)"
  shows "same_config s (for_up 0 NUM_FIXED_COUNTERS (fcounter_clear env) s) \<and>
    same_fixed s (for_up 0 NUM_FIXED_COUNTERS (fcounter_clear env) s) \<and>
    this_cpu (for_up 0 NUM_FIXED_COUNTERS (fcounter_clear env) s) = this_cpu s"
proof (rule for_up_preserves [where P = "\<lambda>t. same_config s t \<and> same_fixed s t \<and> this_cpu t = this_cpu s"])
  fix i t assume i: "0 \<le> i" "i < NUM_FIXED_COUNTERS"
    and t: "same_config s t \<and> same_fixed s t \<and> this_cpu t = this_cpu s"
  then have "fc_addr (fcounters t (this_cpu t) i) = FIXED_of i"
    using assms by (simp add: fcpu_ok_def same_fixed_def)
  from fcounter_clear_config [OF this, of env] t
  show "same_config s (fcounter_clear env i t) \<and> same_fixed s (fcounter_clear env i t) \<and>
      this_cpu (fcounter_clear env i t) = this_cpu s"
    by (auto intro: same_config_trans simp: same_fixed_def)
qed simp

lemma control_config:
  "same_config s (control_clear s) \<and> same_fixed s (control_clear s)"
  "same_config s (control_write env s) \<and> same_fixed s (control_write env s)"
  by (simp_all add: control_clear_def control_write_def wrmsr_config split: prod.split)

lemma fcounter_read_config:
  "same_config s (fcounter_read env s) \<and> same_fixed s (fcounter_read env s)"
proof -
  have "same_config s (for_up 0 NUM_FIXED_COUNTERS
          (\<lambda>i s. case rdmsr (fc_addr (fcounters s (this_cpu s) i)) s of (l, h) \<Rightarrow>
             s\<lparr>fcounters := upd2 (this_cpu s) i (\<lambda>c. c\<lparr>fc_low := l, fc_high := h\<rparr>) (fcounters s)\<rparr>) s) \<and>
      same_fixed s (for_up 0 NUM_FIXED_COUNTERS
          (\<lambda>i s. case rdmsr (fc_addr (fcounters s (this_cpu s) i)) s of (l, h) \<Rightarrow>
             s\<lparr>fcounters := upd2 (this_cpu s) i (\<lambda>c. c\<lparr>fc_low := l, fc_high := h\<rparr>) (fcounters s)\<rparr>) s)"
    by (rule for_up_preserves [where P = "\<lambda>t. same_config s t \<and> same_fixed s t"])
      (auto simp: same_config_def same_fixed_def split: prod.split)
  then show ?thesis by (simp add: fcounter_read_def)
qed

lemma set_pmi_config: "same_config s (snd (set_pmi ctr v s)) \<and> same_fixed s (snd (set_pmi ctr v s))"
  by (simp add: set_pmi_def Let_def same_config_def same_fixed_def)

lemma same_inv_trans:
  "same_config s t \<and> same_fixed s t \<Longrightarrow> same_config t u \<and> same_fixed t u \<Longrightarrow> same_config s u \<and> same_fixed s u"
  by (auto intro: same_config_trans simp: same_fixed_def)

lemma fcounters_disable_config:
  assumes "fcpu_ok s (this_cpu s)"
  shows "same_config s (fcounters_disable env s) \<and> same_fixed s (fcounters_disable env s)"
  using same_inv_trans [OF conjI control_config(1), of s] fcounter_clears_config [OF assms, of env]
  by (simp add: fcounters_disable_def)

lemma fcounters_enable_config:
  assumes "fcpu_ok s (this_cpu s)"
  shows "same_config s (fcounters_enable env os s) \<and> same_fixed s (fcounters_enable env os s)"
proof (cases "this_cpu s < NR_CPUS env")
  case True
  let ?t = "for_up 0 NUM_FIXED_COUNTERS (fcounter_clear env) s"
  have "same_config s (?t\<lparr>fcontrol := c\<rparr>) \<and> same_fixed s (?t\<lparr>fcontrol := c\<rparr>)" for c
    using fcounter_clears_config [OF assms, of env] by (auto simp: same_config_def same_fixed_def)
  from same_inv_trans [OF this control_config(2)] show ?thesis
    using True by (simp add: fcounters_enable_def Let_def)
qed (simp add: fcounters_enable_def)

lemma set_fcleared_inv:
  assumes "pmu_inv n s"
  shows "pmu_inv n (set_fcleared ctr l h s)"
proof -
  have "same_config s (set_fcleared ctr l h s)" by (simp add: same_config_def set_fcleared_def)
  from same_config_ok [OF this] assms show ?thesis
    by (auto simp: pmu_inv_def fpmu_ok_def set_fcleared_def U64_def)
qed

lemma control_write_inv: "pmu_inv n s \<Longrightarrow> pmu_inv n (control_write env s)"
  using same_both control_config(2) by blast

lemma fpmu_disable_interrupt_inv:
  assumes "pmu_inv n s"
  shows "pmu_inv n (snd (fpmu_disable_interrupt env ctr (s :: 'a pmu_st_scheme)))"
proof -
  have 0: "\<lparr>cl_low = 0, cl_high = 0, cl_all = 0\<rparr> =
      \<lparr>cl_low = (0 :: u32), cl_high = (0 :: u32), cl_all = ucast (0 :: u32) OR push_bit 32 (ucast (0 :: u32))\<rparr>"
    by simp
  define t where "t = (if ctr < NUM_FIXED_COUNTERS then set_fcleared ctr 0 0 s else s)"
  have t: "pmu_inv n t" using assms by (simp add: t_def set_fcleared_inv)
  have run: "snd (fpmu_disable_interrupt env ctr s) =
      (let (r1, u) = set_pmi ctr 0 t in
       if ctr < NUM_FIXED_COUNTERS \<and> r1 \<noteq> - 1 then control_write env u else u)"
    by (auto simp: fpmu_disable_interrupt_def t_def set_fcleared_def Let_def split: prod.split)
  have "pmu_inv n (snd (set_pmi ctr 0 t))" using same_both set_pmi_config t by blast
  then show ?thesis unfolding run by (auto simp: Let_def control_write_inv split: prod.split)
qed


subsection \<open>Set-up\<close>

text \<open>What one CPU's set-up needs and leaves, and what it does not touch.\<close>

definition row_ok0 :: "'a pmu_st_scheme \<Rightarrow> bool" where
  "row_ok0 s \<longleftrightarrow> (\<forall>i. 0 \<le> i \<and> i < NUM_COUNTERS \<longrightarrow>
     evtsel s 0 i = evtsel_0 (EVTSEL_of i) \<and> ct_addr (counters s 0 i) = PMC_of i \<and> ct_enabled (counters s 0 i) = 0)"

definition cpu_ok :: "'a pmu_st_scheme \<Rightarrow> int \<Rightarrow> bool" where
  "cpu_ok s cpu \<longleftrightarrow> pmu_wired s cpu \<and> (\<forall>i. 0 \<le> i \<and> i < NUM_COUNTERS \<longrightarrow> in_sync s cpu i)"

lemma pmu_ok_cpus: "pmu_ok n s \<longleftrightarrow> (\<forall>cpu. 0 \<le> cpu \<and> cpu < n \<longrightarrow> cpu_ok s cpu)"
  by (simp add: pmu_ok_def cpu_ok_def)

definition only_cpu :: "int \<Rightarrow> 'a pmu_st_scheme \<Rightarrow> 'a pmu_st_scheme \<Rightarrow> bool" where
  "only_cpu cpu s t \<longleftrightarrow> this_cpu t = this_cpu s \<and>
     (\<forall>c. c \<noteq> cpu \<longrightarrow> msr t c = msr s c \<and> evtsel t c = evtsel s c \<and> counters t c = counters s c)"

lemma only_cpu_ok: "only_cpu cpu s t \<Longrightarrow> c \<noteq> cpu \<Longrightarrow> cpu_ok s c \<Longrightarrow> cpu_ok t c"
  by (simp add: only_cpu_def cpu_ok_def pmu_wired_def in_sync_def evtsel_reg_def)

definition rows_copied :: "int \<Rightarrow> 'a pmu_st_scheme \<Rightarrow> bool" where
  "rows_copied cpu s \<longleftrightarrow> (\<forall>i. 0 \<le> i \<and> i < NUM_COUNTERS \<longrightarrow>
     evtsel s cpu i = evtsel_0 (EVTSEL_of i) \<and> ct_addr (counters s cpu i) = PMC_of i \<and> ct_enabled (counters s cpu i) = 0)"

lemma NUM_COUNTERS_loop: "for_up 0 NUM_COUNTERS f s = f 1 (f 0 s)"
  by (simp add: NUM_COUNTERS_def for_up.simps)

lemma copy_rows:
  assumes "row_ok0 s" and "cpu \<noteq> 0"
  shows "rows_copied cpu (for_up 0 NUM_COUNTERS (copy_row cpu) s) \<and>
    only_cpu cpu s (for_up 0 NUM_COUNTERS (copy_row cpu) s)"
  using assms unfolding NUM_COUNTERS_loop row_ok0_def rows_copied_def counter_index
  by (auto simp: copy_row_def only_cpu_def fun_eq_iff)

lemma evtsel_0_flags: "ev_enabled (evtsel_0 a) \<noteq> 1" "ev_addr (evtsel_0 a) = a"
  by (simp_all add: evtsel_0_def)

lemma evtsel_fields_0: "evtsel_fields (l AND EVTSEL_RESERVED_BITS) (evtsel_0 a) = evtsel_0 a"
proof -
  have "evtsel_image (evtsel_0 a) = 0" by (simp add: evtsel_image_def evtsel_0_def)
  then show ?thesis using evtsel_fields_image [of l "evtsel_0 a"] by simp
qed

lemma init_counter:
  fixes env :: kenv
  assumes rows: "rows_copied (this_cpu s) s" and i: "0 \<le> i" "i < NUM_COUNTERS"
  defines "t \<equiv> counter_clear env i (counter_disable env i (evtsel_clear i s))"
  shows "rows_copied (this_cpu s) t \<and> only_cpu (this_cpu s) s t \<and> in_sync t (this_cpu s) i \<and>
    (\<forall>j. 0 \<le> j \<and> j < NUM_COUNTERS \<and> j \<noteq> i \<longrightarrow> in_sync s (this_cpu s) j \<longrightarrow> in_sync t (this_cpu s) j)"
proof -
  have row: "ev_addr (evtsel s (this_cpu s) i) = EVTSEL_of i" "ct_addr (counters s (this_cpu s) i) = PMC_of i"
      "ct_enabled (counters s (this_cpu s) i) = 0"
    using rows i by (simp_all add: rows_copied_def evtsel_0_flags)
  have dis: "counter_disable env i (evtsel_clear i s) = evtsel_clear i s"
    using row by (simp add: counter_disable_def Let_def)
  have t: "t = counter_clear env i (evtsel_clear i s)" by (simp only: t_def dis)
  have same: "evtsel t = evtsel s" "counters t = counters s" "this_cpu t = this_cpu s"
    by (simp_all add: t)
  have regs: "evtsel_reg t (this_cpu s) i = evtsel_reg s (this_cpu s) i AND EVTSEL_RESERVED_BITS"
    "\<And>j. 0 \<le> j \<Longrightarrow> j < NUM_COUNTERS \<Longrightarrow> j \<noteq> i \<Longrightarrow> evtsel_reg t (this_cpu s) j = evtsel_reg s (this_cpu s) j"
    "\<And>c. c \<noteq> this_cpu s \<Longrightarrow> msr t c = msr s c"
    using row i by (auto simp: t evtsel_reg_def counter_clear_def evtsel_clear_def Let_def wrmsr_def rdmsr_def split: prod.split)
  show ?thesis
    using rows i
    by (auto simp: rows_copied_def only_cpu_def in_sync_def same regs evtsel_fields_0 evtsel_0_flags)
qed

lemma pmu_init_msrs_ok:
  assumes row0: "row_ok0 s"
  shows "cpu_ok (pmu_init_msrs env s) (this_cpu s) \<and> row_ok0 (pmu_init_msrs env s) \<and>
    only_cpu (this_cpu s) s (pmu_init_msrs env s)"
proof -
  let ?cpu = "this_cpu s"
  define u where "u = (if ?cpu \<noteq> 0 then for_up 0 NUM_COUNTERS (copy_row ?cpu) s else s)"
  have u: "rows_copied ?cpu u" "only_cpu ?cpu s u" "this_cpu u = ?cpu"
    using copy_rows [OF row0, of ?cpu] row0
    by (auto simp: u_def only_cpu_def row_ok0_def rows_copied_def)
  let ?f = "\<lambda>i s. counter_clear env i (counter_disable env i (evtsel_clear i s))"
  have run: "pmu_init_msrs env s = ?f 1 (?f 0 u)"
    by (simp add: pmu_init_msrs_def Let_def NUM_COUNTERS_loop u_def)
  have a: "rows_copied ?cpu (?f 0 u)" "only_cpu ?cpu u (?f 0 u)" "in_sync (?f 0 u) ?cpu 0"
      "this_cpu (?f 0 u) = ?cpu"
    using init_counter [of u 0 env] u by (simp_all add: NUM_COUNTERS_def only_cpu_def)
  have b: "rows_copied ?cpu (?f 1 (?f 0 u))" "only_cpu ?cpu (?f 0 u) (?f 1 (?f 0 u))"
      "in_sync (?f 1 (?f 0 u)) ?cpu 0" "in_sync (?f 1 (?f 0 u)) ?cpu 1"
    using init_counter [of "?f 0 u" 1 env] a by (simp_all add: NUM_COUNTERS_def)
  have c: "only_cpu ?cpu s (?f 1 (?f 0 u))" using u(2) a(2) b(2) by (simp add: only_cpu_def)
  moreover have "row_ok0 (?f 1 (?f 0 u))"
    using b(1) c row0 by (cases "?cpu = 0") (auto simp: rows_copied_def row_ok0_def only_cpu_def)
  ultimately show ?thesis
    using b by (auto simp: run cpu_ok_def pmu_wired_def rows_copied_def evtsel_0_flags counter_index)
qed


lemma pmu_init_all:
  assumes "row_ok0 s"
  shows "row_ok0 (on_each_cpu cpus (pmu_init_msrs env) s) \<and>
    (\<forall>c. c \<in> set cpus \<or> cpu_ok s c \<longrightarrow> cpu_ok (on_each_cpu cpus (pmu_init_msrs env) s) c)"
  using assms
proof (induction cpus arbitrary: s)
  case Nil
  then show ?case by (simp add: on_each_cpu_def)
next
  case (Cons cpu cpus)
  let ?s = "pmu_init_msrs env (s\<lparr>this_cpu := cpu\<rparr>)"
  have row: "row_ok0 (s\<lparr>this_cpu := cpu\<rparr>)" using Cons.prems by (simp add: row_ok0_def)
  from pmu_init_msrs_ok [OF this, of env]
  have one: "cpu_ok ?s cpu" "row_ok0 ?s" "only_cpu cpu (s\<lparr>this_cpu := cpu\<rparr>) ?s" by simp_all
  have "cpu_ok ?s c" if "c = cpu \<or> cpu_ok s c" for c
  proof (cases "c = cpu")
    case False
    then have "cpu_ok (s\<lparr>this_cpu := cpu\<rparr>) c"
      using that by (simp add: cpu_ok_def pmu_wired_def in_sync_def evtsel_reg_def)
    then show ?thesis using only_cpu_ok [OF one(3) False] by simp
  qed (simp add: one)
  then show ?case using Cons.IH [OF one(2)] by (auto simp: on_each_cpu_def)
qed

lemma NUM_FIXED_loop: "for_up 0 NUM_FIXED_COUNTERS f s = f 2 (f 1 (f 0 s))"
  by (simp add: NUM_FIXED_COUNTERS_def for_up.simps)

text \<open>The tables of the fixed counters of every other CPU stay as they are.\<close>

definition only_fixed :: "int \<Rightarrow> 'a pmu_st_scheme \<Rightarrow> 'a pmu_st_scheme \<Rightarrow> bool" where
  "only_fixed cpu s t \<longleftrightarrow> same_config s t \<and> this_cpu t = this_cpu s \<and>
     (\<forall>c. c \<noteq> cpu \<longrightarrow> fcleared t c = fcleared s c \<and> (\<forall>i. fc_addr (fcounters t c i) = fc_addr (fcounters s c i)))"

lemma only_fixed_trans: "only_fixed cpu s t \<Longrightarrow> only_fixed cpu t u \<Longrightarrow> only_fixed cpu s u"
  by (auto simp: only_fixed_def intro: same_config_trans)

lemma only_fixed_same: "same_config s t \<Longrightarrow> same_fixed s t \<Longrightarrow> this_cpu t = this_cpu s \<Longrightarrow> only_fixed cpu s t"
  by (simp add: only_fixed_def same_fixed_def)

lemma init_frow:
  assumes row0: "fcpu_ok s 0" and cpu: "this_cpu s = cpu" and i: "0 \<le> i" "i < NUM_FIXED_COUNTERS"
  defines "u \<equiv> (if cpu \<noteq> 0 then copy_frow cpu i s else s)"
  shows "only_fixed cpu s (fcounter_clear env i u) \<and> fcpu_ok (fcounter_clear env i u) 0 \<and>
    fc_addr (fcounters (fcounter_clear env i u) cpu i) = FIXED_of i \<and>
    cl_all (fcleared (fcounter_clear env i u) cpu i) =
      U64 (cl_low (fcleared (fcounter_clear env i u) cpu i)) (cl_high (fcleared (fcounter_clear env i u) cpu i)) \<and>
    (\<forall>j. j \<noteq> i \<longrightarrow> fcleared (fcounter_clear env i u) cpu j = fcleared s cpu j \<and>
       fc_addr (fcounters (fcounter_clear env i u) cpu j) = fc_addr (fcounters s cpu j))"
proof -
  have u: "only_fixed cpu s u" "fcpu_ok u 0" "this_cpu u = cpu"
      "fc_addr (fcounters u cpu i) = FIXED_of i"
      "cl_all (fcleared u cpu i) = U64 (cl_low (fcleared u cpu i)) (cl_high (fcleared u cpu i))"
      "\<And>j. j \<noteq> i \<Longrightarrow> fcleared u cpu j = fcleared s cpu j \<and> fcounters u cpu j = fcounters s cpu j"
    using row0 cpu i by (auto simp: u_def copy_frow_def only_fixed_def fcpu_ok_def same_config_def)
  have "same_config u (fcounter_clear env i u) \<and> same_fixed u (fcounter_clear env i u) \<and>
      this_cpu (fcounter_clear env i u) = this_cpu u"
    using u by (intro fcounter_clear_config) simp
  then show ?thesis
    using u only_fixed_trans [OF u(1) only_fixed_same, of "fcounter_clear env i u"]
    by (auto simp: fcpu_ok_def same_fixed_def)
qed


lemma fpmu_init_msrs_ok:
  fixes s :: "'a pmu_st_scheme"
  assumes row0: "fcpu_ok s 0" and cpu: "this_cpu s < NR_CPUS env"
  shows "fcpu_ok (fpmu_init_msrs env s) (this_cpu s) \<and> fcpu_ok (fpmu_init_msrs env s) 0 \<and>
    only_fixed (this_cpu s) s (fpmu_init_msrs env s)"
proof -
  define cpu where "cpu = this_cpu s"
  define f where "f = (\<lambda>i (s :: 'a pmu_st_scheme). fcounter_clear env i (if cpu \<noteq> 0 then copy_frow cpu i s else s))"
  define a where "a = f 0 s" define b where "b = f 1 a" define c where "c = f 2 b"
  have f: "only_fixed cpu s (f i s) \<and> fcpu_ok (f i s) 0 \<and>
      fc_addr (fcounters (f i s) cpu i) = FIXED_of i \<and>
      cl_all (fcleared (f i s) cpu i) = U64 (cl_low (fcleared (f i s) cpu i)) (cl_high (fcleared (f i s) cpu i)) \<and>
      (\<forall>j. j \<noteq> i \<longrightarrow> fcleared (f i s) cpu j = fcleared s cpu j \<and> fc_addr (fcounters (f i s) cpu j) = fc_addr (fcounters s cpu j))"
    if "fcpu_ok s 0" "this_cpu s = cpu" "0 \<le> i" "i < 3" for i and s :: "'a pmu_st_scheme"
    using init_frow [of s cpu i env] that by (simp add: f_def NUM_FIXED_COUNTERS_def)
  have A: "only_fixed cpu s a" "fcpu_ok a 0" "this_cpu a = cpu"
    using f [of s 0] row0 by (simp_all add: a_def cpu_def only_fixed_def)
  have B: "only_fixed cpu a b" "fcpu_ok b 0" "this_cpu b = cpu"
    using f [of a 1] A by (simp_all add: b_def only_fixed_def)
  have C: "only_fixed cpu b c" "fcpu_ok c 0" "this_cpu c = cpu" "fcpu_ok c cpu"
  proof -
    have "fc_addr (fcounters c cpu i) = FIXED_of i \<and>
        cl_all (fcleared c cpu i) = U64 (cl_low (fcleared c cpu i)) (cl_high (fcleared c cpu i))"
      if "i = 0 \<or> i = 1 \<or> i = 2" for i
      using that f [of s 0] f [of a 1] f [of b 2] row0 A B by (auto simp: a_def b_def c_def cpu_def)
    moreover have "0 \<le> i \<and> i < NUM_FIXED_COUNTERS \<longleftrightarrow> i = 0 \<or> i = 1 \<or> i = 2" for i
      by (auto simp: NUM_FIXED_COUNTERS_def)
    ultimately show "fcpu_ok c cpu" by (simp add: fcpu_ok_def)
  qed (use f [of b 2] B in \<open>simp_all add: c_def only_fixed_def\<close>)
  define d where "d = (if cpu \<noteq> 0 then c\<lparr>fcontrol := (fcontrol c)(cpu := fcontrol c 0)\<rparr> else c)"
  have D: "same_config c d" "same_fixed c d" "this_cpu d = cpu"
    using C by (simp_all add: d_def same_config_def same_fixed_def)
  define e where "e = control_clear d"
  have E: "same_config d e" "same_fixed d e" "this_cpu e = cpu"
    using control_config(1) [of d] D(3) by (simp_all add: e_def) (simp add: control_clear_def split: prod.split)
  have run: "fpmu_init_msrs env s = fcounters_disable env e"
    using cpu by (simp add: fpmu_init_msrs_def Let_def NUM_FIXED_loop cpu_def [symmetric] f_def a_def b_def c_def d_def e_def)
  have ok: "fcpu_ok e cpu" "fcpu_ok e 0"
    using C same_fixed_cpu [OF D(2)] same_fixed_cpu [OF E(2)] by auto
  have F: "same_config e (fcounters_disable env e)" "same_fixed e (fcounters_disable env e)"
    using fcounters_disable_config [of e env] ok E by simp_all
  have "this_cpu (fcounters_disable env e) = cpu"
    using fcounter_clears_config [of e env] ok E
    by (auto simp: fcounters_disable_def control_clear_def split: prod.split)
  then have "only_fixed cpu e (fcounters_disable env e)" using F E by (intro only_fixed_same) auto
  moreover have "only_fixed cpu s e"
    using only_fixed_trans [OF only_fixed_trans [OF A(1) B(1)] C(1)]
      only_fixed_same [OF same_config_trans [OF D(1) E(1)], of cpu] D E C(3)
    by (auto simp: same_fixed_def intro: only_fixed_trans)
  ultimately show ?thesis
    using ok F(2) same_fixed_cpu by (auto simp: run cpu_def [symmetric] intro: only_fixed_trans)
qed

lemma fpmu_init_all:
  assumes "fcpu_ok s 0" and "\<And>c. c \<in> set cpus \<Longrightarrow> c < NR_CPUS env"
  shows "same_config s (on_each_cpu cpus (fpmu_init_msrs env) s) \<and>
    (\<forall>c. c \<in> set cpus \<or> fcpu_ok s c \<longrightarrow> fcpu_ok (on_each_cpu cpus (fpmu_init_msrs env) s) c)"
  using assms
proof (induction cpus arbitrary: s)
  case Nil
  then show ?case by (simp add: on_each_cpu_def)
next
  case (Cons cpu cpus)
  let ?s = "fpmu_init_msrs env (s\<lparr>this_cpu := cpu\<rparr>)"
  have row: "fcpu_ok (s\<lparr>this_cpu := cpu\<rparr>) 0" using Cons.prems by (simp add: fcpu_ok_def)
  from fpmu_init_msrs_ok [OF this, of env] Cons.prems
  have one: "fcpu_ok ?s cpu" "fcpu_ok ?s 0" "only_fixed cpu (s\<lparr>this_cpu := cpu\<rparr>) ?s" by simp_all
  have "same_config s (s\<lparr>this_cpu := cpu\<rparr>)" by (simp add: same_config_def)
  then have conf: "same_config s ?s" using one(3) same_config_trans by (auto simp: only_fixed_def)
  have keep: "fcpu_ok ?s c" if "c = cpu \<or> fcpu_ok s c" for c
    using that one by (cases "c = cpu") (auto simp: only_fixed_def fcpu_ok_def)
  have "same_config ?s (on_each_cpu cpus (fpmu_init_msrs env) ?s) \<and>
    (\<forall>c. c \<in> set cpus \<or> fcpu_ok ?s c \<longrightarrow> fcpu_ok (on_each_cpu cpus (fpmu_init_msrs env) ?s) c)"
    using Cons.prems by (intro Cons.IH one) auto
  then show ?case using same_config_trans [OF conf] keep by (auto simp: on_each_cpu_def)
qed

text \<open>The programmable set-up leaves the tables of the fixed counters alone.\<close>

lemma pmu_init_fixed: "same_fixed s (on_each_cpu cpus (pmu_init_msrs env) s)"
proof (induction cpus arbitrary: s)
  case (Cons cpu cpus)
  have cl: "same_fixed s (evtsel_clear i s)" "same_fixed s (counter_clear env i s)"
      "same_fixed s (counter_disable env i s)" "same_fixed s (copy_row k i s)" for i k and s :: "'a pmu_st_scheme"
    by (simp_all add: evtsel_clear_def counter_clear_def counter_disable_def evtsel_write_def copy_row_def Let_def
        same_fixed_def split: prod.split)
  have "same_fixed s (pmu_init_msrs env (s\<lparr>this_cpu := cpu\<rparr>))"
    using cl unfolding pmu_init_msrs_def NUM_COUNTERS_loop Let_def by (simp add: same_fixed_def)
  then show ?case using Cons.IH [of "pmu_init_msrs env (s\<lparr>this_cpu := cpu\<rparr>)"]
    by (auto simp: on_each_cpu_def same_fixed_def)
qed (simp add: on_each_cpu_def)

lemma pmu_static_rows: "row_ok0 (pmu_static m)" "fcpu_ok (pmu_static m) 0"
  by (auto simp: row_ok0_def fcpu_ok_def pmu_static_def counter_index EVTSEL_of_def PMC_of_def counter_0_def
      FIXED_of_def NUM_FIXED_COUNTERS_def U64_def)

lemma pmu_init_inv:
  assumes "pmu_init env cpus ret fcpus fret (pmu_static m) = (0, s)"
    and "set cpus = {0..<n}" and "set fcpus = {0..<n}" and "n \<le> NR_CPUS env"
  shows "pmu_inv n s"
proof -
  let ?s = "on_each_cpu cpus (pmu_init_msrs env) (pmu_static m)"
  have s: "s = on_each_cpu fcpus (fpmu_init_msrs env) ?s"
    using assms(1) by (simp add: pmu_init_def Let_def ENODEV_def split: if_splits)
  have ok: "pmu_ok n ?s"
    using pmu_init_all [OF pmu_static_rows(1), of cpus env m] assms(2) by (simp add: pmu_ok_cpus)
  have "fcpu_ok ?s 0" using same_fixed_cpu [OF pmu_init_fixed pmu_static_rows(2)] .
  from fpmu_init_all [OF this, of fcpus env] assms(3,4)
  have "same_config ?s s" "\<And>c. c \<in> {0..<n} \<Longrightarrow> fcpu_ok s c" by (auto simp: s)
  then show ?thesis using same_config_ok ok by (auto simp: pmu_inv_def fpmu_ok_cpus)
qed

subsection \<open>Runs\<close>

text \<open>
  Counting changes the counters and the status registers, never a selection register. The steps are what
  a client calls through \<open>pmu.h\<close>; the routines the module exports for its own parts (\<open>evtsel_clear\<close>,
  \<open>evtsel_write\<close>, \<open>pmu_init_msrs\<close>), with which a client could undo a configuration, are not among them.
\<close>

inductive pmu_reach :: "kenv \<Rightarrow> int \<Rightarrow> pmu_st \<Rightarrow> bool" for env n where
  start: "pmu_init env cpus ret fcpus fret (pmu_static m) = (0, s) \<Longrightarrow>
    set cpus = {0..<n} \<Longrightarrow> set fcpus = {0..<n} \<Longrightarrow> pmu_reach env n s"
| switch: "pmu_reach env n s \<Longrightarrow> 0 \<le> cpu \<Longrightarrow> cpu < n \<Longrightarrow> pmu_reach env n (s\<lparr>this_cpu := cpu\<rparr>)"
| count: "pmu_reach env n s \<Longrightarrow> (\<And>c i. fst (m c (EVTSEL_of i)) = fst (msr s c (EVTSEL_of i))) \<Longrightarrow>
    pmu_reach env n (s\<lparr>msr := m\<rparr>)"
| enable: "pmu_reach env n s \<Longrightarrow> 0 \<le> this_cpu s \<Longrightarrow> this_cpu s < n \<Longrightarrow>
    pmu_reach env n (snd (counter_enable env event emask os s))"
| disable: "pmu_reach env n s \<Longrightarrow> 0 \<le> this_cpu s \<Longrightarrow> this_cpu s < n \<Longrightarrow> 0 \<le> i \<Longrightarrow>
    pmu_reach env n (counter_disable env i s)"
| read: "pmu_reach env n s \<Longrightarrow> pmu_reach env n (counter_read env s)"
| configure: "pmu_reach env n s \<Longrightarrow> pmu_reach env n (snd (pmu_configure_interrupt ctr l h s))"
| interrupt_on: "pmu_reach env n s \<Longrightarrow> 0 \<le> this_cpu s \<Longrightarrow> this_cpu s < n \<Longrightarrow> 0 \<le> i \<Longrightarrow>
    pmu_reach env n (snd (pmu_enable_interrupt env i s))"
| interrupt_off: "pmu_reach env n s \<Longrightarrow> 0 \<le> this_cpu s \<Longrightarrow> this_cpu s < n \<Longrightarrow> 0 \<le> i \<Longrightarrow>
    pmu_reach env n (snd (pmu_disable_interrupt env i s))"
| clear_ovf: "pmu_reach env n s \<Longrightarrow> pmu_reach env n (snd (pmu_clear_ovf_status ctr s))"
| fenable: "pmu_reach env n s \<Longrightarrow> 0 \<le> this_cpu s \<Longrightarrow> this_cpu s < n \<Longrightarrow>
    pmu_reach env n (fcounters_enable env os s)"
| fdisable: "pmu_reach env n s \<Longrightarrow> 0 \<le> this_cpu s \<Longrightarrow> this_cpu s < n \<Longrightarrow>
    pmu_reach env n (fcounters_disable env s)"
| fread: "pmu_reach env n s \<Longrightarrow> pmu_reach env n (fcounter_read env s)"
| fconfigure: "pmu_reach env n s \<Longrightarrow> pmu_reach env n (snd (fpmu_configure_interrupt ctr l h s))"
| finterrupt_on: "pmu_reach env n s \<Longrightarrow> pmu_reach env n (snd (fpmu_enable_interrupt env ctr s))"
| finterrupt_off: "pmu_reach env n s \<Longrightarrow> pmu_reach env n (snd (fpmu_disable_interrupt env ctr s))"
| fclear_ovf: "pmu_reach env n s \<Longrightarrow> pmu_reach env n (snd (fpmu_clear_ovf_status ctr s))"

lemma tables_fixed:
  "same_fixed s (snd (counter_enable env event emask os s))"
  "same_fixed s (counter_disable env i s)"
  "same_fixed s (counter_read env s)"
  "same_fixed s (snd (pmu_configure_interrupt ctr l h s))"
  "same_fixed s (snd (pmu_enable_interrupt env i s))"
  "same_fixed s (snd (pmu_disable_interrupt env i s))"
  "same_fixed s (snd (pmu_clear_ovf_status ctr s))"
  "same_fixed s (snd (fpmu_clear_ovf_status ctr s))"
proof -
  show "same_fixed s (counter_read env s)"
    unfolding counter_read_def NUM_COUNTERS_loop by (simp add: same_fixed_def split: prod.split)
qed (simp_all add: evtsel_clear_def counter_clear_def counter_enable_def counter_disable_def evtsel_write_def
    pmu_configure_interrupt_def pmu_enable_interrupt_def pmu_disable_interrupt_def pmu_clear_ovf_status_def
    fpmu_clear_ovf_status_def Let_def same_fixed_def split: prod.split)

lemma same_fixed_ok: "same_fixed s t \<Longrightarrow> fpmu_ok n s \<Longrightarrow> fpmu_ok n t"
  by (simp add: fpmu_ok_def same_fixed_def)

lemma interrupt_flag_ok:
  assumes "pmu_ok n s" "0 \<le> this_cpu s" "this_cpu s < n" "n \<le> NR_CPUS env" "0 \<le> i"
  shows "pmu_ok n (snd (pmu_enable_interrupt env i s))" "pmu_ok n (snd (pmu_disable_interrupt env i s))"
proof -
  show "pmu_ok n (snd (pmu_enable_interrupt env i s))"
    using assms set_int_flag_ok [of n s env i 1] by (simp add: pmu_enable_interrupt_def)
  let ?s = "s\<lparr>cleared := upd2 (this_cpu s) i (\<lambda>_. \<lparr>cl_low = 0, cl_high = 0, cl_all = 0\<rparr>) (cleared s)\<rparr>"
  have "pmu_ok n ?s"
    by (rule same_config_ok [of s]) (simp_all add: assms same_config_def)
  then show "pmu_ok n (snd (pmu_disable_interrupt env i s))"
    using assms set_int_flag_ok [of n ?s env i 0] by (auto simp: pmu_disable_interrupt_def)
qed

lemma pmu_reach_inv:
  assumes "n \<le> NR_CPUS env" and "pmu_reach env n s"
  shows "pmu_inv n s"
  using assms(2)
proof induction
  case (start cpus ret fcpus fret m s)
  then show ?case using assms(1) by (rule pmu_init_inv)
next
  case (switch s cpu)
  then show ?case by (auto intro: same_both [of s] simp: same_config_def same_fixed_def)
next
  case (count s m)
  then show ?case by (auto intro: same_both [of s] simp: same_config_def same_fixed_def)
next
  case (enable s event emask os)
  then show ?case using assms(1) counter_enable_ok same_fixed_ok tables_fixed(1) by (metis pmu_inv_def)
next
  case (disable s i)
  then show ?case using assms(1) counter_disable_ok same_fixed_ok tables_fixed(2) by (metis pmu_inv_def)
next
  case (read s)
  then show ?case using same_both counter_read_config tables_fixed(3) by blast
next
  case (configure s ctr l h)
  have "same_config s (snd (pmu_configure_interrupt ctr l h s))"
    by (simp add: pmu_configure_interrupt_def same_config_def)
  then show ?case using configure same_both tables_fixed(4) by blast
next
  case (interrupt_on s i)
  then show ?case using assms(1) interrupt_flag_ok same_fixed_ok tables_fixed(5) by (metis pmu_inv_def)
next
  case (interrupt_off s i)
  then show ?case using assms(1) interrupt_flag_ok same_fixed_ok tables_fixed(6) by (metis pmu_inv_def)
next
  case (clear_ovf s ctr)
  then show ?case using same_both ovf_status_config tables_fixed(7) by blast
next
  case (fenable s os)
  then have "fcpu_ok s (this_cpu s)" by (simp add: pmu_inv_def fpmu_ok_cpus)
  then show ?case using fenable same_both fcounters_enable_config by blast
next
  case (fdisable s)
  then have "fcpu_ok s (this_cpu s)" by (simp add: pmu_inv_def fpmu_ok_cpus)
  then show ?case using fdisable same_both fcounters_disable_config by blast
next
  case (fread s)
  then show ?case using same_both fcounter_read_config by blast
next
  case (fconfigure s ctr l h)
  then show ?case by (simp add: fpmu_configure_interrupt_def set_fcleared_inv)
next
  case (finterrupt_on s ctr)
  have "pmu_inv n (snd (set_pmi ctr 1 s))" using finterrupt_on same_both set_pmi_config by blast
  then show ?case by (auto simp: fpmu_enable_interrupt_def control_write_inv split: prod.split)
next
  case (finterrupt_off s ctr)
  then show ?case by (simp add: fpmu_disable_interrupt_inv)
next
  case (fclear_ovf s ctr)
  have "same_config s (snd (fpmu_clear_ovf_status ctr s))"
    by (auto simp: fpmu_clear_ovf_status_def intro!: wrmsr_config split: prod.split)
  then show ?case using fclear_ovf same_both tables_fixed(8) by blast
qed


lemma flag_bit: "(ucast (drop_bit k (l :: u32)) :: flag) = 1 \<longleftrightarrow> bit l k"
  unfolding bit_eq_iff by (auto simp: bit_simps)

lemma in_sync_bit:
  assumes "in_sync s cpu i"
  shows "ct_enabled (counters s cpu i) \<noteq> 0 \<longleftrightarrow> bit (evtsel_reg s cpu i) 22"
proof -
  have "ev_enabled (evtsel_fields (evtsel_reg s cpu i) (evtsel s cpu i)) =
      ucast (drop_bit 22 (evtsel_reg s cpu i))"
    by (simp add: evtsel_fields_def)
  with assms show ?thesis by (simp add: in_sync_def flag_bit)
qed

subsection \<open>Enabling a counter\<close>

text \<open>The state after a successful call, with the register image of the new selection.\<close>

lemma counter_enable_eq:
  assumes "this_cpu s < NR_CPUS env"
    and "first_up (\<lambda>i. ct_enabled (counters s (this_cpu s) i) = 0) 0 NUM_COUNTERS = i" and "0 \<le> i"
  shows "counter_enable env event emask os s =
    (i, evtsel_write env i ((counter_clear env i (evtsel_clear i s))
      \<lparr>evtsel := upd2 (this_cpu s) i (evtsel_for event emask os) (evtsel s),
       counters := upd2 (this_cpu s) i (\<lambda>c. c\<lparr>ct_enabled := 1, ct_event := event, ct_mask := emask\<rparr>) (counters s)\<rparr>))"
  using assms by (simp add: counter_enable_def Let_def)

lemma counter_enable_run:
  assumes cpu: "this_cpu s < NR_CPUS env" and wired: "pmu_wired s (this_cpu s)"
    and i: "0 \<le> i" "i < NUM_COUNTERS" and run: "counter_enable env event emask os s = (i, t)"
  shows "ct_enabled (counters s (this_cpu s) i) = 0 \<and>
    (\<forall>j. 0 \<le> j \<and> j < i \<longrightarrow> ct_enabled (counters s (this_cpu s) j) \<noteq> 0) \<and>
    this_cpu t = this_cpu s \<and>
    evtsel t = upd2 (this_cpu s) i (evtsel_for event emask os) (evtsel s) \<and>
    counters t = upd2 (this_cpu s) i (\<lambda>c. c\<lparr>ct_enabled := 1, ct_event := event, ct_mask := emask\<rparr>) (counters s) \<and>
    msr t = (msr s)(this_cpu s := (msr s (this_cpu s))
      (PMC_of i := (0, 0),
       EVTSEL_of i := ((evtsel_reg s (this_cpu s) i AND EVTSEL_RESERVED_BITS) OR
          evtsel_image (evtsel_for event emask os (evtsel s (this_cpu s) i)),
          snd (msr s (this_cpu s) (EVTSEL_of i)))))"
proof -
  let ?p = "\<lambda>i. ct_enabled (counters s (this_cpu s) i) = 0"
  have fst: "first_up ?p 0 NUM_COUNTERS = i"
    using run i cpu by (simp add: counter_enable_def Let_def split: if_splits)
  have first: "?p i \<and> (\<forall>j. 0 \<le> j \<and> j < i \<longrightarrow> \<not> ?p j)"
  proof (rule first_up_cases [where i = 0 and p = ?p and n = NUM_COUNTERS])
    assume "first_up ?p 0 NUM_COUNTERS = - 1"
    then show ?thesis using i(1) unfolding fst by simp
  next
    assume "?p (first_up ?p 0 NUM_COUNTERS)" "\<And>k. 0 \<le> k \<Longrightarrow> k < first_up ?p 0 NUM_COUNTERS \<Longrightarrow> \<not> ?p k"
    then show ?thesis unfolding fst by blast
  qed simp
  have addr: "ev_addr (evtsel s (this_cpu s) i) = EVTSEL_of i" "ct_addr (counters s (this_cpu s) i) = PMC_of i"
    using wired i by (simp_all add: pmu_wired_def)
  let ?s = "counter_clear env i (evtsel_clear i s)"
  let ?t = "?s\<lparr>evtsel := upd2 (this_cpu s) i (evtsel_for event emask os) (evtsel s),
     counters := upd2 (this_cpu s) i (\<lambda>c. c\<lparr>ct_enabled := 1, ct_event := event, ct_mask := emask\<rparr>) (counters s)\<rparr>"
  have t: "t = evtsel_write env i ?t"
    using counter_enable_eq [OF cpu fst i(1), of event emask os, unfolded run] by (rule prod.inject [THEN iffD1, THEN conjunct2])
  have msr: "msr ?t = (msr s)(this_cpu s := (msr s (this_cpu s))
      (EVTSEL_of i := (evtsel_reg s (this_cpu s) i AND EVTSEL_RESERVED_BITS, snd (msr s (this_cpu s) (EVTSEL_of i))),
       PMC_of i := (0, 0)))"
    using addr i cpu
    by (simp add: counter_clear_def evtsel_clear_def Let_def rdmsr_def wrmsr_def evtsel_reg_def
        EVTSEL_RESERVED_BITS_HIGH_def split: prod.split)
  have "pmu_wired ?t (this_cpu ?t)"
    using wired by (auto simp: pmu_wired_def evtsel_for_def)
  from evtsel_write_run [OF _ this i] cpu
  have "t = ?t\<lparr>msr := (msr ?t)(this_cpu s := (msr ?t (this_cpu s))
      (EVTSEL_of i := ((evtsel_reg ?t (this_cpu s) i AND EVTSEL_RESERVED_BITS) OR evtsel_image (evtsel ?t (this_cpu s) i),
        snd (msr ?t (this_cpu s) (EVTSEL_of i)))))\<rparr>"
    by (simp add: t del: upd2_at)
  then have "msr t = (msr ?t)(this_cpu s := (msr ?t (this_cpu s))
      (EVTSEL_of i := ((evtsel_reg ?t (this_cpu s) i AND EVTSEL_RESERVED_BITS) OR evtsel_image (evtsel ?t (this_cpu s) i),
        snd (msr ?t (this_cpu s) (EVTSEL_of i)))))"
    by (simp del: upd2_at)
  then have "msr t = (msr s)(this_cpu s := (msr s (this_cpu s))
      (PMC_of i := (0, 0),
       EVTSEL_of i := ((evtsel_reg s (this_cpu s) i AND EVTSEL_RESERVED_BITS) OR
          evtsel_image (evtsel_for event emask os (evtsel s (this_cpu s) i)),
          snd (msr s (this_cpu s) (EVTSEL_of i)))))"
    unfolding evtsel_reg_def msr by (simp add: fun_upd_twist [of "EVTSEL_of i"] and.assoc)
  then show ?thesis using first by (simp add: t)
qed

lemma counter_enable_full:
  assumes "this_cpu s < NR_CPUS env"
    and "\<And>j. 0 \<le> j \<Longrightarrow> j < NUM_COUNTERS \<Longrightarrow> ct_enabled (counters s (this_cpu s) j) \<noteq> 0"
  shows "counter_enable env event emask os s = (- 1, s)"
proof -
  let ?p = "\<lambda>i. ct_enabled (counters s (this_cpu s) i) = 0"
  have "first_up ?p 0 NUM_COUNTERS < 0"
    using first_up_cases [of 0 ?p NUM_COUNTERS "first_up ?p 0 NUM_COUNTERS < 0"] assms(2) by auto
  then show ?thesis by (simp add: counter_enable_def Let_def)
qed

end
