(* ===== verification/Pmu_Props.thy ===== *)
theory Pmu_Props
  imports Pmu_Runs
begin

text \<open>
  What the clients of the PMU module rely on: the configuration stays in step with the tables,
  a counter is handed out at most once, a fixed counter measures; and what the module does not
  do: the reserved bits of the fixed control register and, at unload, the running counters.
\<close>

unbundle bit_operations_syntax

subsection \<open>Measuring with a fixed counter\<close>

lemma U64_halves: "U64 (ucast v) (ucast (drop_bit 32 v)) = v"
  unfolding U64_def by (rule bit_eqI) (auto simp: bit_simps)

definition set_reg :: "int \<Rightarrow> u32 \<Rightarrow> u64 \<Rightarrow> 'a pmu_st_scheme \<Rightarrow> 'a pmu_st_scheme" where
  "set_reg cpu a v s = s\<lparr>msr := (msr s)(cpu := (msr s cpu)(a := (ucast v, ucast (drop_bit 32 v))))\<rparr>"

definition reg :: "'a pmu_st_scheme \<Rightarrow> int \<Rightarrow> u32 \<Rightarrow> u64" where
  "reg s cpu a = U64 (fst (msr s cpu a)) (snd (msr s cpu a))"

lemma fcounter_clear_reg:
  assumes "this_cpu s < NR_CPUS env" and "fc_addr (fcounters s (this_cpu s) i) = a"
    and "cl_all (fcleared s (this_cpu s) i) = U64 (cl_low (fcleared s (this_cpu s) i)) (cl_high (fcleared s (this_cpu s) i))"
  shows "reg (fcounter_clear env i s) (this_cpu s) a = cl_all (fcleared s (this_cpu s) i)"
    and "fcleared (fcounter_clear env i s) = fcleared s" "fcounters (fcounter_clear env i s) = fcounters s"
    "this_cpu (fcounter_clear env i s) = this_cpu s"
  using assms by (simp_all add: fcounter_clear_def Let_def reg_def) (simp_all add: wrmsr_def)

lemma fcounter_read_at:
  assumes cpu: "this_cpu s < NR_CPUS env" and ok: "fcpu_ok s (this_cpu s)" and i: "0 \<le> i" "i < NUM_FIXED_COUNTERS"
  shows "U64 (fc_low (fcounters (fcounter_read env s) (this_cpu s) i)) (fc_high (fcounters (fcounter_read env s) (this_cpu s) i))
      = reg s (this_cpu s) (FIXED_of i) \<and> fcleared (fcounter_read env s) = fcleared s"
proof -
  have "i = 0 \<or> i = 1 \<or> i = 2" using i by (auto simp: NUM_FIXED_COUNTERS_def)
  moreover have "fc_addr (fcounters s (this_cpu s) 0) = FIXED_of 0"
      "fc_addr (fcounters s (this_cpu s) 1) = FIXED_of 1" "fc_addr (fcounters s (this_cpu s) 2) = FIXED_of 2"
    using ok by (simp_all add: fcpu_ok_def NUM_FIXED_COUNTERS_def)
  ultimately show ?thesis
    using cpu unfolding fcounter_read_def NUM_FIXED_loop
    by (auto simp: reg_def rdmsr_def split: prod.split)
qed

text \<open>
  C10: A fixed counter measures: after \<open>fcounter_clear\<close>, when the hardware has counted \<open>k\<close>
  events in the counter's register (modulo $2^{64}$), \<open>fcounter_read\<close> followed by
  \<open>get_fcounter_data\<close> returns exactly \<open>k\<close>, whatever cleared value an interrupt configuration
  has installed.
\<close>
theorem fcounter_measures:
  assumes "this_cpu s < NR_CPUS env" and "fcpu_ok s (this_cpu s)" and "0 \<le> i" and "i < NUM_FIXED_COUNTERS"
    and "c = fcounter_clear env i s"
    and "t = set_reg (this_cpu s) (FIXED_of i) (reg c (this_cpu s) (FIXED_of i) + k) c"
  shows "get_fcounter_data env i (this_cpu s) (fcounter_read env t) = k"
proof -
  have ci: "fc_addr (fcounters s (this_cpu s) i) = FIXED_of i"
      "cl_all (fcleared s (this_cpu s) i) = U64 (cl_low (fcleared s (this_cpu s) i)) (cl_high (fcleared s (this_cpu s) i))"
    using assms(2,3,4) by (simp_all add: fcpu_ok_def)
  note c = fcounter_clear_reg [OF assms(1) ci, folded assms(5)]
  have t: "this_cpu t = this_cpu s" "fcounters t = fcounters s" "fcleared t = fcleared s"
      "reg t (this_cpu s) (FIXED_of i) = cl_all (fcleared s (this_cpu s) i) + k"
    using c by (simp_all add: assms(6) set_reg_def) (simp add: reg_def U64_halves)
  have "fcpu_ok t (this_cpu t)" using assms(2) t by (simp add: fcpu_ok_def)
  from fcounter_read_at [OF _ this, of env i] assms(1,3,4) t show ?thesis
    by (simp add: get_fcounter_data_def)
qed

lemma fcounter_measures_witness:
  "let s = snd (fpmu_configure_interrupt 0 4294967000 7 (pmu_static (\<lambda>_ _. (0, 0))));
       c = fcounter_clear ex_env 0 s;
       t = set_reg 0 (FIXED_of 0) (reg c 0 (FIXED_of 0) + 1000) c
   in get_fcounter_data ex_env 0 0 (fcounter_read ex_env t) = 1000"
proof -
  let ?s = "snd (fpmu_configure_interrupt 0 4294967000 7 (pmu_static (\<lambda>_ _. (0, 0))))"
  have "this_cpu ?s = 0" by (simp add: fpmu_configure_interrupt_def set_fcleared_def pmu_static_def)
  moreover have "fcpu_ok ?s 0"
    using pmu_static_rows(2) [of "\<lambda>_ _. (0, 0)"]
    by (auto simp: fcpu_ok_def fpmu_configure_interrupt_def set_fcleared_def U64_def pmu_static_def)
  ultimately show ?thesis
    using fcounter_measures [of ?s ex_env 0, OF _ _ _ _ refl refl, of 1000]
    by (simp add: ex_env_def NUM_FIXED_COUNTERS_def Let_def)
qed

subsection \<open>The control register\<close>

definition fixctrl_fields :: "u32 \<Rightarrow> fixctrl_t" where
  "fixctrl_fields l =
     \<lparr>pmi0 = ucast (drop_bit 3 l), os0 = ucast l, usr0 = ucast (drop_bit 1 l),
      pmi1 = ucast (drop_bit 7 l), os1 = ucast (drop_bit 4 l), usr1 = ucast (drop_bit 5 l),
      pmi2 = ucast (drop_bit 11 l), os2 = ucast (drop_bit 8 l), usr2 = ucast (drop_bit 9 l)\<rparr>"

lemma bit_flag_double: "bit (ucast (b :: flag) * 2 :: u32) n \<longleftrightarrow> n = 1 \<and> bit b 0"
proof -
  have z: "bit b k \<Longrightarrow> k = 0" for k
    using bit_imp_le_length [of b k] by simp
  have "bit (2 * ucast b :: u32) n \<longleftrightarrow> n = 1 \<and> bit b 0"
  proof (cases "n = 1")
    case False
    then have "\<not> (n \<noteq> 0 \<and> bit b (n - Suc 0))" using z [of "n - Suc 0"] by auto
    with False show ?thesis by (simp add: bit_double_iff bit_unsigned_iff)
  qed (simp add: bit_double_iff bit_unsigned_iff)
  then show ?thesis by (simp only: mult.commute)
qed

lemma fixctrl_fields_image: "fixctrl_fields (fixctrl_image c) = c"
proof (rule fixctrl_t.equality)
qed (simp_all add: fixctrl_fields_def fixctrl_image_def
  SHIFT_FIX_USR0_def SHIFT_FIX_PMI0_def SHIFT_FIX_OS1_def SHIFT_FIX_USR1_def SHIFT_FIX_PMI1_def
  SHIFT_FIX_OS2_def SHIFT_FIX_USR2_def SHIFT_FIX_PMI2_def SHIFT_FIX_OS0_def,
  (rule bit_eqI, auto simp: bit_simps bit_flag_double dest: bit_imp_le_length)+)

lemma fixctrl_image_reserved: "fixctrl_image c AND FIXSEL_RESERVED_BITS = 0"
  unfolding fixctrl_image_def FIXSEL_RESERVED_BITS_def
    SHIFT_FIX_USR0_def SHIFT_FIX_PMI0_def SHIFT_FIX_OS1_def SHIFT_FIX_USR1_def SHIFT_FIX_PMI1_def
    SHIFT_FIX_OS2_def SHIFT_FIX_USR2_def SHIFT_FIX_PMI2_def SHIFT_FIX_OS0_def
  by (rule bit_eqI) (auto simp: bit_simps bit_BITS_AT bit_flag_double dest: bit_imp_le_length)

text \<open>
  \<open>control_write\<close> programs exactly the nine flags of the CPU's entry of \<open>fcontrol\<close>: reading
  the register back gives the entry. It does so by dropping the reserved bits it has just
  masked out of the old value: every reserved bit is zero afterwards, whatever it was before.
\<close>
theorem control_write_drops_reserved:
  assumes "this_cpu s < NR_CPUS env"
  shows "fixctrl_fields (control_read (control_write env s)) = fcontrol s (this_cpu s) \<and>
    control_read (control_write env s) AND FIXSEL_RESERVED_BITS = 0"
proof -
  have "control_read (control_write env s) = fixctrl_image (fcontrol s (this_cpu s))"
    using assms by (simp add: control_read_def control_write_def rdmsr_def wrmsr_def split: prod.split)
  then show ?thesis by (simp add: fixctrl_fields_image fixctrl_image_reserved)
qed

lemma control_write_drops_reserved_witness:
  "control_read (pmu_static (\<lambda>_ _. (4, 0))) AND FIXSEL_RESERVED_BITS \<noteq> 0 \<and>
   control_read (control_write ex_env (pmu_static (\<lambda>_ _. (4, 0)))) AND FIXSEL_RESERVED_BITS = 0"
  using control_write_drops_reserved [of "pmu_static (\<lambda>_ _. (4, 0))" ex_env]
  by (simp add: control_read_def rdmsr_def pmu_static_def ex_env_def fixctrl_bits)


subsection \<open>Configuration and enabling\<close>

text \<open>
  C11: Whatever calls the clients of the module make on whatever CPU, once \<open>pmu_init\<close> has
  succeeded on every CPU the hardware is configured as the tables say: the selection register
  of each counter holds exactly the fields of its \<open>evtsel\<close> entry, and its enable bit (bit 22)
  is set exactly when the counter is marked in use in \<open>counters\<close>.
\<close>
theorem pmu_configuration_in_sync:
  assumes "n \<le> NR_CPUS env" and "pmu_reach env n s"
    and "0 \<le> cpu" and "cpu < n" and "0 \<le> i" and "i < NUM_COUNTERS"
  shows "evtsel_fields (evtsel_reg s cpu i) (evtsel s cpu i) = evtsel s cpu i \<and>
    (ct_enabled (counters s cpu i) \<noteq> 0 \<longleftrightarrow> bit (evtsel_reg s cpu i) 22)"
proof -
  have "in_sync s cpu i"
    using pmu_reach_inv [OF assms(1,2)] assms(3-6) by (simp add: pmu_inv_def pmu_ok_def)
  from in_sync_bit [OF this] this show ?thesis by (simp only: in_sync_def)
qed

lemma ex_pmu_start:
  "pmu_reach ex_env 2 (snd (pmu_init ex_env [1, 0] 0 [0, 1] 0 (pmu_static (\<lambda>_ _. (0, 0)))))"
proof (rule pmu_reach.start)
  show "pmu_init ex_env [1, 0] 0 [0, 1] 0 (pmu_static (\<lambda>_ _. (0, 0))) =
      (0, snd (pmu_init ex_env [1, 0] 0 [0, 1] 0 (pmu_static (\<lambda>_ _. (0, 0)))))"
    by (simp add: pmu_init_def Let_def)
qed auto

lemma ex_pmu_cpus: "2 \<le> NR_CPUS ex_env"
  by (simp add: ex_env_def)

lemma pmu_configuration_in_sync_witness:
  "let s = snd (pmu_init ex_env [1, 0] 0 [0, 1] 0 (pmu_static (\<lambda>_ _. (0, 0))));
       t = snd (counter_enable ex_env 60 0 1 (s\<lparr>this_cpu := 1\<rparr>))
   in ct_enabled (counters t 1 0) \<noteq> 0 \<longleftrightarrow> bit (evtsel_reg t 1 0) 22"
  unfolding Let_def
  by (rule pmu_configuration_in_sync [of 2 ex_env, THEN conjunct2])
    (auto intro!: pmu_reach.enable pmu_reach.switch ex_pmu_start simp: ex_pmu_cpus NUM_COUNTERS_def)

lemma counter_enable_range:
  assumes cpu: "this_cpu s < NR_CPUS env"
    and free: "\<not> (\<forall>j. 0 \<le> j \<and> j < NUM_COUNTERS \<longrightarrow> ct_enabled (counters s (this_cpu s) j) \<noteq> 0)"
    and run: "counter_enable env event emask os s = (r, t)"
  shows "0 \<le> r \<and> r < NUM_COUNTERS"
proof -
  let ?p = "\<lambda>i. ct_enabled (counters s (this_cpu s) i) = 0"
  have i: "0 \<le> first_up ?p 0 NUM_COUNTERS \<and> first_up ?p 0 NUM_COUNTERS < NUM_COUNTERS"
    by (rule first_up_cases [where i = 0 and p = ?p and n = NUM_COUNTERS]) (use free in auto)
  have "r = first_up ?p 0 NUM_COUNTERS"
    using counter_enable_eq [OF cpu refl conjunct1 [OF i], of event emask os, unfolded run] by blast
  with i show ?thesis by simp
qed

text \<open>The selection register after it is programmed, read bit by bit.\<close>

lemma one_bit_flag: "bit (f :: flag) k \<longleftrightarrow> k = 0 \<and> bit f 0"
  using bit_imp_le_length [of f k] by auto

lemma shifted_flag: "bit (push_bit m (ucast (f :: flag)) :: u32) k \<longleftrightarrow> k = m \<and> m < 32 \<and> bit f 0"
  by (auto simp: bit_simps one_bit_flag [of f "k - m"])

lemma shifted_byte: "m \<le> 24 \<Longrightarrow> bit (push_bit m (ucast (b :: byte)) :: u32) k \<longleftrightarrow> m \<le> k \<and> k < m + 8 \<and> bit b (k - m)"
  using bit_imp_le_length [of b "k - m"] by (auto simp: bit_simps)

lemma image_bit:
  "bit (evtsel_image e) k \<longleftrightarrow> k < 8 \<and> bit (ev_select e) k \<or> 8 \<le> k \<and> k < 16 \<and> bit (ev_mask e) (k - 8) \<or>
     k = 16 \<and> bit (usr_flag e) 0 \<or> k = 17 \<and> bit (os_flag e) 0 \<or> k = 18 \<and> bit (edge e) 0 \<or>
     k = 19 \<and> bit (pc_flag e) 0 \<or> k = 20 \<and> bit (int_flag e) 0 \<or> k = 22 \<and> bit (ev_enabled e) 0 \<or>
     k = 23 \<and> bit (inv_flag e) 0 \<or> 24 \<le> k \<and> k < 32 \<and> bit (cnt_mask e) (k - 24)"
proof -
  have e: "bit (push_bit SHIFT_EVT_SEL (ucast (ev_select e) AND BITS LOW_BITS_EVT_SEL)) k \<longleftrightarrow> k < 8 \<and> bit (ev_select e) k"
    by (auto simp: SHIFT_EVT_SEL_def LOW_BITS_EVT_SEL_def BITS_mask bit_simps)
  show ?thesis
    unfolding evtsel_image_def bit_or_iff e shifted_flag SHIFT_EVT_MASK_def SHIFT_USR_FLAG_def SHIFT_OS_FLAG_def SHIFT_EDGE_FLAG_def SHIFT_PC_FLAG_def
      SHIFT_INT_FLAG_def SHIFT_ENABLED_def SHIFT_INV_FLAG_def SHIFT_CNT_MASK_def
    by (simp add: shifted_byte disj_assoc)
qed

lemma selection_bits:
  fixes old event emask os :: u32 and e :: evtsel_t
  defines "l \<equiv> (old AND EVTSEL_RESERVED_BITS) OR evtsel_image (evtsel_for event emask os e)"
  shows "n < 8 \<Longrightarrow> bit l n \<longleftrightarrow> bit event n" "n < 8 \<Longrightarrow> bit l (8 + n) \<longleftrightarrow> bit emask n" "n < 8 \<Longrightarrow> \<not> bit l (24 + n)"
    "bit l 16" "bit l 17 \<longleftrightarrow> bit os 0" "\<not> bit l 18" "bit l 19" "\<not> bit l 20" "bit l 21 \<longleftrightarrow> bit old 21" "bit l 22"
    "\<not> bit l 23"
  unfolding l_def bit_or_iff image_bit
  by (auto simp: bit_and_iff EVTSEL_RESERVED_BITS_def bit_BITS_AT evtsel_for_def bit_unsigned_iff bit_1_iff)

text \<open>
  C12: \<open>counter_enable\<close> answers \<open>-1\<close> and changes nothing when both counters of the CPU are in
  use. Otherwise it takes the lowest free counter, marks it with the event and the mask, zeroes its
  count and touches no register of any other counter. Bit by bit its selection register then holds
  the low eight bits of the event (0-7) and of the mask (8-15), user mode on (16), kernel mode as the
  lowest bit of \<open>os\<close> (17), pin control on (19), the enable bit (22), nothing in edge detection (18), the
  interrupt flag (20), inversion (23) and the counter mask (24-31), and the reserved bit 21 and the
  upper half as they were.
\<close>
theorem counter_enable_first_free:
  assumes cpu: "this_cpu s < NR_CPUS env" and wired: "pmu_wired s (this_cpu s)"
    and run: "counter_enable env event emask os s = (r, t)"
  shows "if \<forall>j. 0 \<le> j \<and> j < NUM_COUNTERS \<longrightarrow> ct_enabled (counters s (this_cpu s) j) \<noteq> 0
    then r = - 1 \<and> t = s
    else 0 \<le> r \<and> r < NUM_COUNTERS \<and> ct_enabled (counters s (this_cpu s) r) = 0 \<and>
      (\<forall>j. 0 \<le> j \<and> j < r \<longrightarrow> ct_enabled (counters s (this_cpu s) j) \<noteq> 0) \<and>
      ct_enabled (counters t (this_cpu s) r) = 1 \<and> ct_event (counters t (this_cpu s) r) = event \<and>
      ct_mask (counters t (this_cpu s) r) = emask \<and>
      (\<forall>n < 8. (bit (evtsel_reg t (this_cpu s) r) n \<longleftrightarrow> bit event n) \<and>
        (bit (evtsel_reg t (this_cpu s) r) (8 + n) \<longleftrightarrow> bit emask n) \<and>
        \<not> bit (evtsel_reg t (this_cpu s) r) (24 + n)) \<and>
      bit (evtsel_reg t (this_cpu s) r) 16 \<and> (bit (evtsel_reg t (this_cpu s) r) 17 \<longleftrightarrow> bit os 0) \<and>
      \<not> bit (evtsel_reg t (this_cpu s) r) 18 \<and> bit (evtsel_reg t (this_cpu s) r) 19 \<and>
      \<not> bit (evtsel_reg t (this_cpu s) r) 20 \<and> bit (evtsel_reg t (this_cpu s) r) 22 \<and>
      \<not> bit (evtsel_reg t (this_cpu s) r) 23 \<and>
      (bit (evtsel_reg t (this_cpu s) r) 21 \<longleftrightarrow> bit (evtsel_reg s (this_cpu s) r) 21) \<and>
      snd (msr t (this_cpu s) (EVTSEL_of r)) = snd (msr s (this_cpu s) (EVTSEL_of r)) \<and>
      msr t (this_cpu s) (PMC_of r) = (0, 0) \<and>
      (\<forall>c a. c \<noteq> this_cpu s \<or> a \<noteq> PMC_of r \<and> a \<noteq> EVTSEL_of r \<longrightarrow> msr t c a = msr s c a)"
proof (cases "\<forall>j. 0 \<le> j \<and> j < NUM_COUNTERS \<longrightarrow> ct_enabled (counters s (this_cpu s) j) \<noteq> 0")
  case True
  then show ?thesis using counter_enable_full [OF cpu] run by auto
next
  case False
  have i': "0 \<le> r" "r < NUM_COUNTERS" using counter_enable_range [OF cpu False run] by simp_all
  note t = counter_enable_run [OF cpu wired i' run]
  have reg: "evtsel_reg t (this_cpu s) r = (evtsel_reg s (this_cpu s) r AND EVTSEL_RESERVED_BITS) OR
      evtsel_image (evtsel_for event emask os (evtsel s (this_cpu s) r))"
    using t by (simp add: evtsel_reg_def)
  have "ct_event (counters t (this_cpu s) r) = event" "ct_mask (counters t (this_cpu s) r) = emask"
    using t by simp_all
  then show ?thesis using False t i' 
      selection_bits [where old = "evtsel_reg s (this_cpu s) r" and event = event and emask = emask and os = os and
        e = "evtsel s (this_cpu s) r"] unfolding reg by auto
qed

lemma counter_enable_first_free_witness:
  "fst (counter_enable ex_env 60 0 1 (pmu_static (\<lambda>_ _. (0, 0)))) = 0"
proof -
  let ?s = "pmu_static (\<lambda>_ _. (0, 0))"
  have w: "this_cpu ?s = 0" "pmu_wired ?s 0" "ct_enabled (counters ?s 0 0) = 0"
    by (auto simp: pmu_static_def pmu_wired_def counter_index evtsel_0_def counter_0_def EVTSEL_of_def PMC_of_def)
  obtain r t where run: "counter_enable ex_env 60 0 1 ?s = (r, t)" by fastforce
  have "this_cpu ?s < NR_CPUS ex_env" by (simp add: w ex_env_def)
  from counter_enable_first_free [OF this _ run] w
  have "0 \<le> r \<and> (\<forall>j. 0 \<le> j \<and> j < r \<longrightarrow> ct_enabled (counters ?s 0 j) \<noteq> 0)"
    by (auto simp: NUM_COUNTERS_def split: if_splits)
  with w run show ?thesis by (metis fst_conv order_le_less order_refl)
qed

subsection \<open>Unloading\<close>

text \<open>
  Unloading the module marks every counter free in the tables but leaves every register of
  every CPU as it is: a counter that was counting goes on counting after \<open>pmu_exit\<close>.
\<close>
theorem pmu_exit_keeps_counting:
  assumes "n \<le> NR_CPUS env" and "pmu_reach env n s"
    and "0 \<le> cpu" and "cpu < n" and "0 \<le> i" and "i < NUM_COUNTERS"
    and "ct_enabled (counters s cpu i) \<noteq> 0"
  shows "ct_enabled (counters (pmu_exit env s) cpu i) = 0 \<and> bit (evtsel_reg (pmu_exit env s) cpu i) 22"
proof -
  have "in_sync s cpu i"
    using pmu_reach_inv [OF assms(1,2)] assms(3-6) by (simp add: pmu_inv_def pmu_ok_def)
  then have "bit (evtsel_reg s cpu i) 22" using in_sync_bit assms(7) by blast
  moreover have row: "for_up 0 NUM_COUNTERS (\<lambda>j t. upd2 c j (\<lambda>c. c\<lparr>ct_enabled := 0\<rparr>) t) t c' j =
      (if c' = c \<and> (j = 0 \<or> j = 1) then (t c' j)\<lparr>ct_enabled := 0\<rparr> else t c' j)"
    for c c' j and t :: "counter_t arr arr"
    unfolding NUM_COUNTERS_loop by auto
  have "ct_enabled (for_up 0 (NR_CPUS env)
      (\<lambda>i t. for_up 0 NUM_COUNTERS (\<lambda>j t. upd2 i j (\<lambda>c. c\<lparr>ct_enabled := 0\<rparr>) t) t) (counters s) cpu i) = 0"
  proof -
    have "\<forall>c. 0 \<le> c \<and> c < NR_CPUS env \<longrightarrow> ct_enabled (for_up 0 (NR_CPUS env)
      (\<lambda>i t. for_up 0 NUM_COUNTERS (\<lambda>j t. upd2 i j (\<lambda>c. c\<lparr>ct_enabled := 0\<rparr>) t) t) (counters s) c i) = 0"
    proof (rule for_up_inv [where P = "\<lambda>k (t :: counter_t arr arr). \<forall>c. 0 \<le> c \<and> c < k \<longrightarrow> ct_enabled (t c i) = 0"])
      fix k and t :: "counter_t arr arr" assume "\<forall>c. 0 \<le> c \<and> c < k \<longrightarrow> ct_enabled (t c i) = 0"
      then show "\<forall>c. 0 \<le> c \<and> c < k + 1 \<longrightarrow>
          ct_enabled (for_up 0 NUM_COUNTERS (\<lambda>j t. upd2 k j (\<lambda>c. c\<lparr>ct_enabled := 0\<rparr>) t) t c i) = 0"
        using in_counters [OF assms(5,6)] by (auto simp: row)
    qed (use assms in auto)
    then show ?thesis using assms by simp
  qed
  ultimately show ?thesis by (simp add: pmu_exit_def evtsel_reg_def)
qed

lemma pmu_exit_keeps_counting_witness:
  "let s = snd (pmu_init ex_env [1, 0] 0 [0, 1] 0 (pmu_static (\<lambda>_ _. (0, 0))));
       t = snd (counter_enable ex_env 60 0 1 (s\<lparr>this_cpu := 1\<rparr>))
   in \<exists>i. ct_enabled (counters t 1 i) \<noteq> 0 \<and> bit (evtsel_reg (pmu_exit ex_env t) 1 i) 22"
proof -
  let ?s = "(snd (pmu_init ex_env [1, 0] 0 [0, 1] 0 (pmu_static (\<lambda>_ _. (0, 0)))))\<lparr>this_cpu := 1\<rparr>"
  let ?t = "snd (counter_enable ex_env 60 0 1 ?s)"
  have s: "pmu_reach ex_env 2 ?s" by (intro pmu_reach.switch ex_pmu_start) auto
  have t: "pmu_reach ex_env 2 ?t" by (intro pmu_reach.enable s) auto
  have n: "this_cpu ?s < NR_CPUS ex_env" by (simp add: ex_env_def)
  have w: "pmu_wired ?s (this_cpu ?s)" using pmu_reach_inv [OF ex_pmu_cpus s] by (simp add: pmu_inv_def pmu_ok_def)
  obtain r u where run: "counter_enable ex_env 60 0 1 ?s = (r, u)" by fastforce
  have "\<exists>i. 0 \<le> i \<and> i < NUM_COUNTERS \<and> ct_enabled (counters u 1 i) \<noteq> 0"
  proof (cases "\<forall>j. 0 \<le> j \<and> j < NUM_COUNTERS \<longrightarrow> ct_enabled (counters ?s (this_cpu ?s) j) \<noteq> 0")
    case True
    then have "ct_enabled (counters u 1 0) \<noteq> 0"
      using counter_enable_full [OF n, of 60 0 1] run by (auto simp: NUM_COUNTERS_def)
    then show ?thesis by (intro exI [of _ 0]) (simp add: NUM_COUNTERS_def)
  next
    case False
    have r: "0 \<le> r" "r < NUM_COUNTERS" using counter_enable_range [OF n False run] by simp_all
    show ?thesis using counter_enable_run [OF n w r run] r by auto
  qed
  then obtain i where i: "0 \<le> i" "i < NUM_COUNTERS" "ct_enabled (counters ?t 1 i) \<noteq> 0"
    using run by auto
  show ?thesis
    unfolding Let_def using pmu_exit_keeps_counting [OF ex_pmu_cpus t _ _ i(1,2,3)] i by auto
qed

end
