(* ===== verification/Search_State.thy ===== *)
theory Search_State
  imports Nr_Tasks
begin

text \<open>
  Finding a state for a task (\<open>Module/seeker-scheduler/search_state.c\<close>): a state is free when
  it has CPUs and fewer tasks than CPUs, where a task that already runs there does not
  count itself. The searches prefer a free state below, above or nearest to the request and
  fall back to the least loaded state. Requests are indices of states, so -1 only ever
  means that nothing was found.
\<close>

subsection \<open>Operations\<close>

definition is_state_free :: "kenv \<Rightarrow> 'a state_st_scheme \<Rightarrow> int \<Rightarrow> int \<Rightarrow> bool" where
  "is_state_free env s old state =
     (if old = state \<and> 0 < cpus (states s state) \<and>
         get_state_tasks_exself env state s < cpus (states s state) then True
      else if 0 < cpus (states s state) \<and> get_state_tasks env state s < cpus (states s state)
      then True else False)"

text \<open>The loop carries \<open>(min_load, min_state, min_found)\<close>.\<close>

definition lowest_step ::
    "kenv \<Rightarrow> 'a state_st_scheme \<Rightarrow> int \<Rightarrow> int \<times> int \<times> bool \<Rightarrow> int \<times> int \<times> bool" where
  "lowest_step env s i acc =
     (case acc of (min_load, min_state, min_found) \<Rightarrow>
        if cpus (states s i) = 0 then acc
        else
          let this_load = get_state_tasks env i s - cpus (states s i) in
          if \<not> min_found then (this_load, i, True)
          else if this_load < min_load then (this_load, i, min_found)
          else acc)"

definition lowest_loaded_state :: "kenv \<Rightarrow> 'a state_st_scheme \<Rightarrow> int" where
  "lowest_loaded_state env s =
     (case for_up 0 (total_states s) (lowest_step env s) (100000, 0, False) of
        (min_load, min_state, min_found) \<Rightarrow> if \<not> min_found then - 1 else min_state)"

definition search_state_down :: "kenv \<Rightarrow> 'a state_st_scheme \<Rightarrow> int \<Rightarrow> int \<Rightarrow> int" where
  "search_state_down env s old_state req_state =
     (let i = first_down (is_state_free env s old_state) req_state in
      if i \<noteq> - 1 then i
      else
        let i = first_up (is_state_free env s old_state) (req_state + 1) (total_states s) in
        if i \<noteq> - 1 then i else lowest_loaded_state env s)"

definition search_state_up :: "kenv \<Rightarrow> 'a state_st_scheme \<Rightarrow> int \<Rightarrow> int \<Rightarrow> int" where
  "search_state_up env s old_state req_state =
     (let i = first_up (is_state_free env s old_state) req_state (total_states s) in
      if i \<noteq> - 1 then i
      else
        let i = first_down (is_state_free env s old_state) (req_state - 1) in
        if i \<noteq> - 1 then i else lowest_loaded_state env s)"

definition search_state_closest :: "kenv \<Rightarrow> 'a state_st_scheme \<Rightarrow> int \<Rightarrow> int \<Rightarrow> int" where
  "search_state_closest env s old_state req_state =
     (if is_state_free env s old_state req_state then req_state
      else
        let state1 = search_state_down env s old_state req_state;
            state2 = search_state_up env s old_state req_state
        in if state1 = - 1 \<and> state2 = - 1 then lowest_loaded_state env s
           else if state1 = - 1 then state2
           else if state2 = - 1 then state1
           else if ABS (req_state - state1) < ABS (req_state - state2) then state1 else state2)"

text \<open>All a search looks at.\<close>

lemma search_cong:
  assumes "states u = states s" and "total_states u = total_states s"
    and "\<And>i. get_state_tasks env i u = get_state_tasks env i s"
    and "\<And>i. get_state_tasks_exself env i u = get_state_tasks_exself env i s"
  shows "search_state_closest env u cur r = search_state_closest env s cur r"
proof -
  have free: "is_state_free env u = is_state_free env s" and step: "lowest_step env u = lowest_step env s"
    using assms by (auto simp: fun_eq_iff is_state_free_def lowest_step_def)
  have low: "lowest_loaded_state env u = lowest_loaded_state env s"
    by (simp only: lowest_loaded_state_def step assms(2))
  show ?thesis
    by (simp only: search_state_closest_def search_state_down_def search_state_up_def free assms(2) low)
qed

subsection \<open>The least loaded state\<close>

definition state_load :: "kenv \<Rightarrow> 'a state_st_scheme \<Rightarrow> int \<Rightarrow> int" where
  "state_load env s i = get_state_tasks env i s - cpus (states s i)"

lemma lowest_loop:
  assumes "0 \<le> n"
  shows "case for_up 0 n (lowest_step env s) (100000, 0, False) of (l, m, found) \<Rightarrow>
    (if found then 0 \<le> m \<and> m < n \<and> cpus (states s m) \<noteq> 0 \<and> l = state_load env s m \<and>
       (\<forall>i. 0 \<le> i \<and> i < n \<and> cpus (states s i) \<noteq> 0 \<longrightarrow> l \<le> state_load env s i)
     else (\<forall>i. 0 \<le> i \<and> i < n \<longrightarrow> cpus (states s i) = 0))"
proof (rule for_up_inv [where P = "\<lambda>n st. 0 \<le> n \<and> (case st of (l, m, found) \<Rightarrow>
    (if found then 0 \<le> m \<and> m < n \<and> cpus (states s m) \<noteq> 0 \<and> l = state_load env s m \<and>
       (\<forall>i. 0 \<le> i \<and> i < n \<and> cpus (states s i) \<noteq> 0 \<longrightarrow> l \<le> state_load env s i)
     else (\<forall>i. 0 \<le> i \<and> i < n \<longrightarrow> cpus (states s i) = 0)))", THEN conjunct2])
  fix j and st :: "int \<times> int \<times> bool"
  assume a: "0 \<le> j \<and> (case st of (l, m, found) \<Rightarrow>
    (if found then 0 \<le> m \<and> m < j \<and> cpus (states s m) \<noteq> 0 \<and> l = state_load env s m \<and>
       (\<forall>i. 0 \<le> i \<and> i < j \<and> cpus (states s i) \<noteq> 0 \<longrightarrow> l \<le> state_load env s i)
     else (\<forall>i. 0 \<le> i \<and> i < j \<longrightarrow> cpus (states s i) = 0)))"
  obtain l m found where st: "st = (l, m, found)" by (cases st)
  have split: "i < j + 1 \<longleftrightarrow> i < j \<or> i = j" for i :: int by auto
  show "0 \<le> j + 1 \<and> (case lowest_step env s j st of (l, m, found) \<Rightarrow>
    (if found then 0 \<le> m \<and> m < j + 1 \<and> cpus (states s m) \<noteq> 0 \<and> l = state_load env s m \<and>
       (\<forall>i. 0 \<le> i \<and> i < j + 1 \<and> cpus (states s i) \<noteq> 0 \<longrightarrow> l \<le> state_load env s i)
     else (\<forall>i. 0 \<le> i \<and> i < j + 1 \<longrightarrow> cpus (states s i) = 0)))"
    using a unfolding st split
    by (cases found) (auto simp: lowest_step_def state_load_def Let_def intro: order_trans less_imp_le)
qed (use assms in auto)

lemma lowest_loaded_state_cases:
  assumes "0 \<le> total_states s"
  obtains (none) "lowest_loaded_state env s = - 1"
      and "\<And>i. 0 \<le> i \<Longrightarrow> i < total_states s \<Longrightarrow> cpus (states s i) = 0"
  | (least) "0 \<le> lowest_loaded_state env s" and "lowest_loaded_state env s < total_states s"
      and "cpus (states s (lowest_loaded_state env s)) \<noteq> 0"
      and "\<And>i. 0 \<le> i \<Longrightarrow> i < total_states s \<Longrightarrow> cpus (states s i) \<noteq> 0 \<Longrightarrow>
             state_load env s (lowest_loaded_state env s) \<le> state_load env s i"
  using lowest_loop [OF assms, where env = env and s = s]
  by (auto simp: lowest_loaded_state_def split: prod.splits if_splits intro: that)

subsection \<open>The searches\<close>

text \<open>What the callers of a search rely on: a free state is found whenever there is one.\<close>

locale state_search =
  fixes free :: "int \<Rightarrow> bool"
    and total :: int
    and least :: int
    and pick :: "int \<Rightarrow> int"
  assumes pick_free: "0 \<le> req \<Longrightarrow> req < total \<Longrightarrow> 0 \<le> i \<Longrightarrow> i < total \<Longrightarrow> free i \<Longrightarrow>
      0 \<le> pick req \<and> pick req < total \<and> free (pick req)"
    and pick_none: "0 \<le> req \<Longrightarrow> req < total \<Longrightarrow>
      (\<And>i. 0 \<le> i \<Longrightarrow> i < total \<Longrightarrow> \<not> free i) \<Longrightarrow> pick req = least"
begin

definition served :: "int \<Rightarrow> bool" where
  "served r \<longleftrightarrow> (if \<exists>i. 0 \<le> i \<and> i < total \<and> free i then 0 \<le> r \<and> r < total \<and> free r else r = least)"

lemma pick_served: "0 \<le> req \<Longrightarrow> req < total \<Longrightarrow> served (pick req)"
  using pick_free [of req] pick_none [of req] unfolding served_def by metis

end

lemma search_state_down_cases:
  assumes "0 \<le> req"
  obtains (below) "0 \<le> search_state_down env s old req" and "search_state_down env s old req \<le> req"
      and "is_state_free env s old (search_state_down env s old req)"
      and "\<And>k. search_state_down env s old req < k \<Longrightarrow> k \<le> req \<Longrightarrow> \<not> is_state_free env s old k"
  | (above) "\<And>k. 0 \<le> k \<Longrightarrow> k \<le> req \<Longrightarrow> \<not> is_state_free env s old k"
      and "req < search_state_down env s old req"
      and "search_state_down env s old req < total_states s"
      and "is_state_free env s old (search_state_down env s old req)"
      and "\<And>k. req < k \<Longrightarrow> k < search_state_down env s old req \<Longrightarrow> \<not> is_state_free env s old k"
  | (least) "\<And>k. 0 \<le> k \<Longrightarrow> k < total_states s \<Longrightarrow> \<not> is_state_free env s old k"
      and "search_state_down env s old req = lowest_loaded_state env s"
proof (cases rule: first_down_cases [of "is_state_free env s old" req])
  case hit
  then have "search_state_down env s old req = first_down (is_state_free env s old) req"
    by (simp add: search_state_down_def Let_def)
  with hit show thesis by (intro below) auto
next
  case none
  note low = none
  have "0 \<le> req + 1" using assms by simp
  then show thesis
  proof (cases rule: first_up_cases [of "req + 1" "is_state_free env s old" "total_states s"])
    case none
    have "\<not> is_state_free env s old k" if "0 \<le> k" "k < total_states s" for k
      using low(2) [of k] none(2) [of k] that by (cases "k \<le> req") auto
    then show thesis
      using low(1) none(1) by (intro least) (auto simp: search_state_down_def)
  next
    case hit
    then have "search_state_down env s old req =
        first_up (is_state_free env s old) (req + 1) (total_states s)"
      using low assms by (simp add: search_state_down_def)
    with hit low show thesis by (intro above) auto
  qed
qed

lemma search_state_up_cases:
  assumes "0 \<le> req"
  obtains (above) "req \<le> search_state_up env s old req"
      and "search_state_up env s old req < total_states s"
      and "is_state_free env s old (search_state_up env s old req)"
      and "\<And>k. req \<le> k \<Longrightarrow> k < search_state_up env s old req \<Longrightarrow> \<not> is_state_free env s old k"
  | (below) "\<And>k. req \<le> k \<Longrightarrow> k < total_states s \<Longrightarrow> \<not> is_state_free env s old k"
      and "0 \<le> search_state_up env s old req" and "search_state_up env s old req < req"
      and "is_state_free env s old (search_state_up env s old req)"
      and "\<And>k. search_state_up env s old req < k \<Longrightarrow> k < req \<Longrightarrow> \<not> is_state_free env s old k"
  | (least) "\<And>k. 0 \<le> k \<Longrightarrow> k < total_states s \<Longrightarrow> \<not> is_state_free env s old k"
      and "search_state_up env s old req = lowest_loaded_state env s"
  using assms
proof (cases rule: first_up_cases [of req "is_state_free env s old" "total_states s"])
  case hit
  then have "search_state_up env s old req =
      first_up (is_state_free env s old) req (total_states s)"
    using assms by (simp add: search_state_up_def Let_def)
  with hit show thesis by (intro above) auto
next
  case none
  note high = none
  show thesis
  proof (cases rule: first_down_cases [of "is_state_free env s old" "req - 1"])
    case none
    have "\<not> is_state_free env s old k" if "0 \<le> k" "k < total_states s" for k
      using high(2) [of k] none(2) [of k] that by (cases "req \<le> k") auto
    then show thesis
      using high(1) none(1) by (intro least) (auto simp: search_state_up_def)
  next
    case hit
    then have "search_state_up env s old req = first_down (is_state_free env s old) (req - 1)"
      using high by (simp add: search_state_up_def)
    with hit high show thesis by (intro below) auto
  qed
qed

text \<open>The nearest search returns a free state at minimal distance from the request.\<close>

lemma search_state_closest_near:
  assumes req: "0 \<le> req" "req < total_states s"
    and i: "0 \<le> i" "i < total_states s" "is_state_free env s old i"
  defines "r \<equiv> search_state_closest env s old req"
  shows "0 \<le> r \<and> r < total_states s \<and> is_state_free env s old r \<and> \<bar>req - r\<bar> \<le> \<bar>req - i\<bar>"
proof (cases "is_state_free env s old req")
  case True
  then show ?thesis using req by (simp add: r_def search_state_closest_def)
next
  case False
  define a where "a = search_state_down env s old req"
  define b where "b = search_state_up env s old req"
  have a: "0 \<le> a \<and> a < total_states s \<and> is_state_free env s old a \<and> (i \<le> req \<longrightarrow> i \<le> a \<and> a \<le> req)"
    unfolding a_def
    by (cases rule: search_state_down_cases [OF req(1), where env = env and s = s and old = old])
      (use req i in \<open>smt (verit)\<close>)+
  have b: "0 \<le> b \<and> b < total_states s \<and> is_state_free env s old b \<and> (req \<le> i \<longrightarrow> req \<le> b \<and> b \<le> i)"
    unfolding b_def
    by (cases rule: search_state_up_cases [OF req(1), where env = env and s = s and old = old])
      (use req i in \<open>smt (verit)\<close>)+
  have "r = (if \<bar>req - a\<bar> < \<bar>req - b\<bar> then a else b)"
    using False a b by (simp add: r_def search_state_closest_def a_def b_def Let_def)
  with a b show ?thesis by (smt (verit))
qed

lemma search_state_closest_none:
  assumes "0 \<le> req" and "req < total_states s"
    and "\<And>k. 0 \<le> k \<Longrightarrow> k < total_states s \<Longrightarrow> \<not> is_state_free env s old k"
  shows "search_state_closest env s old req = lowest_loaded_state env s"
proof -
  have "search_state_down env s old req = lowest_loaded_state env s"
    by (cases rule: search_state_down_cases [OF assms(1), where env = env and s = s and old = old]) (use assms in auto)
  moreover have "search_state_up env s old req = lowest_loaded_state env s"
    by (cases rule: search_state_up_cases [OF assms(1), where env = env and s = s and old = old]) (use assms in auto)
  ultimately show ?thesis
    using assms by (simp add: search_state_closest_def Let_def)
qed

interpretation down: state_search "is_state_free env s old" "total_states s"
  "lowest_loaded_state env s" "search_state_down env s old"
proof (unfold_locales, goal_cases)
  case (1 req i)
  then show ?case
    by (cases rule: search_state_down_cases [OF 1(1), where env = env and s = s and old = old]) auto
next
  case (2 req)
  then show ?case
    by (cases rule: search_state_down_cases [OF 2(1), where env = env and s = s and old = old]) auto
qed

interpretation up: state_search "is_state_free env s old" "total_states s"
  "lowest_loaded_state env s" "search_state_up env s old"
proof (unfold_locales, goal_cases)
  case (1 req i)
  then show ?case
    by (cases rule: search_state_up_cases [OF 1(1), where env = env and s = s and old = old]) auto
next
  case (2 req)
  then show ?case
    by (cases rule: search_state_up_cases [OF 2(1), where env = env and s = s and old = old]) auto
qed

interpretation closest: state_search "is_state_free env s old" "total_states s"
  "lowest_loaded_state env s" "search_state_closest env s old"
proof (unfold_locales, goal_cases)
  case (1 req i)
  then show ?case using search_state_closest_near by blast
next
  case (2 req)
  then show ?case by (rule search_state_closest_none)
qed

subsection \<open>Properties\<close>

text \<open>
  C18: the nearest search returns a free state at minimal distance from the request when
  any state is free, and the least loaded state otherwise.
\<close>

theorem search_state_closest_minimal:
  assumes "0 \<le> req" and "req < total_states s"
  shows "let r = search_state_closest env s old req in
    if \<exists>i. 0 \<le> i \<and> i < total_states s \<and> is_state_free env s old i
    then 0 \<le> r \<and> r < total_states s \<and> is_state_free env s old r \<and>
      (\<forall>i. 0 \<le> i \<and> i < total_states s \<and> is_state_free env s old i \<longrightarrow> \<bar>req - r\<bar> \<le> \<bar>req - i\<bar>)
    else r = lowest_loaded_state env s"
proof (cases "\<exists>i. 0 \<le> i \<and> i < total_states s \<and> is_state_free env s old i")
  case True
  then show ?thesis
    using search_state_closest_near [OF assms] by (auto simp: Let_def)
next
  case False
  then have "search_state_closest env s old req = lowest_loaded_state env s"
    by (intro search_state_closest_none [OF assms]) blast
  then show ?thesis unfolding Let_def if_not_P [OF False] .
qed

lemma ex_state_free: "is_state_free ex_env ex_state 0 0"
  by (simp add: is_state_free_def get_state_tasks_exself_def exec ex_state_simps ex_env_def)

lemma search_state_closest_minimal_witness:
  "is_state_free ex_env ex_state 0 (search_state_closest ex_env ex_state 0 1)"
proof -
  have "\<exists>i. 0 \<le> i \<and> i < total_states ex_state \<and> is_state_free ex_env ex_state 0 i"
    by (rule exI [of _ 0]) (simp add: ex_state_free, simp add: ex_state_simps)
  then show ?thesis
    using search_state_closest_minimal [of 1 ex_state ex_env 0]
    by (simp add: Let_def) (simp add: ex_state_simps)
qed

text \<open>
  a downward search takes the highest free state at or below the request before any
  above it, an upward search the lowest free state at or above it before any below.
\<close>

theorem search_directions:
  assumes "0 \<le> req" and "req < total_states s"
  shows "(\<forall>i. 0 \<le> i \<and> i \<le> req \<and> is_state_free env s old i \<longrightarrow>
      i \<le> search_state_down env s old req \<and> search_state_down env s old req \<le> req) \<and>
    (\<forall>i. req \<le> i \<and> i < total_states s \<and> is_state_free env s old i \<longrightarrow>
      req \<le> search_state_up env s old req \<and> search_state_up env s old req \<le> i)"
proof (intro conjI allI impI)
  fix i assume i: "0 \<le> i \<and> i \<le> req \<and> is_state_free env s old i"
  show "i \<le> search_state_down env s old req"
    by (cases rule: search_state_down_cases [OF assms(1), where env = env and s = s and old = old])
      (use i assms in \<open>smt (verit)\<close>)+
  show "search_state_down env s old req \<le> req"
    by (cases rule: search_state_down_cases [OF assms(1), where env = env and s = s and old = old])
      (use i assms in \<open>smt (verit)\<close>)+
next
  fix i assume i: "req \<le> i \<and> i < total_states s \<and> is_state_free env s old i"
  show "search_state_up env s old req \<le> i"
    by (cases rule: search_state_up_cases [OF assms(1), where env = env and s = s and old = old])
      (use i assms in \<open>smt (verit)\<close>)+
  show "req \<le> search_state_up env s old req"
    by (cases rule: search_state_up_cases [OF assms(1), where env = env and s = s and old = old])
      (use i assms in \<open>smt (verit)\<close>)+
qed

lemma search_directions_witness: "0 \<le> search_state_down ex_env ex_state 0 1"
  using search_directions [of 1 ex_state ex_env 0] ex_state_free
  by (auto simp: ex_state_simps)

text \<open>
  the fallback is -1 exactly when no state has CPUs; otherwise it is a state with CPUs
  whose number of tasks beyond its CPUs is minimal.
\<close>

theorem lowest_loaded_state_minimal:
  assumes "0 \<le> total_states s"
  shows "let r = lowest_loaded_state env s in
    if \<forall>i. 0 \<le> i \<and> i < total_states s \<longrightarrow> cpus (states s i) = 0 then r = - 1
    else 0 \<le> r \<and> r < total_states s \<and> cpus (states s r) \<noteq> 0 \<and>
      (\<forall>i. 0 \<le> i \<and> i < total_states s \<and> cpus (states s i) \<noteq> 0 \<longrightarrow>
         get_state_tasks env r s - cpus (states s r) \<le> get_state_tasks env i s - cpus (states s i))"
  using lowest_loaded_state_cases [OF assms, of env]
  by (auto simp: Let_def state_load_def)

lemma lowest_loaded_state_minimal_witness: "lowest_loaded_state ex_env ex_state \<noteq> - 1"
proof -
  have "\<not> (\<forall>i. 0 \<le> i \<and> i < total_states ex_state \<longrightarrow> cpus (states ex_state i) = 0)"
    by (auto simp: ex_state_simps intro!: exI [of _ 0])
  note some = this
  have "0 \<le> total_states ex_state" by (simp add: ex_state_simps)
  from lowest_loaded_state_minimal [OF this, of ex_env]
  have "0 \<le> lowest_loaded_state ex_env ex_state"
    unfolding Let_def if_not_P [OF some] by (rule conjunct1)
  then show ?thesis by simp
qed

end
