(* ===== verification/Map_Ipc.thy ===== *)
theory Map_Ipc
  imports Search_State
begin

text \<open>
  From the instructions per cycle of a task to the state it should run on
  (\<open>Module/seeker-scheduler/map_ipc.c\<close>, \<open>ipc.h\<close>, \<open>map_ipc.h\<close>): the ladder and the adaptive
  ladder move the request up or down from the current state, the select method looks it up
  in a table of thresholds; the searches of \<open>search_state.c\<close> then pick the state.
  The functions return the new state with the request and step they store through their
  pointer arguments.
\<close>

subsection \<open>Thresholds and saturating arithmetic\<close>

definition IPC :: "u64 \<Rightarrow> u64 \<Rightarrow> u64" where "IPC inst cy = div_u64 (push_bit 3 inst) cy"

definition IPC_0_000 :: int where "IPC_0_000 = 0"
definition IPC_0_125 :: int where "IPC_0_125 = 1"
definition IPC_0_250 :: int where "IPC_0_250 = 2"
definition IPC_0_375 :: int where "IPC_0_375 = 3"
definition IPC_0_500 :: int where "IPC_0_500 = 4"
definition IPC_0_625 :: int where "IPC_0_625 = 5"
definition IPC_0_750 :: int where "IPC_0_750 = 6"
definition IPC_0_875 :: int where "IPC_0_875 = 7"
definition IPC_1_000 :: int where "IPC_1_000 = 8"

definition IPC_HIGH :: int where "IPC_HIGH = IPC_0_750"
definition IPC_LOW :: int where "IPC_LOW = IPC_0_500"

lemmas ipc_defs = IPC_0_000_def IPC_0_125_def IPC_0_250_def IPC_0_375_def IPC_0_500_def
  IPC_0_625_def IPC_0_750_def IPC_0_875_def IPC_1_000_def IPC_HIGH_def IPC_LOW_def

definition min_states :: "int arr" where
  "min_states =
     (\<lambda>_. 0)(0 := 0, 1 := IPC_0_250, 2 := IPC_0_500, 3 := IPC_0_750, 4 := IPC_1_000 + IPC_0_125)"

definition sat_inc :: "int \<Rightarrow> int \<Rightarrow> int" where
  "sat_inc state ex_limit = (if state < ex_limit - 1 then state + 1 else ex_limit - 1)"

definition sat_dec :: "int \<Rightarrow> int \<Rightarrow> int" where
  "sat_dec state inc_limit = (if inc_limit < state then state - 1 else inc_limit)"

definition sat_sum :: "int \<Rightarrow> int \<Rightarrow> int \<Rightarrow> int \<Rightarrow> int" where
  "sat_sum a b inc_low ex_high =
     (if ex_high \<le> a + b then ex_high - 1 else if a + b < inc_low then inc_low else a + b)"

lemmas sat_defs = sat_inc_def sat_dec_def sat_sum_def

definition LADDER_SCHEDULING :: int where "LADDER_SCHEDULING = 0"
definition SELECT_SCHEDULING :: int where "SELECT_SCHEDULING = 1"
definition ADAPTIVE_LADDER_SCHEDULING :: int where "ADAPTIVE_LADDER_SCHEDULING = 2"
definition DISABLE_SCHEDULING :: int where "DISABLE_SCHEDULING = 3"

lemmas scheduling_defs = LADDER_SCHEDULING_def SELECT_SCHEDULING_def
  ADAPTIVE_LADDER_SCHEDULING_def DISABLE_SCHEDULING_def

subsection \<open>The evaluations\<close>

text \<open>Results are \<open>(new_state, *state_req)\<close>.\<close>

definition ladder_evaluation :: "kenv \<Rightarrow> 'a state_st_scheme \<Rightarrow> int \<Rightarrow> int \<Rightarrow> int \<times> int" where
  "ladder_evaluation env s ipc cur_state =
     (if IPC_HIGH \<le> ipc then
        let state_req = sat_inc cur_state (total_states s)
        in (search_state_up env s cur_state state_req, state_req)
      else if ipc \<le> IPC_LOW then
        let state_req = sat_dec cur_state 0
        in (search_state_down env s cur_state state_req, state_req)
      else
        let state_req = cur_state
        in (search_state_closest env s cur_state state_req, state_req))"

text \<open>Results are \<open>(new_state, *step, *state_req)\<close>.\<close>

definition adaptive_ladder_evaluation ::
    "kenv \<Rightarrow> 'a state_st_scheme \<Rightarrow> int \<Rightarrow> int \<Rightarrow> int \<Rightarrow> int \<times> int \<times> int" where
  "adaptive_ladder_evaluation env s ipc cur_state step =
     (if IPC_HIGH \<le> ipc then
        if 0 < step then
          let state_req = sat_sum cur_state step 0 (total_states s);
              step = sat_inc step (total_states s)
          in (search_state_up env s cur_state state_req, step, state_req)
        else if step = 0 then (search_state_closest env s cur_state cur_state, 1, cur_state)
        else (search_state_closest env s cur_state cur_state, 0, cur_state)
      else if ipc \<le> IPC_LOW then
        if step < 0 then
          let state_req = sat_sum cur_state step 0 (total_states s);
              step = sat_dec step (- 1 * total_states s)
          in (search_state_down env s cur_state state_req, step, state_req)
        else if step = 0 then (search_state_closest env s cur_state cur_state, - 1, cur_state)
        else (search_state_closest env s cur_state cur_state, 0, cur_state)
      else (search_state_closest env s cur_state cur_state, 0, cur_state))"

text \<open>
  The loop of the select method counts up from the highest state. \<open>None\<close> is an index
  below the array (the loop is not entered) or beyond it, where the read has no defined
  value; \<open>select_loop_in_array\<close> below shows that the second never happens.
\<close>

function select_loop :: "int \<Rightarrow> int \<Rightarrow> int option" where
  "select_loop ipc i =
     (if i < 0 \<or> MAX_STATES \<le> i then None
      else if min_states i \<le> ipc then Some i
      else select_loop ipc (i + 1))"
  by pat_completeness auto
termination
  by (relation "measure (\<lambda>(ipc, i). nat (MAX_STATES - i))") auto

declare select_loop.simps [simp del]

definition select_evaluation ::
    "kenv \<Rightarrow> 'a state_st_scheme \<Rightarrow> int \<Rightarrow> int \<Rightarrow> int \<Rightarrow> int \<times> int" where
  "select_evaluation env s ipc cur_state state_req =
     (let state_req = (case select_loop ipc (total_states s - 1) of
                         None \<Rightarrow> state_req | Some i \<Rightarrow> i)
      in (search_state_closest env s cur_state state_req, state_req))"

text \<open>
  \<open>error_thrown\<close> limits the message of the default case to the first time. Results are
  \<open>(new_state, *step, *state_req, error_thrown)\<close>.
\<close>

definition evaluate_ipc ::
    "kenv \<Rightarrow> 'a state_st_scheme \<Rightarrow> int \<Rightarrow> int \<Rightarrow> int \<Rightarrow> int \<Rightarrow> int \<Rightarrow> bool \<Rightarrow>
     int \<times> int \<times> int \<times> bool" where
  "evaluate_ipc env s scheduling_method ipc cur_state step state_req error_thrown =
     (if scheduling_method = LADDER_SCHEDULING then
        (case ladder_evaluation env s ipc cur_state of
           (new_state, req) \<Rightarrow> (new_state, step, req, error_thrown))
      else if scheduling_method = ADAPTIVE_LADDER_SCHEDULING then
        (case adaptive_ladder_evaluation env s ipc cur_state step of
           (new_state, step, req) \<Rightarrow> (new_state, step, req, error_thrown))
      else if scheduling_method = SELECT_SCHEDULING then
        (case select_evaluation env s ipc cur_state state_req of
           (new_state, req) \<Rightarrow> (new_state, step, req, error_thrown))
      else (cur_state, step, state_req, True))"

subsection \<open>Bounds of the requests\<close>

text \<open>
  A state that a search may return: free if any state is, the least loaded one otherwise.
\<close>

definition served_state :: "kenv \<Rightarrow> 'a state_st_scheme \<Rightarrow> int \<Rightarrow> int \<Rightarrow> bool" where
  "served_state env s cur r \<longleftrightarrow>
     (if \<exists>i. 0 \<le> i \<and> i < total_states s \<and> is_state_free env s cur i
      then 0 \<le> r \<and> r < total_states s \<and> is_state_free env s cur r
      else r = lowest_loaded_state env s)"

lemma served_searches:
  assumes "0 \<le> req" and "req < total_states s"
  shows "served_state env s cur (search_state_down env s cur req)"
    and "served_state env s cur (search_state_up env s cur req)"
    and "served_state env s cur (search_state_closest env s cur req)"
  using down.pick_served [OF assms, where env = env and old = cur]
    up.pick_served [OF assms, where env = env and old = cur]
    closest.pick_served [OF assms, where env = env and old = cur]
  by (simp_all add: served_state_def down.served_def up.served_def closest.served_def)

lemma ladder_evaluation_spec:
  assumes "0 \<le> cur" and "cur < total_states s"
    and "ladder_evaluation env s ipc cur = (new_state, req)"
  shows "0 \<le> req \<and> req < total_states s \<and> \<bar>req - cur\<bar> \<le> 1 \<and> served_state env s cur new_state"
  using assms by (auto simp: ladder_evaluation_def sat_defs Let_def served_searches split: if_splits)

definition step_ok :: "int \<Rightarrow> int \<Rightarrow> bool" where
  "step_ok tot step \<longleftrightarrow> - tot \<le> step \<and> step \<le> max 1 (tot - 1)"

lemma adaptive_ladder_evaluation_spec:
  assumes "0 \<le> cur" and "cur < total_states s" and "step_ok (total_states s) step"
    and "adaptive_ladder_evaluation env s ipc cur step = (new_state, step', req)"
  shows "0 \<le> req \<and> req < total_states s \<and> \<bar>req - cur\<bar> \<le> \<bar>step\<bar> \<and> step_ok (total_states s) step' \<and>
    served_state env s cur new_state"
proof -
  have sum: "0 \<le> sat_sum cur step 0 (total_states s) \<and>
      sat_sum cur step 0 (total_states s) < total_states s \<and>
      \<bar>sat_sum cur step 0 (total_states s) - cur\<bar> \<le> \<bar>step\<bar>"
    using assms(1,2) by (auto simp: sat_sum_def)
  have "step_ok (total_states s) step'"
    using assms by (auto simp: adaptive_ladder_evaluation_def step_ok_def sat_inc_def sat_dec_def
        Let_def split: if_splits)
  moreover have "0 \<le> req \<and> req < total_states s \<and> \<bar>req - cur\<bar> \<le> \<bar>step\<bar>"
    using assms(1,2,4) sum by (auto simp: adaptive_ladder_evaluation_def Let_def split: if_splits)
  moreover have "served_state env s cur new_state"
    using assms(1,2,4) sum
    by (auto simp: adaptive_ladder_evaluation_def Let_def served_searches split: if_splits)
  ultimately show ?thesis by blast
qed

text \<open>
  The select loop ends inside the array for every non-negative IPC, but it only ever moves
  away from the valid states: the request is never below the highest one.
\<close>

lemma min_states_high: "5 \<le> i \<Longrightarrow> min_states i = 0"
  by (simp add: min_states_def)

lemma select_loop_in_array:
  assumes "0 \<le> ipc" and "0 \<le> i" and "i < MAX_STATES"
  obtains r where "select_loop ipc i = Some r" and "i \<le> r" and "r < MAX_STATES"
    and "min_states r \<le> ipc" and "\<And>k. i \<le> k \<Longrightarrow> k < r \<Longrightarrow> ipc < min_states k"
proof -
  have "\<exists>r. select_loop ipc i = Some r \<and> i \<le> r \<and> r < MAX_STATES \<and> min_states r \<le> ipc \<and>
      (\<forall>k. i \<le> k \<and> k < r \<longrightarrow> ipc < min_states k)"
    using assms
  proof (induction ipc i rule: select_loop.induct)
    case (1 ipc i)
    show ?case
    proof (cases "min_states i \<le> ipc")
      case True
      with 1 show ?thesis by (subst select_loop.simps) auto
    next
      case False
      then have "\<not> 5 \<le> i" using 1 min_states_high [of i] by auto
      then have "i < 5" by simp
      then obtain r where r: "select_loop ipc (i + 1) = Some r" "i + 1 \<le> r" "r < MAX_STATES"
        "min_states r \<le> ipc" "\<forall>k. i + 1 \<le> k \<and> k < r \<longrightarrow> ipc < min_states k"
        using 1 False by (auto simp: MAX_STATES_def)
      have "ipc < min_states k" if "i \<le> k" "k < r" for k
        using r(5) that False by (cases "k = i") auto
      moreover have "select_loop ipc i = Some r"
        using 1 False r(1) by (subst select_loop.simps) simp
      ultimately show ?thesis using r by auto
    qed
  qed
  then show thesis using that by blast
qed

lemma select_evaluation_request:
  assumes "0 \<le> ipc" and "1 \<le> total_states s" and "total_states s \<le> MAX_STATES"
    and "select_evaluation env s ipc cur req0 = (new_state, req)"
  shows "total_states s - 1 \<le> req \<and>
    (req = total_states s - 1 \<longleftrightarrow> min_states (total_states s - 1) \<le> ipc)"
proof -
  obtain r where r: "select_loop ipc (total_states s - 1) = Some r" "total_states s - 1 \<le> r"
    "min_states r \<le> ipc" "\<And>k. total_states s - 1 \<le> k \<Longrightarrow> k < r \<Longrightarrow> ipc < min_states k"
    by (rule select_loop_in_array [of ipc "total_states s - 1"]) (use assms in auto)
  have "req = r" using assms(4) r(1) by (simp add: select_evaluation_def Let_def)
  with r show ?thesis by (metis leD leI order_le_less order_refl)
qed

subsection \<open>Properties\<close>

text \<open>
  the ladder never requests a state that does not exist nor one more than a step away,
  and sends the task to a free state whenever there is one.
\<close>

theorem ladder_evaluation_bounds:
  assumes "0 \<le> cur" and "cur < total_states s"
  shows "case ladder_evaluation env s ipc cur of (new_state, req) \<Rightarrow>
    0 \<le> req \<and> req < total_states s \<and> \<bar>req - cur\<bar> \<le> 1 \<and> served_state env s cur new_state"
  using ladder_evaluation_spec [OF assms, of env ipc] by (auto split: prod.splits)

lemma ladder_evaluation_bounds_witness:
  "served_state ex_env ex_state 1 (fst (ladder_evaluation ex_env ex_state 7 1))"
  using ladder_evaluation_bounds [of 1 ex_state ex_env 7]
  by (auto simp: ex_state_simps split: prod.splits)

text \<open>
  C27: the adaptive ladder never requests a state that does not exist nor one further than
  its step, keeps the step between minus the number of states and the highest state (1 on
  a single state), and sends the task to a free state whenever there is one.
\<close>

theorem adaptive_ladder_bounds:
  assumes "0 \<le> cur" and "cur < total_states s" and "step_ok (total_states s) step"
  shows "case adaptive_ladder_evaluation env s ipc cur step of (new_state, step', req) \<Rightarrow>
    0 \<le> req \<and> req < total_states s \<and> \<bar>req - cur\<bar> \<le> \<bar>step\<bar> \<and>
    step_ok (total_states s) step' \<and> served_state env s cur new_state"
  using adaptive_ladder_evaluation_spec [OF assms, of env ipc] by (auto split: prod.splits)

lemma adaptive_ladder_bounds_witness:
  "step_ok 3 (fst (snd (adaptive_ladder_evaluation ex_env ex_state 2 1 (- 3))))"
  using adaptive_ladder_bounds [of 1 ex_state "- 3" ex_env 2]
  by (auto simp: ex_state_simps step_ok_def split: prod.splits)

text \<open>
  C28: the select method never requests a state below the highest one, whatever the IPC: its
  loop counts up where it should count down, and every IPC under the threshold of the
  highest state yields a request for a state that does not exist.
\<close>

theorem select_evaluation_never_lower:
  assumes "0 \<le> ipc" and "1 \<le> total_states s" and "total_states s \<le> MAX_STATES"
  shows "case select_evaluation env s ipc cur req0 of (new_state, req) \<Rightarrow>
    total_states s - 1 \<le> req \<and>
    (ipc < min_states (total_states s - 1) \<longrightarrow> total_states s \<le> req)"
  using select_evaluation_request [OF assms, of env cur req0] by (fastforce split: prod.splits)

lemma select_evaluation_never_lower_witness:
  "3 \<le> snd (select_evaluation ex_env ex_state 1 0 0)"
  using select_evaluation_never_lower [of 1 ex_state ex_env 0 0]
  by (auto simp: ex_state_simps MAX_STATES_def min_states_def ipc_defs split: prod.splits)

end
