(* ===== verification/Pds.thy ===== *)
theory Pds
  imports Hw_Counters Map_Ipc
begin

text \<open>
  Performance-directed scheduling (\<open>Module/seeker-scheduler/pds.c\<close>, \<open>pds.h\<close>): what happens to a task
  that leaves its CPU after \<open>INST_THRESHOLD\<close> instructions, and to a task that is born. The state a task
  asks for is counted as demand for the mutator, the state it is given becomes a migration request
  through the pool of \<open>migrate.c\<close>, and the decision is logged.

  The writer of \<open>states_seq_lock\<close> is another handler, so inside one handler the sequence loop runs once.
\<close>

subsection \<open>State\<close>

definition INST_THRESHOLD :: u64 where "INST_THRESHOLD = 10000000"
definition FIXED_STATE_LOW :: int where "FIXED_STATE_LOW = 0"
definition FIXED_STATE_MID :: int where "FIXED_STATE_MID = 1"
definition FIXED_STATE_HIGH :: int where "FIXED_STATE_HIGH = 2"

lemmas fixed_state_defs = FIXED_STATE_LOW_def FIXED_STATE_MID_def FIXED_STATE_HIGH_def

record pds_st = hw_st +
  disable_scheduling :: int
  scheduling_method :: int
  error_thrown :: bool
  total_online_mask :: "int set"

subsection \<open>Operations\<close>

text \<open>The \<open>u64\<close> value of \<open>IPC\<close> is stored in a \<open>short\<close>.\<close>

definition short_ipc :: "task_struct \<Rightarrow> int" where
  "short_ipc t = sint (ucast (IPC (inst t) (re_cy t)) :: u16)"

text \<open>The switch inside the sequence loop: \<open>(new_state, hist_step, state_req, ipc, error_thrown)\<close>.\<close>

definition decide ::
  "kenv \<Rightarrow> task_struct \<Rightarrow> int \<Rightarrow> 'a pds_st_scheme \<Rightarrow> int \<times> int \<times> int \<times> int \<times> bool" where
  "decide env t state s =
     (if fixed_state t = FIXED_STATE_LOW then
        (search_state_closest env s state (low_state s), hist_step t, low_state s, 0, error_thrown s)
      else if fixed_state t = FIXED_STATE_MID then
        (search_state_closest env s state (mid_state s), hist_step t, mid_state s, 0, error_thrown s)
      else if fixed_state t = FIXED_STATE_HIGH then
        (search_state_closest env s state (high_state s), hist_step t, high_state s, 0, error_thrown s)
      else
        (case evaluate_ipc env s (scheduling_method s) (short_ipc t) state (hist_step t) 0 (error_thrown s) of
           (new_state, step, state_req, err) \<Rightarrow> (new_state, step, state_req, short_ipc t, err)))"

definition decision_entry :: "task_struct \<Rightarrow> int \<Rightarrow> int \<Rightarrow> int \<Rightarrow> int \<Rightarrow> int \<Rightarrow> log_t" where
  "decision_entry t cpu state state_req new_state ipc =
     LOG_SCH \<lparr>sch_interval = interval t, sch_pid = of_int (pid t), sch_cpu = of_int cpu,
       sch_state = of_int state, sch_cycles = ref_cy t, sch_state_req = of_int state_req,
       sch_state_given = of_int new_state, sch_ipc = of_int ipc, sch_inst = inst t\<rparr>"

definition state_mask :: "'a pds_st_scheme \<Rightarrow> int \<Rightarrow> int set" where
  "state_mask s i = (if 0 \<le> i \<and> i < total_states s then cpumask (states s i) else {})"

definition put_mask_from_stats :: "kenv \<Rightarrow> nat \<Rightarrow> 'a pds_st_scheme \<Rightarrow> 'a pds_st_scheme" where
  "put_mask_from_stats env ts s =
     (let this_cpu = smp_processor_id s in
      if inst (tasks s ts) < INST_THRESHOLD then s
      else
        let state = cur_cpu_state s this_cpu
        in case decide env (tasks s ts) state s of
          (new_state, step, state_req, ipc, err) \<Rightarrow>
            let s = (upd_task ts (\<lambda>t. t\<lparr>hist_step := step\<rparr>) s)\<lparr>error_thrown := err\<rparr>;
                smask = state_mask s new_state;
                s = demand_inc state_req s;
                s = log_entry env (decision_entry (tasks s ts) this_cpu state state_req new_state ipc) s;
                s = upd_task ts (\<lambda>t. t\<lparr>interval := interval_count s, inst := 0, ref_cy := 0, re_cy := 0,
                      cpustate := new_state\<rparr>) s
            in if smask = {} then s
               else if disable_scheduling s = 0 then put_work env ts smask s else s)"

definition initial_mask :: "kenv \<Rightarrow> nat \<Rightarrow> 'a pds_st_scheme \<Rightarrow> 'a pds_st_scheme" where
  "initial_mask env ts s =
     (let cpu = smp_processor_id s;
          state = search_state_closest env s (cur_cpu_state s cpu) (base_state s);
          smask = state_mask s state;
          s = upd_task ts (\<lambda>t. t\<lparr>hist_step := 0\<rparr>) s
      in if smask = {}
         then put_work env ts (total_online_mask s)
                (upd_task ts (\<lambda>t. t\<lparr>cpustate := cur_cpu_state s cpu\<rparr>) s)
         else put_work env ts smask (upd_task ts (\<lambda>t. t\<lparr>cpustate := state\<rparr>) s))"

subsection \<open>What the other parts of a handler leave alone\<close>

text \<open>A step that only writes task structs, demand and log leaves the pool and the requests in it.\<close>

lemma requests_cong: "mig_pool t = mig_pool s \<Longrightarrow> requests env t = requests env s"
  by (simp add: requests_def used_slots_def)

lemma pool_ok_cong: "mig_pool t = mig_pool s \<Longrightarrow> pool_ok env t = pool_ok env s"
  by (simp add: pool_ok_def)

lemma put_work_frame:
  obtains p where "put_work env ts m s = s\<lparr>mig_pool := p\<rparr>"
proof -
  have "put_work env ts m s = s\<lparr>mig_pool := mig_pool (put_work env ts m s)\<rparr>"
    by (simp add: put_work_def put_work_claim_def put_work_fill_def upd_slot_def Let_def)
  then show thesis by (rule that)
qed

lemma put_work_frames [simp]:
  "states (put_work env ts m s) = states s" "total_states (put_work env ts m s) = total_states s"
  "cur_cpu_state (put_work env ts m s) = cur_cpu_state s" "tasks (put_work env ts m s) = tasks s"
  "pmu (put_work env ts m s) = pmu s" "interval_count (put_work env ts m s) = interval_count s"
  by (rule put_work_frame [of env ts m s], simp)+

lemma log_entry_frames [simp]:
  "states (log_entry env e s) = states s" "total_states (log_entry env e s) = total_states s"
  "cur_cpu_state (log_entry env e s) = cur_cpu_state s" "tasks (log_entry env e s) = tasks s"
  "mig_pool (log_entry env e s) = mig_pool s" "pmu (log_entry env e s) = pmu s"
  "interval_count (log_entry env e s) = interval_count s"
  "disable_scheduling (log_entry env e s) = disable_scheduling s"
  by (rule log_entry_frame [of env e s], simp)+

text \<open>The decision: what is demanded, what the task is left with, and what is asked of the pool.\<close>

definition asks :: "kenv \<Rightarrow> nat \<Rightarrow> int set \<Rightarrow> (nat \<times> int set) multiset \<Rightarrow> (nat \<times> int set) multiset" where
  "asks env ts m r = (if m \<noteq> {} \<and> size r < nat (MIG_POOL_SIZE env) then add_mset (ts, m) r else r)"

lemma put_mask_run:
  assumes ok: "pool_ok env s" and thr: "INST_THRESHOLD \<le> inst (tasks s ts)"
    and d: "decide env (tasks s ts) (cur_cpu_state s (smp_processor_id s)) s = (new_state, step, state_req, ipc, err)"
  shows "pool_ok env (put_mask_from_stats env ts s) \<and>
    states (put_mask_from_stats env ts s) = (states s)(state_req := (states s state_req)
      \<lparr>demand := demand (states s state_req) + 1\<rparr>) \<and>
    tasks (put_mask_from_stats env ts s) = (tasks s)(ts := (tasks s ts)\<lparr>hist_step := step,
      interval := interval_count s, inst := 0, ref_cy := 0, re_cy := 0, cpustate := new_state\<rparr>) \<and>
    requests env (put_mask_from_stats env ts s) =
      (if disable_scheduling s = 0 then asks env ts (state_mask s new_state) (requests env s) else requests env s)"
proof -
  let ?s1 = "(upd_task ts (\<lambda>t. t\<lparr>hist_step := step\<rparr>) s)\<lparr>error_thrown := err\<rparr>"
  let ?s2 = "demand_inc state_req ?s1"
  let ?s3 = "log_entry env (decision_entry (tasks ?s2 ts) (smp_processor_id s)
    (cur_cpu_state s (smp_processor_id s)) state_req new_state ipc) ?s2"
  let ?s4 = "upd_task ts (\<lambda>t. t\<lparr>interval := interval_count ?s3, inst := 0, ref_cy := 0, re_cy := 0,
                      cpustate := new_state\<rparr>) ?s3"
  have m: "state_mask ?s1 new_state = state_mask s new_state" by (simp add: state_mask_def upd_task_def)
  have run: "put_mask_from_stats env ts s =
      (if state_mask s new_state = {} then ?s4
       else if disable_scheduling ?s4 = 0 then put_work env ts (state_mask s new_state) ?s4 else ?s4)"
    using thr d by (simp add: put_mask_from_stats_def Let_def m)
  have s4: "mig_pool ?s4 = mig_pool s" "disable_scheduling ?s4 = disable_scheduling s"
      "states ?s4 = (states s)(state_req := (states s state_req)\<lparr>demand := demand (states s state_req) + 1\<rparr>)"
      "tasks ?s4 = (tasks s)(ts := (tasks s ts)\<lparr>hist_step := step,
        interval := interval_count s, inst := 0, ref_cy := 0, re_cy := 0, cpustate := new_state\<rparr>)"
    by (simp_all add: upd_task_def demand_inc_def upd_state_def)
  have "pool_ok env ?s4" using pool_ok_cong [OF s4(1)] ok by simp
  note w = put_work_requests [OF this, of ts "state_mask s new_state"]
  show ?thesis
    unfolding run asks_def using w requests_cong [OF s4(1), of env] s4 \<open>pool_ok env ?s4\<close> by simp
qed

subsection \<open>The decision\<close>

definition pinned_state :: "task_struct \<Rightarrow> 'a pds_st_scheme \<Rightarrow> int option" where
  "pinned_state t s =
     (if fixed_state t = FIXED_STATE_LOW then Some (low_state s)
      else if fixed_state t = FIXED_STATE_MID then Some (mid_state s)
      else if fixed_state t = FIXED_STATE_HIGH then Some (high_state s) else None)"

definition marks_ok :: "'a pds_st_scheme \<Rightarrow> bool" where
  "marks_ok s \<longleftrightarrow> low_state s \<in> {0..<total_states s} \<and> mid_state s \<in> {0..<total_states s} \<and>
     high_state s \<in> {0..<total_states s}"

text \<open>Pinned tasks, and tasks under the two ladder methods, ask for a state that exists and are served.\<close>

lemma decide_served:
  assumes cur: "0 \<le> cur" "cur < total_states s" and marks: "marks_ok s"
    and step: "step_ok (total_states s) (hist_step t)"
    and m: "scheduling_method s = LADDER_SCHEDULING \<or> scheduling_method s = ADAPTIVE_LADDER_SCHEDULING"
    and d: "decide env t cur s = (new_state, step, req, ipc, err)"
  shows "0 \<le> req \<and> req < total_states s \<and> served_state env s cur new_state \<and>
    step_ok (total_states s) step \<and> (\<forall>r. pinned_state t s = Some r \<longrightarrow> req = r)"
proof (cases "pinned_state t s")
  case (Some r)
  then have r: "0 \<le> r" "r < total_states s" and
      dec: "decide env t cur s = (search_state_closest env s cur r, hist_step t, r, 0, error_thrown s)"
    using marks by (auto simp: pinned_state_def marks_ok_def decide_def split: if_splits)
  show ?thesis using served_searches(3) [OF r, of env cur] r step d dec Some by auto
next
  case None
  have dec: "(case evaluate_ipc env s (scheduling_method s) (short_ipc t) cur (hist_step t) 0 (error_thrown s) of
           (new_state, step, state_req, err) \<Rightarrow> (new_state, step, state_req, short_ipc t, err)) =
      (new_state, step, req, ipc, err)"
    using None d by (simp add: decide_def pinned_state_def split: if_splits)
  show ?thesis
  proof (cases "scheduling_method s = LADDER_SCHEDULING")
    case True
    then have "ladder_evaluation env s (short_ipc t) cur = (new_state, req)" and "step = hist_step t"
      using dec by (auto simp: evaluate_ipc_def split: prod.splits)
    then show ?thesis using ladder_evaluation_spec [OF cur] step None by auto
  next
    case False
    then have "adaptive_ladder_evaluation env s (short_ipc t) cur (hist_step t) = (new_state, step, req)"
      using dec m by (auto simp: evaluate_ipc_def split: prod.splits)
    then show ?thesis using adaptive_ladder_evaluation_spec [OF cur step] None by auto
  qed
qed

text \<open>
  C6: under the ladder methods a task that leaves its CPU with at least \<open>INST_THRESHOLD\<close> instructions
  raises the demand of exactly one existing state by one (its pinned state if it has one), is given a
  free state (the least loaded one if none is free), starts counting from zero, and, unless scheduling
  is disabled, has the CPUs of that state requested of the migration pool; no other task and no mask
  or count of a state changes.
\<close>
theorem put_mask_from_stats_effect:
  assumes "pool_ok env s" and "INST_THRESHOLD \<le> inst (tasks s ts)"
    and "cur = cur_cpu_state s (smp_processor_id s)" and "0 \<le> cur" and "cur < total_states s"
    and "marks_ok s" and "step_ok (total_states s) (hist_step (tasks s ts))"
    and "scheduling_method s = LADDER_SCHEDULING \<or> scheduling_method s = ADAPTIVE_LADDER_SCHEDULING"
    and "t = put_mask_from_stats env ts s"
  shows "\<exists>req new_state. 0 \<le> req \<and> req < total_states s \<and> served_state env s cur new_state \<and>
    (\<forall>r. pinned_state (tasks s ts) s = Some r \<longrightarrow> req = r) \<and>
    (\<forall>i. states t i = (states s i)\<lparr>demand := demand (states s i) + (if i = req then 1 else 0)\<rparr>) \<and>
    inst (tasks t ts) = 0 \<and> re_cy (tasks t ts) = 0 \<and> ref_cy (tasks t ts) = 0 \<and>
    interval (tasks t ts) = interval_count s \<and> cpustate (tasks t ts) = new_state \<and>
    step_ok (total_states s) (hist_step (tasks t ts)) \<and>
    (\<forall>a. a \<noteq> ts \<longrightarrow> tasks t a = tasks s a) \<and> pool_ok env t \<and>
    requests env t = (if disable_scheduling s = 0 then asks env ts (state_mask s new_state) (requests env s)
                      else requests env s)"
proof -
  obtain new_state step req ipc err where d: "decide env (tasks s ts) cur s = (new_state, step, req, ipc, err)"
    by (cases "decide env (tasks s ts) cur s") auto
  note run = put_mask_run [OF assms(1,2) d [unfolded assms(3)], folded assms(9)]
  note served = decide_served [OF assms(4-8) d]
  show ?thesis
    by (rule exI [of _ req], rule exI [of _ new_state]) (use run served in auto)
qed

definition ex_hw :: hw_st where
  "ex_hw = mig_st.extend (ex_mig\<lparr>tasks := (\<lambda>a. (ex_task a)\<lparr>inst := 20000000, re_cy := 20000000\<rparr>)\<rparr>)
     (hw_st.fields (pmu_static (\<lambda>_ _. (0, 0))) (\<lambda>_ _. 0) (\<lambda>_ _. 0) False (\<lambda>_. 0))"

definition ex_pds :: pds_st where
  "ex_pds = hw_st.extend ex_hw (pds_st.fields 0 0 False {0, 1})"

lemmas ex_pds_simps = ex_pds_def pds_st.defs ex_hw_def hw_st.defs mig_st.defs

lemma ex_pds_fields:
  "mig_pool ex_pds = mig_pool ex_mig" "tasks ex_pds a = (ex_task a)\<lparr>inst := 20000000, re_cy := 20000000\<rparr>"
  "smp_processor_id ex_pds = 0" "total_states ex_pds = total_states ex_mig"
  "cur_cpu_state ex_pds = cur_cpu_state ex_mig" "low_state ex_pds = low_state ex_mig"
  "mid_state ex_pds = mid_state ex_mig" "high_state ex_pds = high_state ex_mig" "states ex_pds = states ex_mig"
  "scheduling_method ex_pds = 0" "disable_scheduling ex_pds = 0" "total_online_mask ex_pds = {0, 1}"
  "pmu ex_pds = pmu_static (\<lambda>_ _. (0, 0))"
  by (simp_all add: ex_pds_simps smp_processor_id_def pmu_static_def)

lemma ex_mig_fields:
  "total_states ex_mig = 3" "cur_cpu_state ex_mig 0 = 0" "low_state ex_mig = 0" "mid_state ex_mig = 1"
  "high_state ex_mig = 2"
  by (simp_all add: ex_mig_simps ex_dyn_simps)

lemma ex_pds_ok: "pool_ok ex_env ex_pds" "marks_ok ex_pds"
  using ex_mig_ok pool_ok_cong [OF ex_pds_fields(1)]
  by (simp_all add: marks_ok_def ex_pds_fields ex_mig_fields)

lemma put_mask_from_stats_effect_witness:
  "\<exists>req. 0 \<le> req \<and> req < 3 \<and>
    demand (states (put_mask_from_stats ex_env 5 ex_pds) req) = demand (states ex_pds req) + 1 \<and>
    inst (tasks (put_mask_from_stats ex_env 5 ex_pds) 5) = 0"
proof -
  have "INST_THRESHOLD \<le> inst (tasks ex_pds 5)" "step_ok (total_states ex_pds) (hist_step (tasks ex_pds 5))"
      "scheduling_method ex_pds = LADDER_SCHEDULING" "cur_cpu_state ex_pds (smp_processor_id ex_pds) = 0"
    by (simp_all add: ex_pds_fields ex_mig_fields INST_THRESHOLD_def ex_task_def step_ok_def LADDER_SCHEDULING_def)
  then show ?thesis
    using put_mask_from_stats_effect [OF ex_pds_ok(1) _ refl _ _ ex_pds_ok(2) _ _ refl, of 5]
    by (auto simp: ex_pds_fields ex_mig_fields)
qed

text \<open>
  What \<open>initial_mask\<close> asks of the pool: the CPUs of the state closest to the base state, or all CPUs
  when that state has none; \<open>disable_scheduling\<close> is not looked at.
\<close>

lemma initial_mask_run:
  assumes "pool_ok env s"
    and "st = search_state_closest env s (cur_cpu_state s (smp_processor_id s)) (base_state s)"
    and "t = initial_mask env ts s"
  shows "requests env t =
      (if size (requests env s) < nat (MIG_POOL_SIZE env)
       then add_mset (ts, if state_mask s st = {} then total_online_mask s else state_mask s st) (requests env s)
       else requests env s) \<and>
    pool_ok env t \<and> (\<exists>c. tasks t = (tasks s)(ts := (tasks s ts)\<lparr>hist_step := 0, cpustate := c\<rparr>))"
proof -
  have eq: "upd_task ts (\<lambda>t. t\<lparr>cpustate := c\<rparr>) (upd_task ts (\<lambda>t. t\<lparr>hist_step := 0\<rparr>) s) =
      s\<lparr>tasks := (tasks s)(ts := (tasks s ts)\<lparr>hist_step := 0, cpustate := c\<rparr>)\<rparr>" for c
    by (simp add: upd_task_def)
  have "pool_ok env (s\<lparr>tasks := f\<rparr>) \<and> requests env (s\<lparr>tasks := f\<rparr>) = requests env s" for f
    using assms(1) by (simp add: pool_ok_def requests_def used_slots_def)
  then have run: "requests env (put_work env ts m (s\<lparr>tasks := f\<rparr>)) =
      (if size (requests env s) < nat (MIG_POOL_SIZE env) then add_mset (ts, m) (requests env s) else requests env s) \<and>
      pool_ok env (put_work env ts m (s\<lparr>tasks := f\<rparr>)) \<and> tasks (put_work env ts m (s\<lparr>tasks := f\<rparr>)) = f" for m f
    using put_work_requests [of env "s\<lparr>tasks := f\<rparr>" ts m] by simp
  have "total_online_mask (upd_task ts f s) = total_online_mask s" for f by (simp add: upd_task_def)
  then show ?thesis
    using run assms(3) unfolding initial_mask_def Let_def assms(2) [symmetric] eq by auto
qed

end
