(* ===== verification/Probe.thy ===== *)
theory Probe
  imports Pds
begin

text \<open>
  The probes (\<open>Module/seeker-scheduler/probe.c\<close>): the handlers the kernel calls at \<open>scheduler_tick\<close>,
  \<open>schedule\<close>, \<open>__switch_to\<close>, \<open>sched_fork\<close> and \<open>release_thread\<close>, and their registration. They
  attribute the events of each CPU's counters to the task that runs there and hand tasks over to
  \<open>pds.c\<close> and \<open>migrate.c\<close>. \<open>jprobe_return\<close> ends a handler and has no further effect.
\<close>

subsection \<open>State\<close>

record probe_st = pds_st +
  cpu_ts :: "int \<Rightarrow> nat option"
  probes :: "string set"

definition SEEKER_MAGIC_NUMBER :: int where "SEEKER_MAGIC_NUMBER = 0xdea"

subsection \<open>Handlers\<close>

definition is_blacklist_task :: "task_struct \<Rightarrow> int" where
  "is_blacklist_task p =
     (if comm p = ''debugd'' then 1
      else if take 7 (comm p) = ''events/'' then 1
      else if take 10 (comm p) = ''migration/'' then 1
      else if take 10 (comm p) = ''ksoftirqd/'' then 1
      else 0)"

text \<open>The three additions to a task's statistics, made by the tick and by the switch.\<close>

definition add_counts :: "kenv \<Rightarrow> int \<Rightarrow> nat \<Rightarrow> 'a probe_st_scheme \<Rightarrow> 'a probe_st_scheme" where
  "add_counts env cpu a s =
     (let s = upd_task a (\<lambda>t. t\<lparr>inst := inst t + pmu_val s cpu 0\<rparr>) s;
          s = upd_task a (\<lambda>t. t\<lparr>re_cy := re_cy t + pmu_val s cpu 1\<rparr>) s
      in case get_tsc_cycles env s of (cy, s) \<Rightarrow> upd_task a (\<lambda>t. t\<lparr>ref_cy := ref_cy t + cy\<rparr>) s)"

definition inst_schedule :: "kenv \<Rightarrow> 'a probe_st_scheme \<Rightarrow> int \<times> 'a probe_st_scheme" where
  "inst_schedule env s =
     (let cpu = smp_processor_id s in
      case cpu_ts s cpu of
        None \<Rightarrow> (0, s)
      | Some a \<Rightarrow>
          if seeker_scheduled (tasks s a) \<noteq> SEEKER_MAGIC_NUMBER then (0, s)
          else if is_blacklist_task (tasks s a) \<noteq> 0 then (0, s)
          else
            let s = read_counters env cpu s;
                s = (if interval (tasks s a) \<noteq> interval_count s
                     then upd_task a (\<lambda>t. t\<lparr>interval := interval_count s\<rparr>) s else s);
                s = add_counts env cpu a s;
                s = clear_counters env cpu s
            in if INST_THRESHOLD < inst (tasks s a) \<or> cpustate (tasks s a) \<noteq> cur_cpu_state s cpu \<or>
                  interval (tasks s a) \<noteq> interval_count s
               then (0, upd_task a (\<lambda>t. t\<lparr>need_resched := True\<rparr>) s) else (0, s))"

definition inst_scheduler_tick :: "kenv \<Rightarrow> 'a probe_st_scheme \<Rightarrow> 'a probe_st_scheme" where
  "inst_scheduler_tick env s = snd (inst_schedule env s)"

text \<open>\<open>None\<close> is the NULL dereference of \<open>cancel_task_work\<close>.\<close>

definition inst_release_thread :: "kenv \<Rightarrow> nat \<Rightarrow> 'a probe_st_scheme \<Rightarrow> 'a probe_st_scheme option" where
  "inst_release_thread env t s =
     (if seeker_scheduled (tasks s t) \<noteq> SEEKER_MAGIC_NUMBER then Some s
      else if is_blacklist_task (tasks s t) \<noteq> 0 then Some s
      else
        let s = log_entry env (LOG_PID \<lparr>pid_name = comm (tasks s t), pid_pid = of_int (pid (tasks s t))\<rparr>) s
        in cancel_task_work env t s)"

definition inst_sched_fork :: "kenv \<Rightarrow> nat \<Rightarrow> 'a probe_st_scheme \<Rightarrow> 'a probe_st_scheme" where
  "inst_sched_fork env new s =
     (let s = upd_task new (\<lambda>t. t\<lparr>fixed_state := - 1, interval := interval_count s, inst := 0\<rparr>) s;
          s = (case get_tsc_cycles env s of (cy, s) \<Rightarrow> upd_task new (\<lambda>t. t\<lparr>ref_cy := cy\<rparr>) s);
          s = upd_task new (\<lambda>t. t\<lparr>ref_cy := 0, re_cy := 0\<rparr>) s
      in if is_blacklist_task (tasks s new) = 0
         then initial_mask env new (upd_task new (\<lambda>t. t\<lparr>seeker_scheduled := SEEKER_MAGIC_NUMBER\<rparr>) s)
         else s)"

definition inst___switch_to :: "kenv \<Rightarrow> nat \<Rightarrow> nat \<Rightarrow> 'a probe_st_scheme \<Rightarrow> 'a probe_st_scheme" where
  "inst___switch_to env prev to s =
     (let cpu = smp_processor_id s;
          s = s\<lparr>cpu_ts := (cpu_ts s)(cpu := Some to)\<rparr>;
          s = read_counters env cpu s;
          s = add_counts env cpu prev s;
          s = clear_counters env cpu s
      in if seeker_scheduled (tasks s prev) \<noteq> SEEKER_MAGIC_NUMBER then s
         else if is_blacklist_task (tasks s prev) \<noteq> 0 then s
         else if is_blacklist_task (tasks s prev) = 0 then put_mask_from_stats env prev s
         else s)"

subsection \<open>Registration\<close>

text \<open>The kernel registers a probe when it answers 0; \<open>register_probe\<close> is asked by symbol.\<close>

definition register :: "kenv \<Rightarrow> string \<Rightarrow> 'a probe_st_scheme \<Rightarrow> int \<times> 'a probe_st_scheme" where
  "register env p s =
     (let r = register_probe env p in (r, if r = 0 then s\<lparr>probes := insert p (probes s)\<rparr> else s))"

definition unregister :: "string \<Rightarrow> 'a probe_st_scheme \<Rightarrow> 'a probe_st_scheme" where
  "unregister p s = s\<lparr>probes := probes s - {p}\<rparr>"

definition insert_probes :: "kenv \<Rightarrow> 'a probe_st_scheme \<Rightarrow> int \<times> 'a probe_st_scheme" where
  "insert_probes env s =
     (case register env ''scheduler_tick'' s of (r, s) \<Rightarrow>
      if r \<noteq> 0 then (- 1, s)
      else case register env ''sched_fork'' s of (r, s) \<Rightarrow>
      if r \<noteq> 0 then (- 1, unregister ''scheduler_tick'' s)
      else case register env ''__switch_to'' s of (r, s) \<Rightarrow>
      if r \<noteq> 0 then (- 1, unregister ''scheduler_tick'' (unregister ''sched_fork'' s))
      else case register env ''schedule'' s of (r, s) \<Rightarrow>
      if r < 0 then (- 1, unregister ''scheduler_tick'' (unregister ''sched_fork'' (unregister ''__switch_to'' s)))
      else case register env ''release_thread'' s of (r, s) \<Rightarrow>
      if r < 0 then (- 1, unregister ''scheduler_tick'' (unregister ''sched_fork''
                            (unregister ''__switch_to'' (unregister ''schedule'' s))))
      else (0, s))"

definition remove_probes :: "'a probe_st_scheme \<Rightarrow> int \<times> 'a probe_st_scheme" where
  "remove_probes s =
     (0, unregister ''release_thread'' (unregister ''__switch_to'' (unregister ''schedule''
           (unregister ''sched_fork'' (unregister ''scheduler_tick'' s)))))"

definition all_probes :: "string set" where
  "all_probes = {''scheduler_tick'', ''sched_fork'', ''__switch_to'', ''schedule'', ''release_thread''}"

text \<open>
  C29: registering the probes is all or nothing: with a kernel that answers 0 or a negative error,
  \<open>insert_probes\<close> returns 0 exactly when all five probes are accepted, and then all five are in
  place; otherwise it returns \<open>-1\<close> and none is left behind. \<open>remove_probes\<close> undoes the first case.
\<close>
theorem insert_probes_all_or_nothing:
  assumes "\<And>p. register_probe env p \<le> 0" and "probes s \<inter> all_probes = {}"
  shows "case insert_probes env s of (r, t) \<Rightarrow>
    (r = 0 \<longleftrightarrow> (\<forall>p \<in> all_probes. register_probe env p = 0)) \<and>
    (r = 0 \<longrightarrow> probes t = probes s \<union> all_probes \<and> probes (snd (remove_probes t)) = probes s) \<and>
    (r \<noteq> 0 \<longrightarrow> r = - 1 \<and> probes t = probes s)"
proof -
  have neg: "register_probe env p < 0 \<longleftrightarrow> register_probe env p \<noteq> 0" for p
    using assms(1) [of p] by auto
  have "p \<notin> probes s" if "p \<in> all_probes" for p using assms(2) that by blast
  then have new: "''scheduler_tick'' \<notin> probes s" "''sched_fork'' \<notin> probes s" "''__switch_to'' \<notin> probes s"
      "''schedule'' \<notin> probes s" "''release_thread'' \<notin> probes s"
    by (simp_all add: all_probes_def)
  let ?R = "\<lambda>p. register_probe env p = 0"
  consider "\<not> ?R ''scheduler_tick''" | "?R ''scheduler_tick''" "\<not> ?R ''sched_fork''"
    | "?R ''scheduler_tick''" "?R ''sched_fork''" "\<not> ?R ''__switch_to''"
    | "?R ''scheduler_tick''" "?R ''sched_fork''" "?R ''__switch_to''" "\<not> ?R ''schedule''"
    | "?R ''scheduler_tick''" "?R ''sched_fork''" "?R ''__switch_to''" "?R ''schedule''" "\<not> ?R ''release_thread''"
    | "?R ''scheduler_tick''" "?R ''sched_fork''" "?R ''__switch_to''" "?R ''schedule''" "?R ''release_thread''"
    by blast
  then show ?thesis
    by cases (use new in \<open>auto simp: insert_probes_def register_def unregister_def Let_def neg all_probes_def
        remove_probes_def\<close>)
qed

definition ex_probe :: probe_st where
  "ex_probe = pds_st.extend ex_pds (probe_st.fields (\<lambda>_. None) {})"

lemmas ex_probe_simps = ex_probe_def probe_st.defs pds_st.defs

lemma insert_probes_all_or_nothing_witness:
  "let env = ex_env\<lparr>register_probe := (\<lambda>p. if p = ''schedule'' then - 2 else 0)\<rparr>
   in fst (insert_probes env ex_probe) = - 1 \<and> probes (snd (insert_probes env ex_probe)) = {}"
proof -
  let ?env = "ex_env\<lparr>register_probe := (\<lambda>p. if p = ''schedule'' then - 2 else 0)\<rparr>"
  have "\<not> (\<forall>p \<in> all_probes. register_probe ?env p = 0)" by (simp add: all_probes_def)
  moreover have "register_probe ?env p \<le> 0" for p by simp
  moreover have "probes ex_probe = {}" by (simp add: ex_probe_simps)
  ultimately show ?thesis
    using insert_probes_all_or_nothing [of ?env ex_probe] by (auto simp: Let_def split: prod.splits)
qed

subsection \<open>Frames\<close>

lemma read_counters_frame:
  obtains p v where "read_counters env cpu s = s\<lparr>pmu := p, pmu_val := v\<rparr>"
proof -
  have "read_counters env cpu s =
      s\<lparr>pmu := pmu (read_counters env cpu s), pmu_val := pmu_val (read_counters env cpu s)\<rparr>"
    by (simp add: read_counters_def Let_def upd_pmu_def)
  then show thesis by (rule that)
qed

lemma clear_counters_frame:
  obtains p where "clear_counters env cpu s = s\<lparr>pmu := p\<rparr>"
proof -
  have "clear_counters env cpu s = s\<lparr>pmu := pmu (clear_counters env cpu s)\<rparr>"
    by (simp add: clear_counters_def upd_pmu_def)
  then show thesis by (rule that)
qed

lemma counters_frame [simp]:
  "tasks (read_counters env cpu s) = tasks s" "tasks (clear_counters env cpu s) = tasks s"
  "tsc_val (read_counters env cpu s) = tsc_val s" "tsc_val (clear_counters env cpu s) = tsc_val s"
  "mig_pool (read_counters env cpu s) = mig_pool s" "mig_pool (clear_counters env cpu s) = mig_pool s"
  "states (read_counters env cpu s) = states s" "states (clear_counters env cpu s) = states s"
  "cur_cpu_state (read_counters env cpu s) = cur_cpu_state s" "cur_cpu_state (clear_counters env cpu s) = cur_cpu_state s"
  "interval_count (read_counters env cpu s) = interval_count s" "interval_count (clear_counters env cpu s) = interval_count s"
  "cpu_ts (read_counters env cpu u) = cpu_ts u" "cpu_ts (clear_counters env cpu u) = cpu_ts u"
  by (rule read_counters_frame [of env cpu s], simp, rule clear_counters_frame [of env cpu s], simp)+
    (rule read_counters_frame [of env cpu u], simp, rule clear_counters_frame [of env cpu u], simp)

lemma counters_cpu [simp]:
  "smp_processor_id (read_counters env cpu s) = smp_processor_id s"
  "smp_processor_id (clear_counters env cpu s) = smp_processor_id s"
proof -
  have r: "this_cpu (fcounter_read env p) = this_cpu p" for p :: pmu_st
    unfolding fcounter_read_def NUM_FIXED_loop by (simp split: prod.split)
  show "smp_processor_id (read_counters env cpu s) = smp_processor_id s"
    by (simp add: read_counters_def Let_def upd_pmu_def smp_processor_id_def r)
  show "smp_processor_id (clear_counters env cpu s) = smp_processor_id s"
    by (simp add: clear_counters_def upd_pmu_def smp_processor_id_def fcounter_clear_def Let_def)
qed

lemma add_counts_eq:
  "add_counts env cpu a s = s\<lparr>tasks := (tasks s)(a := (tasks s a)\<lparr>inst := inst (tasks s a) + pmu_val s cpu 0,
      re_cy := re_cy (tasks s a) + pmu_val s cpu 1,
      ref_cy := ref_cy (tasks s a) + (native_read_tsc env (smp_processor_id s) - tsc_val s (smp_processor_id s))\<rparr>),
    tsc_val := (tsc_val s)(smp_processor_id s := native_read_tsc env (smp_processor_id s))\<rparr>"
  by (simp add: add_counts_def get_tsc_cycles_def upd_task_def Let_def smp_processor_id_def)

subsection \<open>The accounting steps\<close>

lemma pmu_cong:
  assumes "pmu t = pmu s"
  shows "elapsed j t = elapsed j s" "hw_ok env t = hw_ok env s" "smp_processor_id t = smp_processor_id s"
  using assms by (simp_all add: elapsed_def hw_ok_def smp_processor_id_def)

text \<open>What a task's statistics become when the events since the last clear are credited to it.\<close>

definition credited :: "kenv \<Rightarrow> 'a probe_st_scheme \<Rightarrow> task_struct \<Rightarrow> task_struct" where
  "credited env s t = t\<lparr>inst := inst t + elapsed 0 s, re_cy := re_cy t + elapsed 1 s,
     ref_cy := ref_cy t + (native_read_tsc env (smp_processor_id s) - tsc_val s (smp_processor_id s))\<rparr>"

text \<open>The common core of the tick and the switch.\<close>

lemma credit_run:
  assumes hw: "hw_ok env s" and t: "t = clear_counters env (smp_processor_id s) (add_counts env (smp_processor_id s) a
      (upd_task b f (read_counters env (smp_processor_id s) s)))"
  shows "tasks t = (let u = (tasks s)(b := f (tasks s b)) in u(a := credited env s (u a))) \<and>
    tsc_val t = (tsc_val s)(smp_processor_id s := native_read_tsc env (smp_processor_id s)) \<and>
    elapsed 0 t = 0 \<and> elapsed 1 t = 0 \<and> hw_ok env t \<and> smp_processor_id t = smp_processor_id s \<and>
    cpu_ts t = cpu_ts s \<and> mig_pool t = mig_pool s \<and> states t = states s \<and>
    cur_cpu_state t = cur_cpu_state s \<and> interval_count t = interval_count s"
proof -
  let ?c = "smp_processor_id s" let ?r = "read_counters env ?c s"
  let ?u = "upd_task b f ?r" let ?v = "add_counts env ?c a ?u"
  have r: "pmu_val ?r ?c 0 = elapsed 0 s" "pmu_val ?r ?c 1 = elapsed 1 s" "hw_ok env ?r"
    using read_counters_elapsed [OF hw refl, of 0] read_counters_elapsed [OF hw refl, of 1] by simp_all
  have u: "pmu ?u = pmu ?r" "pmu_val ?u = pmu_val ?r" "tsc_val ?u = tsc_val s"
      "tasks ?u = (tasks s)(b := f (tasks s b))" "smp_processor_id ?u = ?c"
      "cpu_ts ?u = cpu_ts s" "mig_pool ?u = mig_pool s" "states ?u = states s"
      "cur_cpu_state ?u = cur_cpu_state s" "interval_count ?u = interval_count s"
    using counters_cpu(1) [of env ?c s] by (simp_all add: upd_task_def smp_processor_id_def)
  have v: "pmu ?v = pmu ?r" by (simp add: add_counts_eq u)
  have "hw_ok env ?v" using r(3) pmu_cong(2) [OF v] by simp
  note cl = clear_counters_elapsed [OF this, of 0 ?c] clear_counters_elapsed [OF this, of 1 ?c]
  show ?thesis
    using cl r u pmu_cong(3) [OF v] unfolding t
    by (auto simp: add_counts_eq credited_def Let_def)
qed

definition managed :: "task_struct \<Rightarrow> bool" where
  "managed t \<longleftrightarrow> seeker_scheduled t = SEEKER_MAGIC_NUMBER \<and> is_blacklist_task t = 0"

definition ticked :: "kenv \<Rightarrow> 'a probe_st_scheme \<Rightarrow> task_struct \<Rightarrow> task_struct" where
  "ticked env s t =
     (let u = credited env s (t\<lparr>interval := interval_count s\<rparr>)
      in u\<lparr>need_resched := need_resched t \<or> INST_THRESHOLD < inst u \<or>
             cpustate t \<noteq> cur_cpu_state s (smp_processor_id s)\<rparr>)"

lemma interval_refresh:
  "(if interval (tasks u a) \<noteq> interval_count u then upd_task a (\<lambda>t. t\<lparr>interval := interval_count u\<rparr>) u else u) =
   upd_task a (\<lambda>t. t\<lparr>interval := interval_count u\<rparr>) u"
proof (cases "interval (tasks u a) = interval_count u")
  case True
  have "(tasks u a)\<lparr>interval := interval_count u\<rparr> = tasks u a"
    by (rule task_struct.equality) (simp_all add: True)
  then show ?thesis using True unfolding upd_task_def by (simp only: fun_upd_triv) simp
qed simp

lemma inst_schedule_managed:
  assumes hw: "hw_ok env s" and a: "cpu_ts s (smp_processor_id s) = Some a" and m: "managed (tasks s a)"
    and t: "t = snd (inst_schedule env s)"
  shows "tasks t = (tasks s)(a := ticked env s (tasks s a)) \<and>
    tsc_val t = (tsc_val s)(smp_processor_id s := native_read_tsc env (smp_processor_id s)) \<and>
    elapsed 0 t = 0 \<and> elapsed 1 t = 0 \<and> hw_ok env t \<and> smp_processor_id t = smp_processor_id s \<and>
    cpu_ts t = cpu_ts s \<and> mig_pool t = mig_pool s \<and> states t = states s"
proof -
  let ?c = "smp_processor_id s"
  define f where "f = (\<lambda>t :: task_struct. t\<lparr>interval := interval_count s\<rparr>)"
  define u where "u = clear_counters env ?c (add_counts env ?c a (upd_task a f (read_counters env ?c s)))"
  note run = credit_run [OF hw u_def]
  let ?due = "INST_THRESHOLD < inst (tasks u a) \<or> cpustate (tasks u a) \<noteq> cur_cpu_state u ?c \<or>
     interval (tasks u a) \<noteq> interval_count u"
  have t': "t = (if ?due then upd_task a (\<lambda>t. t\<lparr>need_resched := True\<rparr>) u else u)"
    using a m unfolding t inst_schedule_def Let_def interval_refresh
    by (simp add: managed_def u_def f_def)
  have ua: "tasks u = (tasks s)(a := credited env s (f (tasks s a)))" using run by (simp add: Let_def)
  have due: "?due \<longleftrightarrow> INST_THRESHOLD < inst (credited env s (f (tasks s a))) \<or>
      cpustate (tasks s a) \<noteq> cur_cpu_state s ?c"
    using run ua by (simp add: credited_def f_def)
  have "tasks t = (tasks s)(a := ticked env s (tasks s a))"
    unfolding t' due using ua
    by (auto simp: ticked_def Let_def upd_task_def f_def credited_def fun_eq_iff)
  moreover have "pmu t = pmu u" "tsc_val t = tsc_val u" "cpu_ts t = cpu_ts u" "mig_pool t = mig_pool u"
      "states t = states u"
    unfolding t' by (simp_all add: upd_task_def)
  ultimately show ?thesis using run pmu_cong [of t u] by simp
qed

lemma inst_schedule_unmanaged:
  "(case cpu_ts s (smp_processor_id s) of None \<Rightarrow> True | Some a \<Rightarrow> \<not> managed (tasks s a)) \<Longrightarrow>
   inst_schedule env s = (0, s)"
  by (auto simp: inst_schedule_def managed_def Let_def split: option.splits)

lemma switch_run:
  assumes hw: "hw_ok env s"
  obtains u where
    "inst___switch_to env a b s = (if managed (tasks s a) then put_mask_from_stats env a u else u)"
    "tasks u = (tasks s)(a := credited env s (tasks s a))"
    "elapsed 0 u = 0" "elapsed 1 u = 0" "hw_ok env u" "smp_processor_id u = smp_processor_id s"
    "cpu_ts u = (cpu_ts s)(smp_processor_id s := Some b)" "mig_pool u = mig_pool s" "states u = states s"
    "tsc_val u = (tsc_val s)(smp_processor_id s := native_read_tsc env (smp_processor_id s))"
proof -
  let ?c = "smp_processor_id s" let ?s = "s\<lparr>cpu_ts := (cpu_ts s)(?c := Some b)\<rparr>"
  have p: "smp_processor_id ?s = ?c" "hw_ok env ?s" "elapsed j ?s = elapsed j s" for j
    using hw pmu_cong [of ?s s] by simp_all
  define u where "u = clear_counters env ?c (add_counts env ?c a (upd_task a id (read_counters env ?c ?s)))"
  have id: "upd_task a id (x :: 'a probe_st_scheme) = x" for x by (simp add: upd_task_def)
  note run = credit_run [OF p(2), of u a a id, unfolded p(1), OF u_def]
  have cr: "credited env ?s t = credited env s t" for t by (simp add: credited_def p)
  have ts: "tasks u = (tasks s)(a := credited env s (tasks s a))" using run by (simp add: Let_def cr)
  have "managed (tasks u a) = managed (tasks s a)"
    by (simp add: ts managed_def credited_def is_blacklist_task_def)
  then have "inst___switch_to env a b s = (if managed (tasks s a) then put_mask_from_stats env a u else u)"
    unfolding inst___switch_to_def Let_def by (auto simp: u_def [unfolded id, symmetric] managed_def)
  then show thesis using run ts by (intro that [of u]) (simp_all add: p(3))
qed

subsection \<open>Accounting over a run\<close>

text \<open>
  A quantity metered in two places: what has been credited to its owner and what is still pending in
  a device. Every step moves the total by its amount, so a run does by the sum.
\<close>

locale metered =
  fixes inv :: "'s \<Rightarrow> bool" and legal :: "'e \<Rightarrow> bool" and step :: "'e \<Rightarrow> 's \<Rightarrow> 's"
    and credit :: "'s \<Rightarrow> u64" and pend :: "'s \<Rightarrow> u64" and amount :: "'e \<Rightarrow> u64"
  assumes step_inv: "inv s \<Longrightarrow> legal e \<Longrightarrow> inv (step e s)"
    and step_sum: "inv s \<Longrightarrow> legal e \<Longrightarrow> credit (step e s) + pend (step e s) = credit s + pend s + amount e"
begin

lemma run_sum:
  assumes "inv s" and "\<forall>e \<in> set es. legal e"
  shows "inv (fold step es s) \<and>
    credit (fold step es s) + pend (fold step es s) = credit s + pend s + sum_list (map amount es)"
  using assms
proof (induction es arbitrary: s)
  case (Cons e es)
  then have "inv (step e s)" "credit (step e s) + pend (step e s) = credit s + pend s + amount e"
    using step_inv step_sum by auto
  with Cons.IH [of "step e s"] Cons.prems show ?case by (simp add: ac_simps)
qed simp

end

text \<open>
  What happens on a CPU between two switches: the hardware counts, the tick or a call of
  \<open>schedule\<close> comes at some value of the time stamp counter, the running task forks.
\<close>

datatype cpu_event = Count "int \<Rightarrow> u64" | Tick "int \<Rightarrow> u64" | Fork "int \<Rightarrow> u64" nat

fun cpu_step :: "kenv \<Rightarrow> cpu_event \<Rightarrow> 'a probe_st_scheme \<Rightarrow> 'a probe_st_scheme" where
  "cpu_step env (Count k) s = hw_count k s"
| "cpu_step env (Tick f) s = inst_scheduler_tick (env\<lparr>native_read_tsc := f\<rparr>) s"
| "cpu_step env (Fork f new) s = inst_sched_fork (env\<lparr>native_read_tsc := f\<rparr>) new s"

fun counted :: "int \<Rightarrow> cpu_event \<Rightarrow> u64" where
  "counted j (Count k) = k j"
| "counted j _ = 0"

fun forks :: "nat \<Rightarrow> cpu_event \<Rightarrow> bool" where
  "forks a (Fork f new) \<longleftrightarrow> new = a"
| "forks a _ \<longleftrightarrow> False"

fun is_fork :: "cpu_event \<Rightarrow> bool" where
  "is_fork (Fork f new) \<longleftrightarrow> True"
| "is_fork _ \<longleftrightarrow> False"

definition runs_here :: "kenv \<Rightarrow> nat \<Rightarrow> 'a probe_st_scheme \<Rightarrow> bool" where
  "runs_here env a s \<longleftrightarrow> hw_ok env s \<and> cpu_ts s (smp_processor_id s) = Some a"

lemma env_tsc [simp]: "hw_ok (env\<lparr>native_read_tsc := f\<rparr>) s = hw_ok env s"
  by (simp add: hw_ok_def)

lemma put_work_frames' [simp]:
  "cpu_ts (put_work env a m s) = cpu_ts s" "tsc_val (put_work env a m s) = tsc_val s"
  by (rule put_work_frame [of env a m s], simp)+

lemma fork_frame:
  assumes "t = inst_sched_fork env new s"
  shows "pmu t = pmu s" "cpu_ts t = cpu_ts s" "a \<noteq> new \<Longrightarrow> tasks t a = tasks s a"
    "tsc_val t = (tsc_val s)(smp_processor_id s := native_read_tsc env (smp_processor_id s))"
proof -
  have im: "pmu (initial_mask env new u) = pmu u" "cpu_ts (initial_mask env new u) = cpu_ts u"
      "tsc_val (initial_mask env new u) = tsc_val u" "a \<noteq> new \<Longrightarrow> tasks (initial_mask env new u) a = tasks u a"
    for u :: "'a probe_st_scheme"
    by (simp_all add: initial_mask_def Let_def upd_task_def)
  show "pmu t = pmu s" "cpu_ts t = cpu_ts s" "a \<noteq> new \<Longrightarrow> tasks t a = tasks s a"
    "tsc_val t = (tsc_val s)(smp_processor_id s := native_read_tsc env (smp_processor_id s))"
    unfolding assms inst_sched_fork_def Let_def get_tsc_cycles_def
    by (simp_all add: im upd_task_def smp_processor_id_def)
qed

lemma fork_pmu:
  "elapsed j (inst_sched_fork env new s) = elapsed j s" "hw_ok e (inst_sched_fork env new s) = hw_ok e s"
  "smp_processor_id (inst_sched_fork env new s) = smp_processor_id s"
  by (rule pmu_cong, rule fork_frame, rule refl)+

lemma hw_count_frame:
  "tasks (hw_count k s) = tasks s" "cpu_ts (hw_count k u) = cpu_ts u" "tsc_val (hw_count k s) = tsc_val s"
  "smp_processor_id (hw_count k s) = smp_processor_id s"
  by (simp_all add: hw_count_def Let_def upd_pmu_def smp_processor_id_def)

text \<open>A tick, whether it does its work or not.\<close>

lemma tick_cases:
  assumes "runs_here env a s" and "t = inst_scheduler_tick env s"
  obtains (idle) "t = s" "\<not> managed (tasks s a)"
  | (work) "managed (tasks s a)" "tasks t = (tasks s)(a := ticked env s (tasks s a))"
      "tsc_val t = (tsc_val s)(smp_processor_id s := native_read_tsc env (smp_processor_id s))"
      "elapsed 0 t = 0" "elapsed 1 t = 0" "runs_here env a t" "smp_processor_id t = smp_processor_id s"
      "mig_pool t = mig_pool s" "states t = states s"
proof (cases "managed (tasks s a)")
  case True
  note run = inst_schedule_managed [OF _ _ True, of env t]
  show thesis
    by (rule work [OF True]) (use assms run in \<open>auto simp: runs_here_def inst_scheduler_tick_def\<close>)
next
  case False
  then have "t = s" using assms inst_schedule_unmanaged [of s env]
    by (simp add: runs_here_def inst_scheduler_tick_def)
  with False show thesis by (rule idle [rotated])
qed

lemma cpu_step_runs:
  assumes r: "runs_here env a s" and l: "\<not> forks a e"
  shows "runs_here env a (cpu_step env e s) \<and>
    inst (tasks (cpu_step env e s) a) + elapsed 0 (cpu_step env e s) = inst (tasks s a) + elapsed 0 s + counted 0 e \<and>
    re_cy (tasks (cpu_step env e s) a) + elapsed 1 (cpu_step env e s) = re_cy (tasks s a) + elapsed 1 s + counted 1 e"
proof (cases e)
  case (Count k)
  have hw: "hw_ok env s" using r by (simp add: runs_here_def)
  show ?thesis
    using r hw_count_elapsed [OF hw, of 0 k] hw_count_elapsed [OF hw, of 1 k] Count
    by (simp add: runs_here_def hw_count_frame)
next
  case (Tick f)
  let ?env = "env\<lparr>native_read_tsc := f\<rparr>"
  have "runs_here ?env a s" using r by (simp add: runs_here_def)
  then show ?thesis
    by (cases rule: tick_cases [OF _ refl, of ?env a s])
      (use r Tick in \<open>auto simp: runs_here_def ticked_def credited_def Let_def\<close>)
next
  case (Fork f new)
  then show ?thesis
    using r l fork_frame(1,2) [OF refl, of "env\<lparr>native_read_tsc := f\<rparr>" new s]
      fork_frame(3) [where a = a, OF refl, of new "env\<lparr>native_read_tsc := f\<rparr>" s]
    by (auto simp: runs_here_def fork_pmu)
qed

interpretation meter_inst: metered "runs_here env a" "\<lambda>e. \<not> forks a e" "cpu_step env"
  "\<lambda>s. inst (tasks s a)" "elapsed 0" "counted 0" for env a
  by unfold_locales (use cpu_step_runs in \<open>auto\<close>)

interpretation meter_re_cy: metered "runs_here env a" "\<lambda>e. \<not> forks a e" "cpu_step env"
  "\<lambda>s. re_cy (tasks s a)" "elapsed 1" "counted 1" for env a
  by unfold_locales (use cpu_step_runs in \<open>auto\<close>)

lemma cpu_step_ref_cy:
  assumes r: "runs_here env a s" and l: "\<not> is_fork e"
  shows "runs_here env a (cpu_step env e s) \<and>
    ref_cy (tasks (cpu_step env e s) a) - tsc_val (cpu_step env e s) (smp_processor_id (cpu_step env e s)) =
    ref_cy (tasks s a) - tsc_val s (smp_processor_id s)"
proof -
  have "\<not> forks a e" using l by (cases e) auto
  note runs = conjunct1 [OF cpu_step_runs [OF r this]]
  show ?thesis
  proof (cases e)
    case (Tick f)
    let ?env = "env\<lparr>native_read_tsc := f\<rparr>"
    have "runs_here ?env a s" using r by (simp add: runs_here_def)
    then show ?thesis
      by (cases rule: tick_cases [OF _ refl, of ?env a s])
        (use runs Tick in \<open>auto simp: ticked_def credited_def Let_def\<close>)
  qed (use runs l in \<open>auto simp: hw_count_frame\<close>)
qed

interpretation meter_ref_cy: metered "runs_here env a" "\<lambda>e. \<not> is_fork e" "cpu_step env"
  "\<lambda>s. ref_cy (tasks s a)" "\<lambda>s. - tsc_val s (smp_processor_id s)" "\<lambda>_. 0" for env a
  by unfold_locales (use cpu_step_ref_cy in \<open>auto\<close>)

lemma log_entry_frames' [simp]:
  "cpu_ts (log_entry env e s) = cpu_ts s" "tsc_val (log_entry env e s) = tsc_val s"
  by (rule log_entry_frame [of env e s], simp)+

lemma put_mask_frame:
  assumes "t = put_mask_from_stats env x s"
  shows "pmu t = pmu s" "cpu_ts t = cpu_ts s" "tsc_val t = tsc_val s" "a \<noteq> x \<Longrightarrow> tasks t a = tasks s a"
  unfolding assms put_mask_from_stats_def Let_def
  by (simp_all add: upd_task_def demand_inc_def upd_state_def split: prod.split)

lemma sum_list_0: "sum_list (map (\<lambda>_. 0 :: u64) es) = 0"
  by (induction es) auto

text \<open>
  C1: no event is lost or counted twice. Let \<open>a\<close> be switched in on a CPU, let the CPU run any
  sequence of hardware counts, ticks and forks of other tasks, and let \<open>a\<close> be switched out: when
  \<open>__switch_to\<close> judges it, its instruction and cycle counts have grown by exactly what the hardware
  counted meanwhile (modulo $2^{64}$), and, if it did not fork, its reference cycles by exactly the
  difference of the time stamps at the two switches.
\<close>
theorem events_accounted:
  assumes "hw_ok env s" and "x \<noteq> a" and "\<forall>e \<in> set es. \<not> forks a e"
    and "t = fold (cpu_step env) es (inst___switch_to env x a s)" and "NR_CPUS env' = NR_CPUS env"
  shows "\<exists>u. inst___switch_to env' a b t = (if managed (tasks t a) then put_mask_from_stats env' a u else u) \<and>
    inst (tasks u a) = inst (tasks s a) + sum_list (map (counted 0) es) \<and>
    re_cy (tasks u a) = re_cy (tasks s a) + sum_list (map (counted 1) es) \<and>
    ((\<forall>e \<in> set es. \<not> is_fork e) \<longrightarrow> ref_cy (tasks u a) = ref_cy (tasks s a) +
       (native_read_tsc env' (smp_processor_id t) - native_read_tsc env (smp_processor_id s)))"
proof -
  define v where "v = inst___switch_to env x a s"
  have v: "runs_here env a v" "elapsed 0 v = 0" "elapsed 1 v = 0" "tasks v a = tasks s a"
      "tsc_val v (smp_processor_id v) = native_read_tsc env (smp_processor_id s)"
  proof -
    obtain w where w: "v = (if managed (tasks s x) then put_mask_from_stats env x w else w)"
        "tasks w = (tasks s)(x := credited env s (tasks s x))" "elapsed 0 w = 0" "elapsed 1 w = 0"
        "hw_ok env w" "smp_processor_id w = smp_processor_id s"
        "cpu_ts w = (cpu_ts s)(smp_processor_id s := Some a)"
        "tsc_val w = (tsc_val s)(smp_processor_id s := native_read_tsc env (smp_processor_id s))"
      using switch_run [OF assms(1), of x a] unfolding v_def by metis
    note f = put_mask_frame(1-3) [OF refl, of env x w] put_mask_frame(4) [OF refl, of a x env w]
    have "pmu v = pmu w" "cpu_ts v = cpu_ts w" "tsc_val v = tsc_val w" "tasks v a = tasks w a"
      unfolding w(1) using f assms(2) by simp_all
    then show "runs_here env a v" "elapsed 0 v = 0" "elapsed 1 v = 0" "tasks v a = tasks s a"
        "tsc_val v (smp_processor_id v) = native_read_tsc env (smp_processor_id s)"
      using w(2-) pmu_cong [of v w] assms(2) by (simp_all add: runs_here_def)
  qed
  have t: "t = fold (cpu_step env) es v" by (simp add: assms(4) v_def)
  have i: "runs_here env a t" "inst (tasks t a) + elapsed 0 t = inst (tasks s a) + sum_list (map (counted 0) es)"
    using meter_inst.run_sum [OF v(1) assms(3)] v by (simp_all add: t)
  have r: "re_cy (tasks t a) + elapsed 1 t = re_cy (tasks s a) + sum_list (map (counted 1) es)"
    using meter_re_cy.run_sum [OF v(1) assms(3)] v by (simp add: t)
  have c: "ref_cy (tasks t a) - tsc_val t (smp_processor_id t) =
      ref_cy (tasks s a) - native_read_tsc env (smp_processor_id s)" if "\<forall>e \<in> set es. \<not> is_fork e"
    using meter_ref_cy.run_sum [OF v(1) that] v by (simp add: t sum_list_0)
  have "hw_ok env' t" using i(1) assms(5) by (simp add: runs_here_def hw_ok_def)
  then obtain u where "inst___switch_to env' a b t = (if managed (tasks t a) then put_mask_from_stats env' a u else u)"
      "tasks u = (tasks t)(a := credited env' t (tasks t a))"
    using switch_run [of env' t a b] by metis
  then show ?thesis using i(2) r c by (intro exI [of _ u]) (auto simp: credited_def algebra_simps)
qed

lemma ex_probe_fields:
  "tasks ex_probe a = (ex_task a)\<lparr>inst := 20000000, re_cy := 20000000\<rparr>" "smp_processor_id ex_probe = 0"
  "mig_pool ex_probe = mig_pool ex_mig" "pmu ex_probe = pmu_static (\<lambda>_ _. (0, 0))" "tsc_val ex_probe 0 = 0"
proof -
  have "pmu ex_probe = pmu ex_pds" "tasks ex_probe = tasks ex_pds" "mig_pool ex_probe = mig_pool ex_pds"
      "tsc_val ex_probe = tsc_val ex_pds"
    by (simp_all add: ex_probe_def probe_st.defs pds_st.defs)
  moreover have "tsc_val ex_pds 0 = 0" by (simp add: ex_pds_simps)
  ultimately show "tasks ex_probe a = (ex_task a)\<lparr>inst := 20000000, re_cy := 20000000\<rparr>" "smp_processor_id ex_probe = 0"
      "mig_pool ex_probe = mig_pool ex_mig" "pmu ex_probe = pmu_static (\<lambda>_ _. (0, 0))" "tsc_val ex_probe 0 = 0"
    by (simp_all add: ex_pds_fields smp_processor_id_def pmu_static_def)
qed

lemma ex_probe_hw: "hw_ok ex_env ex_probe"
  using pmu_static_rows(2) [of "\<lambda>_ _. (0, 0)"]
  by (simp add: hw_ok_def ex_probe_fields) (simp add: ex_env_def)

lemma events_accounted_witness:
  "let t = fold (cpu_step ex_env) [Count (\<lambda>_. 5), Tick (\<lambda>_. 9500), Count (\<lambda>_. 6)] (inst___switch_to ex_env 1 2 ex_probe)
   in \<exists>u. inst___switch_to ex_env 2 1 t = (if managed (tasks t 2) then put_mask_from_stats ex_env 2 u else u) \<and>
     inst (tasks u 2) = 20000011"
proof -
  let ?es = "[Count (\<lambda>_. 5), Tick (\<lambda>_. 9500), Count (\<lambda>_. 6)]"
  have legal: "\<forall>e \<in> set ?es. \<not> forks 2 e" by simp
  have sum: "inst (tasks ex_probe 2) + sum_list (map (counted 0) ?es) = 20000011"
    by (simp add: ex_probe_fields)
  show ?thesis
    using events_accounted [OF ex_probe_hw _ legal refl refl, of 1 1]
    unfolding Let_def sum by auto
qed

text \<open>
  the probe of \<open>sched_fork\<close> reads the time stamp counter only to throw the value away. The reference
  cycles the forking task has run since the last reading are credited to nobody: at the next tick it
  gets only those since the fork.
\<close>
theorem fork_loses_cycles:
  assumes "runs_here env a s" and "managed (tasks s a)" and "new \<noteq> a" and "NR_CPUS env' = NR_CPUS env"
    and "t = inst_sched_fork env new s" and "u = inst_scheduler_tick env' t"
  shows "ref_cy (tasks u a) = ref_cy (tasks s a) +
    (native_read_tsc env' (smp_processor_id s) - native_read_tsc env (smp_processor_id s))"
proof -
  note f = fork_frame(1,2,4) [OF assms(5)] fork_frame(3) [OF assms(5), of a]
  have t: "tasks t a = tasks s a" "smp_processor_id t = smp_processor_id s" using f assms(3) pmu_cong by auto
  have "runs_here env' a t"
    using assms(1,4) f t by (simp add: runs_here_def hw_ok_def smp_processor_id_def)
  then show ?thesis
    by (cases rule: tick_cases [OF _ assms(6)])
      (use assms(2) t f in \<open>auto simp: ticked_def credited_def Let_def\<close>)
qed

lemma fork_loses_cycles_witness:
  "ref_cy (tasks (inst_scheduler_tick (ex_env\<lparr>native_read_tsc := (\<lambda>_. 9100)\<rparr>)
     (inst_sched_fork ex_env 3 (ex_probe\<lparr>cpu_ts := (\<lambda>_. Some 2)\<rparr>))) 2) = 100"
proof -
  let ?s = "ex_probe\<lparr>cpu_ts := (\<lambda>_. Some 2)\<rparr>"
  have "smp_processor_id ?s = 0" using pmu_cong(3) [of ?s ex_probe] by (simp add: ex_probe_fields)
  moreover have "runs_here ex_env 2 ?s" "managed (tasks ?s 2)"
    using ex_probe_hw pmu_cong(2) [of ?s ex_probe]
    by (simp_all add: runs_here_def managed_def ex_probe_fields ex_task_def SEEKER_MAGIC_NUMBER_def is_blacklist_task_def)
  moreover have "ref_cy (tasks ?s 2) = 0" "native_read_tsc ex_env 0 = 9000"
    by (simp_all add: ex_probe_fields ex_task_def) (simp add: ex_env_def)
  ultimately show ?thesis
    using fork_loses_cycles [of ex_env 2 ?s 3 "ex_env\<lparr>native_read_tsc := (\<lambda>_. 9100)\<rparr>", OF _ _ _ _ refl refl]
    by simp
qed

text \<open>
  a tick refreshes the interval of the running managed task, credits its events and asks for a
  reschedule exactly when it has passed \<open>INST_THRESHOLD\<close> or its CPU is no longer in the state the task
  was given; the third condition of the code, an interval different from the mutator's, never holds.
  No other task changes.
\<close>
theorem tick_resched:
  assumes "runs_here env a s" and "managed (tasks s a)" and "t = inst_scheduler_tick env s"
  shows "(need_resched (tasks t a) \<longleftrightarrow> need_resched (tasks s a) \<or>
      INST_THRESHOLD < inst (tasks s a) + elapsed 0 s \<or>
      cpustate (tasks s a) \<noteq> cur_cpu_state s (smp_processor_id s)) \<and>
    interval (tasks t a) = interval_count s \<and> (\<forall>b. b \<noteq> a \<longrightarrow> tasks t b = tasks s b)"
  by (cases rule: tick_cases [OF assms(1,3)])
    (use assms(2) in \<open>auto simp: ticked_def credited_def Let_def\<close>)

definition ex_running :: probe_st where
  "ex_running = ex_probe\<lparr>cpu_ts := (\<lambda>_. Some 2)\<rparr>"

lemma ex_running_ok: "runs_here ex_env 2 ex_running" "managed (tasks ex_running 2)"
    "tasks ex_running = tasks ex_probe" "mig_pool ex_running = mig_pool ex_mig"
  using ex_probe_hw pmu_cong(2) [of ex_running ex_probe]
  by (simp_all add: ex_running_def runs_here_def managed_def ex_probe_fields ex_task_def SEEKER_MAGIC_NUMBER_def
      is_blacklist_task_def)

lemma tick_resched_witness:
  "interval (tasks (inst_scheduler_tick ex_env ex_running) 2) = interval_count ex_running"
  using tick_resched [OF ex_running_ok(1,2) refl] by blast

text \<open>
  Seeker leaves alone the tasks it does not manage (kernel threads by name, and tasks born before
  it was loaded): such a task is counted, but it never raises a demand, never has a migration
  requested, is not touched by a tick and its release changes nothing; and no birth raises a demand.
\<close>
theorem unmanaged_left_alone:
  assumes "hw_ok env s" and "\<not> managed (tasks s a)"
  shows "states (inst___switch_to env a b s) = states s \<and>
    mig_pool (inst___switch_to env a b s) = mig_pool s \<and>
    (runs_here env a s \<longrightarrow> inst_scheduler_tick env s = s) \<and>
    inst_release_thread env a s = Some s \<and>
    (is_blacklist_task (tasks s a) \<noteq> 0 \<longrightarrow> mig_pool (inst_sched_fork env a s) = mig_pool s) \<and>
    states (inst_sched_fork env a s) = states s"
proof (intro conjI impI)
  obtain u where "inst___switch_to env a b s = u" "mig_pool u = mig_pool s" "states u = states s"
    using switch_run [OF assms(1), of a b] assms(2) by metis
  then show "states (inst___switch_to env a b s) = states s" "mig_pool (inst___switch_to env a b s) = mig_pool s"
    by simp_all
  show "inst_scheduler_tick env s = s" if "runs_here env a s"
    by (cases rule: tick_cases [OF that refl]) (use assms(2) in auto)
  show "inst_release_thread env a s = Some s"
    using assms(2) by (auto simp: inst_release_thread_def managed_def)
  show "mig_pool (inst_sched_fork env a s) = mig_pool s" if "is_blacklist_task (tasks s a) \<noteq> 0"
    using that by (auto simp: inst_sched_fork_def Let_def get_tsc_cycles_def upd_task_def is_blacklist_task_def)
  show "states (inst_sched_fork env a s) = states s"
    by (simp add: inst_sched_fork_def Let_def get_tsc_cycles_def upd_task_def initial_mask_def)
qed

lemma unmanaged_left_alone_witness:
  "let s = ex_probe\<lparr>tasks := (tasks ex_probe)(4 := (ex_task 4)\<lparr>comm := ''events/0''\<rparr>)\<rparr>
   in inst_release_thread ex_env 4 s = Some s"
proof -
  let ?s = "ex_probe\<lparr>tasks := (tasks ex_probe)(4 := (ex_task 4)\<lparr>comm := ''events/0''\<rparr>)\<rparr>"
  have "hw_ok ex_env ?s" using ex_probe_hw pmu_cong(2) [of ?s ex_probe] by simp
  moreover have "\<not> managed (tasks ?s 4)" by (simp add: managed_def is_blacklist_task_def)
  ultimately show ?thesis using unmanaged_left_alone [of ex_env ?s 4 4] by (simp add: Let_def)
qed

text \<open>
  releasing a managed task takes all its migration requests out of the pool (those of every task
  struct with its pid, even one made just before), without ever dereferencing NULL, and leaves the
  requests of the other tasks.
\<close>
theorem release_withdraws:
  assumes "pool_ok env s" and "managed (tasks s a)"
  shows "\<exists>t. inst_release_thread env a s = Some t \<and> pool_ok env t \<and> tasks t = tasks s \<and>
    requests env t = filter_mset (\<lambda>(b, m). pid (tasks s b) \<noteq> pid (tasks s a)) (requests env s)"
proof -
  let ?s = "log_entry env (LOG_PID \<lparr>pid_name = comm (tasks s a), pid_pid = of_int (pid (tasks s a))\<rparr>) s"
  have "mig_pool ?s = mig_pool s" by simp
  note p = pool_ok_cong [OF this, of env] requests_cong [OF this, of env]
  have "pool_ok env ?s" using assms(1) p by simp
  from cancel_requests [OF this, of a] show ?thesis
    using assms(2) p by (auto simp: inst_release_thread_def managed_def)
qed

lemma release_withdraws_witness:
  "map_option (requests ex_env) (inst_release_thread ex_env 7 ex_running) = Some {#}"
proof -
  have ok: "pool_ok ex_env ex_running" "requests ex_env ex_running = {#(7, {1})#}"
    using ex_mig_ok ex_mig_requests pool_ok_cong [OF ex_running_ok(4)] requests_cong [OF ex_running_ok(4)] by simp_all
  have "managed (tasks ex_running 7)"
    by (simp add: ex_running_ok(3) managed_def ex_probe_fields ex_task_def SEEKER_MAGIC_NUMBER_def is_blacklist_task_def)
  from release_withdraws [OF ok(1) this] show ?thesis by (auto simp: ok(2))
qed

subsection \<open>A new task\<close>







end
