(* ===== verification/Scheduler_Main.thy ===== *)
theory Scheduler_Main
  imports Probe
begin

text \<open>
  Loading and unloading the scheduler module (\<open>Module/seeker-scheduler/main.c\<close>, and the debug stubs of
  \<open>sched_debug.c\<close> that are compiled in without \<open>SCHED_DEBUG\<close>): the order in which the components are
  set up, what a successful load establishes, and what the error exits leave behind.
\<close>

subsection \<open>State and module parameters\<close>

record main_st = probe_st +
  allowed_cpus :: int

definition ENOTSUPP :: int where "ENOTSUPP = 524"
definition ENOSYS :: int where "ENOSYS = 38"

subsection \<open>The debug logger\<close>

definition sched_debug_logger :: "'a main_st_scheme \<Rightarrow> 'a main_st_scheme" where
  "sched_debug_logger s = s"

definition init_sched_debug_logger :: "'a main_st_scheme \<Rightarrow> 'a main_st_scheme" where
  "init_sched_debug_logger s = s"

definition exit_sched_debug_logger :: "'a main_st_scheme \<Rightarrow> 'a main_st_scheme" where
  "exit_sched_debug_logger s = s"

subsection \<open>Loading and unloading\<close>

text \<open>The parameters: what disables scheduling, and \<open>None\<close> for an unknown method.\<close>

definition check_methods :: "'a main_st_scheme \<Rightarrow> 'a main_st_scheme option" where
  "check_methods s =
     (let s = (if mutation_method s = ONDEMAND_MUTATOR \<or> mutation_method s = CONSERVATIVE_MUTATOR
               then s\<lparr>disable_scheduling := 1\<rparr> else s)
      in if scheduling_method s = LADDER_SCHEDULING \<or> scheduling_method s = SELECT_SCHEDULING \<or>
            scheduling_method s = ADAPTIVE_LADDER_SCHEDULING then Some s
         else if scheduling_method s = DISABLE_SCHEDULING then Some (s\<lparr>disable_scheduling := 1\<rparr>)
         else None)"

definition set_online :: "kenv \<Rightarrow> 'a main_st_scheme \<Rightarrow> 'a main_st_scheme" where
  "set_online env s =
     (let s = s\<lparr>total_online_cpus := num_online_cpus env\<rparr>;
          s = (if allowed_cpus s \<noteq> 0 then
                 if 0 < allowed_cpus s \<and> allowed_cpus s \<le> total_online_cpus s
                 then s\<lparr>total_online_cpus := allowed_cpus s\<rparr> else s
               else s);
          s = s\<lparr>total_online_mask := {}\<rparr>
      in s\<lparr>total_online_mask := for_up 0 (total_online_cpus s) insert (total_online_mask s)\<rparr>)"

definition scheduler_init :: "kenv \<Rightarrow> 'a main_st_scheme \<Rightarrow> int \<times> 'a main_st_scheme" where
  "scheduler_init env s =
     (case check_methods s of
        None \<Rightarrow> (- ENOTSUPP, if mutation_method s = ONDEMAND_MUTATOR \<or> mutation_method s = CONSERVATIVE_MUTATOR
                            then s\<lparr>disable_scheduling := 1\<rparr> else s)
      | Some s \<Rightarrow>
          let s = set_online env s; s = init_mig_pool env s; s = init_idle_logger env s
          in case init_tsc_intf env s of (r, s) \<Rightarrow>
             if r \<noteq> 0 then (- ENOSYS, s)
             else case configure_counters env s of (r, s) \<Rightarrow>
             if r \<noteq> 0 then (- ENOSYS, s)
             else
               let s = snd (init_cpu_states env s); s = init_mutator env s
               in case log_init env s of (r, s) \<Rightarrow>
                  if r \<noteq> 0 then (- ENODEV, s)
                  else case insert_probes env s of (r, s) \<Rightarrow>
                  if r \<noteq> 0 then (- ENOSYS, s)
                  else (0, init_sched_debug_logger s))"

text \<open>\<open>None\<close>: the log's chain of blocks is broken.\<close>

definition scheduler_exit :: "kenv \<Rightarrow> 'a main_st_scheme \<Rightarrow> 'a main_st_scheme option" where
  "scheduler_exit env s =
     (let s = exit_cpu_states s; s = exit_mutator s; s = stop_state_logger s;
          s = snd (remove_probes s)
      in case log_exit s of
           None \<Rightarrow> None
         | Some s \<Rightarrow> Some (exit_sched_debug_logger (exit_mig_pool env (exit_counters env s))))"

subsection \<open>What the early steps keep\<close>

definition setup_kept :: "'a main_st_scheme \<Rightarrow> 'a main_st_scheme \<Rightarrow> bool" where
  "setup_kept s t \<longleftrightarrow>
     total_online_cpus t = total_online_cpus s \<and> total_states t = total_states s \<and> total_online_mask t = total_online_mask s \<and>
     user_head t = user_head s \<and> user_store t = user_store s \<and> init_layout_length t = init_layout_length s \<and>
     freq_info t = freq_info s \<and> mig_pool t = mig_pool s \<and> probes t = probes s \<and>
     disable_scheduling t = disable_scheduling s \<and> mutation_method t = mutation_method s"

lemma setup_kept_refl [simp]: "setup_kept s s"
  by (simp add: setup_kept_def)

lemma setup_kept_trans: "setup_kept s t \<Longrightarrow> setup_kept t u \<Longrightarrow> setup_kept s u"
  by (simp add: setup_kept_def)

lemma upd_pmu_kept [simp]: "setup_kept s (upd_pmu f t) = setup_kept s t"
  by (simp add: setup_kept_def upd_pmu_def)

lemma ON_EACH_CPU_kept:
  "(\<And>t. setup_kept s t \<Longrightarrow> setup_kept s (f t)) \<Longrightarrow> setup_kept s (ON_EACH_CPU env f s)"
  by (rule ON_EACH_CPU_preserves [where P = "setup_kept s"]) simp_all

lemma init_tsc_intf_kept: "setup_kept s (snd (init_tsc_intf env s))"
proof -
  have "setup_kept s (ON_EACH_CPU env (init_tsc env) s)"
    by (rule ON_EACH_CPU_kept) (simp add: init_tsc_def setup_kept_def)
  then show ?thesis by (simp add: init_tsc_intf_def Let_def)
qed

lemma configure_counters_kept: "setup_kept s (snd (configure_counters env s))"
proof -
  have "setup_kept s (ON_EACH_CPU env (enable_pmu_counters env) s)"
    by (rule ON_EACH_CPU_kept) (simp add: enable_pmu_counters_def clear_counters_def Let_def)
  then show ?thesis by (simp add: configure_counters_def Let_def)
qed

text \<open>Setting up the states touches nothing beyond the state component.\<close>

definition beyond :: "'a state_st_scheme \<Rightarrow> 'a state_st_scheme \<Rightarrow> bool" where
  "beyond s t \<longleftrightarrow> state_st.more t = state_st.more s \<and> total_online_cpus t = total_online_cpus s \<and>
     (\<forall>p. inform (user_store t p) = inform (user_store s p))"

lemma beyond_trans: "beyond s t \<Longrightarrow> beyond t u \<Longrightarrow> beyond s u"
  by (simp add: beyond_def)

lemma beyond_loop:
  assumes "\<And>i t. beyond s t \<Longrightarrow> beyond t (f i t)"
  shows "beyond s (for_up m n f s)"
  by (rule for_up_preserves [where P = "beyond s"])
    (simp add: beyond_def, blast intro: assms beyond_trans)

lemma beyond_set_freq: "beyond s (snd (sched_set_freq env i st s))"
  by (rule freq_frameE [OF sched_set_freq_frame [of s env i st]]) (simp add: beyond_def)

lemma beyond_place: "beyond s (place_cpu env i l s)"
  using beyond_set_freq [of s env i l] by (simp add: beyond_def place_cpu_def upd_state_def Let_def)

lemma beyond_reset: "beyond s (reset_cpu_states env s)"
proof -
  have "beyond u (for_up 0 n read_max_states u)" "beyond u (for_up 0 n clear_state u)" for n and u :: "'a state_st_scheme"
    by (rule beyond_loop,
      simp add: beyond_def read_max_states_def clear_state_def demand_clear_def upd_state_def Let_def)+
  then show ?thesis by (simp add: beyond_def reset_cpu_states_def size_states_def Let_def)
qed

lemma beyond_init_cpu_states:
  fixes s :: "'a state_st_scheme"
  shows "beyond s (snd (init_cpu_states env s)) \<and>
    (kmalloc_ok env \<and> inform (user_store s seeker_scheduler_user) \<noteq> None \<longrightarrow>
     seeker_scheduler_user \<in> set (user_head (snd (init_cpu_states env s))))"
proof -
  have loops: "beyond u (for_up 0 n (layout_cpu env) u)" "beyond u (for_up m n (\<lambda>i. place_cpu env i 0) u)"
    for m n and u :: "'a state_st_scheme"
  proof -
    have "beyond v (layout_cpu env i v)" for i and v :: "'a state_st_scheme"
      using beyond_place [of "v\<lparr>init_layout := (init_layout v)(i := BOUNDS (init_layout v i) 0 (total_states v))\<rparr>" env i]
      by (simp add: layout_cpu_def Let_def beyond_def)
    then show "beyond u (for_up 0 n (layout_cpu env) u)" by (rule beyond_loop)
    show "beyond u (for_up m n (\<lambda>i. place_cpu env i 0) u)" by (rule beyond_loop) (rule beyond_place)
  qed
  have reg: "beyond v (snd (register_scpufreq_user env p v))" for p and v :: "'a state_st_scheme"
    by (simp add: beyond_def register_scpufreq_user_def create_user_def split: option.splits)
  let ?r = "reset_cpu_states env s"
  let ?l = "for_up 0 (init_layout_length ?r) (layout_cpu env) ?r"
  let ?p = "for_up (init_layout_length ?l) (total_online_cpus ?l) (\<lambda>i. place_cpu env i 0) ?l"
  have "snd (init_cpu_states env s) = snd (register_scpufreq_user env (Some seeker_scheduler_user) ?p)"
    by (simp add: init_cpu_states_def Let_def case_prod_beta)
  moreover have p: "beyond s ?p"
    by (rule beyond_trans [OF beyond_trans [OF beyond_reset loops(1)] loops(2)])
  moreover have "seeker_scheduler_user \<in> set (user_head (snd (register_scpufreq_user env (Some seeker_scheduler_user) v)))"
    if "kmalloc_ok env" "inform (user_store v seeker_scheduler_user) \<noteq> None" for v :: "'a state_st_scheme"
    using that by (auto simp: register_scpufreq_user_def create_user_def)
  ultimately show ?thesis
    using beyond_trans [OF p reg] by (simp add: beyond_def)
qed

lemma beyond_states:
  assumes "beyond s t"
  shows "mig_pool t = mig_pool s" "probes t = probes s" "disable_scheduling t = disable_scheduling s"
    "mutation_method t = mutation_method s" "total_online_mask t = total_online_mask s"
  using assms by (cases s, cases t, simp add: beyond_def)+

subsection \<open>What each later step does to the others' state\<close>

lemma insert_loop: "0 \<le> n \<Longrightarrow> for_up 0 n insert {} = {0..<n}"
  by (rule for_up_inv [where P = "\<lambda>j A. A = {0..<j}"]) auto

definition online :: "kenv \<Rightarrow> 'a main_st_scheme \<Rightarrow> int" where
  "online env s = (if 0 < allowed_cpus s \<and> allowed_cpus s \<le> num_online_cpus env then allowed_cpus s
     else num_online_cpus env)"

lemma set_online_eq:
  "0 \<le> num_online_cpus env \<Longrightarrow>
   set_online env s = s\<lparr>total_online_cpus := online env s, total_online_mask := {0..<online env s}\<rparr>"
  by (simp add: set_online_def online_def Let_def insert_loop)

lemma init_mutator_frame:
  "states_ok (init_mutator env s) = states_ok s" "mig_pool (init_mutator env s) = mig_pool s"
  "probes (init_mutator env s) = probes s" "disable_scheduling (init_mutator env s) = disable_scheduling s"
  "total_online_cpus (init_mutator env s) = total_online_cpus s"
  "total_online_mask (init_mutator env s) = total_online_mask s"
  by (simp_all add: init_mutator_def Let_def states_ok_def placed_def)

lemma init_mutator_armed:
  "mutation_method s \<noteq> STATIC_MUTATOR \<Longrightarrow>
   timer_started (init_mutator env s) \<and> state_work_pending (init_mutator env s)"
  by (simp add: init_mutator_def Let_def)

text \<open>The last two steps write the log, its device and the probes only.\<close>

lemma log_init_frame:
  obtains h c b d r k l m v where "snd (log_init env s) = s\<lparr>log_heap := h, start_log := c, current_log := b,
    first_read := d, dev_created := r, log_cachep := k, log_lock := l, log_mdev_registered := m, log_cache_live := v\<rparr>"
proof -
  let ?t = "snd (log_init env s)"
  have "?t = s\<lparr>log_heap := log_heap ?t, start_log := start_log ?t, current_log := current_log ?t,
    first_read := first_read ?t, dev_created := dev_created ?t, log_cachep := log_cachep ?t,
    log_lock := log_lock ?t, log_mdev_registered := log_mdev_registered ?t, log_cache_live := log_cache_live ?t\<rparr>"
    by (simp add: log_init_def Let_def split: option.split)
  then show thesis by (rule that)
qed

lemma insert_probes_frame:
  fixes s :: "'a probe_st_scheme"
  obtains p where "snd (insert_probes env s) = s\<lparr>probes := p\<rparr>"
proof -
  define K where "K u \<longleftrightarrow> (\<exists>p. u = s\<lparr>probes := p\<rparr>)" for u :: "'a probe_st_scheme"
  have "s = s\<lparr>probes := probes s\<rparr>" by simp
  then have s: "K s" unfolding K_def by blast
  have un: "K (unregister p u)" if "K u" for p u
    using that by (auto simp: K_def unregister_def)
  have reg: "K (snd (register env p u))" if "K u" for p u
    using that by (auto simp: K_def register_def Let_def)
  have "K (snd (insert_probes env s))"
    unfolding insert_probes_def case_prod_beta by (auto intro!: un reg s)
  then show thesis using that by (auto simp: K_def)
qed

lemma late_frame:
  fixes s :: "'a main_st_scheme" and env :: kenv
  defines "u \<equiv> snd (log_init env s)" and "v \<equiv> snd (insert_probes env s)"
  shows "states_ok u = states_ok s \<and> mig_pool u = mig_pool s \<and> disable_scheduling u = disable_scheduling s \<and>
      total_online_cpus u = total_online_cpus s \<and> total_online_mask u = total_online_mask s \<and>
      timer_started u = timer_started s \<and> state_work_pending u = state_work_pending s \<and> probes u = probes s \<and>
      user_head u = user_head s"
    and "states_ok v = states_ok s \<and> mig_pool v = mig_pool s \<and> disable_scheduling v = disable_scheduling s \<and>
      total_online_cpus v = total_online_cpus s \<and> total_online_mask v = total_online_mask s \<and>
      timer_started v = timer_started s \<and> state_work_pending v = state_work_pending s \<and>
      log_heap v = log_heap s \<and> start_log v = start_log s \<and> dev_created v = dev_created s \<and>
      user_head v = user_head s \<and> log_mdev_registered v = log_mdev_registered s"
  unfolding u_def v_def
  by (rule log_init_frame [of env s], simp add: states_ok_def placed_def,
      rule insert_probes_frame [of env s], simp add: states_ok_def placed_def)

subsection \<open>Runs of the module's entry point\<close>

text \<open>The states the entry point goes through when it gets as far as the log.\<close>

definition started :: "kenv \<Rightarrow> 'a main_st_scheme \<Rightarrow> 'a main_st_scheme \<Rightarrow> bool" where
  "started env s t \<longleftrightarrow> (\<exists>u v w. check_methods s = Some u \<and>
     init_tsc_intf env (init_idle_logger env (init_mig_pool env (set_online env u))) = (0, v) \<and>
     configure_counters env v = (0, w) \<and> t = init_mutator env (snd (init_cpu_states env w)))"

lemma scheduler_init_cases:
  assumes "scheduler_init env s = (r, t)"
  obtains (early) "r = - ENOTSUPP \<or> r = - ENOSYS" "\<And>u. \<not> started env s u"
  | (log) u where "started env s u" "log_init env u = (- 1, t)" "r = - ENODEV"
  | (probes) u v where "started env s u" "log_init env u = (0, v)" "insert_probes env v = (- 1, t)" "r = - ENOSYS"
  | (success) u v where "started env s u" "log_init env u = (0, v)" "insert_probes env v = (0, t)" "r = 0"
proof (cases "\<exists>u. started env s u")
  case False
  then have "r = - ENOTSUPP \<or> r = - ENOSYS"
    using assms by (auto simp: scheduler_init_def started_def Let_def split: option.splits prod.splits if_splits)
  with False show thesis by (intro early) auto
next
  case True
  then obtain u v w where u: "check_methods s = Some u"
      "init_tsc_intf env (init_idle_logger env (init_mig_pool env (set_online env u))) = (0, v)"
      "configure_counters env v = (0, w)"
    by (auto simp: started_def)
  let ?u = "init_mutator env (snd (init_cpu_states env w))"
  have st: "started env s ?u" using u by (auto simp: started_def)
  obtain l y where l: "log_init env ?u = (l, y)" by fastforce
  have l01: "l = 0 \<or> l = - 1" using l by (auto simp: log_init_def Let_def split: if_splits option.splits)
  obtain p z where p: "insert_probes env y = (p, z)" by fastforce
  have p01: "p = 0 \<or> p = - 1"
    using p by (auto simp: insert_probes_def register_def Let_def split: if_splits)
  have run: "(if l \<noteq> 0 then (- ENODEV, y) else if p \<noteq> 0 then (- ENOSYS, z) else (0, z)) = (r, t)"
    using assms u l p by (cases "l = 0"; cases "p = 0") (simp_all add: scheduler_init_def Let_def init_sched_debug_logger_def)
  show thesis
  proof (cases "l = 0")
    case True
    then show thesis
      using run p01 l p success [OF st, of y] probes [OF st, of y] by (cases "p = 0") auto
  next
    case False
    then show thesis using run l01 l log [OF st] by auto
  qed
qed

lemma max_states_cong:
  "total_states t = total_states s \<Longrightarrow> freq_info t = freq_info s \<Longrightarrow> max_states n t = max_states n s"
  by (simp add: max_states_def get_max_states_def)

definition scheduling_off :: "'a main_st_scheme \<Rightarrow> bool" where
  "scheduling_off s \<longleftrightarrow> mutation_method s = ONDEMAND_MUTATOR \<or> mutation_method s = CONSERVATIVE_MUTATOR \<or>
     scheduling_method s = DISABLE_SCHEDULING"

lemma check_methods_some:
  "check_methods s = Some u \<Longrightarrow>
   u = s\<lparr>disable_scheduling := (if scheduling_off s then 1 else disable_scheduling s)\<rparr>"
  by (cases "mutation_method s = ONDEMAND_MUTATOR \<or> mutation_method s = CONSERVATIVE_MUTATOR";
      cases "scheduling_method s = DISABLE_SCHEDULING")
    (simp_all add: check_methods_def scheduling_off_def Let_def scheduling_defs split: if_splits)

definition init_ready :: "kenv \<Rightarrow> 'a main_st_scheme \<Rightarrow> bool" where
  "init_ready env s \<longleftrightarrow> 1 \<le> num_online_cpus env \<and> 0 \<le> NR_CPUS env \<and> user_head s = [] \<and>
     0 \<le> init_layout_length s \<and> 0 < max_states (online env s) s"

lemma started_ok:
  assumes st: "started env s t" and r: "init_ready env s"
  shows "states_ok t \<and> total_online_cpus t = online env s \<and> total_online_mask t = {0..<online env s} \<and>
    pool_ok env t \<and> requests env t = {#} \<and> probes t = probes s \<and>
    disable_scheduling t = (if scheduling_off s then 1 else disable_scheduling s) \<and>
    (mutation_method s \<noteq> STATIC_MUTATOR \<longrightarrow> timer_started t \<and> state_work_pending t) \<and>
    (kmalloc_ok env \<and> inform (user_store s seeker_scheduler_user) \<noteq> None \<longrightarrow>
      seeker_scheduler_user \<in> set (user_head t))"
proof -
  obtain u v w where u: "check_methods s = Some u"
      "init_tsc_intf env (init_idle_logger env (init_mig_pool env (set_online env u))) = (0, v)"
      "configure_counters env v = (0, w)" and t: "t = init_mutator env (snd (init_cpu_states env w))"
    using st by (auto simp: started_def)
  let ?d = "if scheduling_off s then 1 else disable_scheduling s"
  let ?p = "init_mig_pool env (set_online env u)"
  have n: "0 \<le> num_online_cpus env" "0 \<le> online env s" "0 \<le> NR_CPUS env"
    using r by (auto simp: init_ready_def online_def)
  have on: "online env u = online env s" unfolding check_methods_some [OF u(1)] by (simp add: online_def)
  have o: "set_online env u = s\<lparr>disable_scheduling := ?d, total_online_cpus := online env s,
      total_online_mask := {0..<online env s}\<rparr>"
    unfolding set_online_eq [OF n(1)] on unfolding check_methods_some [OF u(1)] by simp
  have pool: "pool_ok env ?p \<and> requests env ?p = {#}" by (rule init_mig_pool_requests [OF n(3)])
  define i where "i = init_idle_logger env ?p"
  have i: "total_online_cpus i = online env s" "total_states i = total_states s" "freq_info i = freq_info s"
      "total_online_mask i = {0..<online env s}" "user_head i = []" "user_store i = user_store s" "init_layout_length i = init_layout_length s"
      "mig_pool i = mig_pool ?p" "probes i = probes s" "disable_scheduling i = ?d" "mutation_method i = mutation_method s"
    using r unfolding i_def init_mig_pool_pool [OF n(3)] o by (simp_all add: init_idle_logger_def init_ready_def)
  have w: "setup_kept i w"
    using setup_kept_trans [OF init_tsc_intf_kept [of i env] configure_counters_kept] u(2,3)
    by (metis i_def snd_conv)
  let ?q = "snd (init_cpu_states env w)"
  have "states_ok ?q"
  proof (rule conjunct1 [OF init_cpu_states_placed])
    show "0 < max_states (total_online_cpus w) w"
      using r w i max_states_cong [of w s] by (simp add: setup_kept_def init_ready_def)
  qed (use r w i n in \<open>auto simp: setup_kept_def init_ready_def\<close>)
  note b = conjunct1 [OF beyond_init_cpu_states [of w env]]
  have q: "total_online_cpus ?q = online env s" using b w i by (simp add: beyond_def setup_kept_def)
  note m = beyond_states [OF b]
  have "mig_pool t = mig_pool ?p" using m w i by (simp add: t init_mutator_frame setup_kept_def)
  moreover have "user_head t = user_head ?q" by (simp add: t init_mutator_def Let_def)
  ultimately show ?thesis
    using conjunct2 [OF beyond_init_cpu_states [of w env]] pool_ok_cong [of t ?p env] requests_cong [of t ?p env]
      pool \<open>states_ok ?q\<close> q m w i init_mutator_armed [of ?q env]
    unfolding t by (simp add: init_mutator_frame setup_kept_def)
qed

text \<open>
  C8: a load that succeeds leaves every component ready: the online CPUs are the configured ones and
  their tables agree, no migration is pending, all five probes are in place, the mutator's timer runs
  unless the static mutator is chosen, and scheduling is off exactly when a load-driven mutator or the
  scheduling method asks for it (or it was off before).
\<close>
theorem scheduler_init_success:
  assumes "scheduler_init env s = (0, t)" and "init_ready env s"
    and "\<And>p. register_probe env p \<le> 0" and "probes s \<inter> all_probes = {}"
  shows "states_ok t \<and> total_online_cpus t = online env s \<and> total_online_mask t = {0..<online env s} \<and>
    pool_ok env t \<and> requests env t = {#} \<and> probes t = probes s \<union> all_probes \<and>
    (mutation_method s \<noteq> STATIC_MUTATOR \<longrightarrow> timer_started t \<and> state_work_pending t) \<and>
    disable_scheduling t = (if scheduling_off s then 1 else disable_scheduling s)"
  using assms(1)
proof (cases rule: scheduler_init_cases)
  case (success u v)
  note u = started_ok [OF success(1) assms(2)]
  have v: "v = snd (log_init env u)" and t: "t = snd (insert_probes env v)" using success by simp_all
  note fv = late_frame(1) [of env u, folded v] and ft = late_frame(2) [of env v, folded t]
  have "probes v \<inter> all_probes = {}" using u fv assms(4) by simp
  from insert_probes_all_or_nothing [OF assms(3) this] have "probes t = probes v \<union> all_probes"
    using success(3) by simp
  moreover have "mig_pool t = mig_pool u" using fv ft by simp
  ultimately show ?thesis
    using u fv ft pool_ok_cong [of t u env] requests_cong [of t u env] by simp
qed (simp_all add: ENOTSUPP_def ENOSYS_def ENODEV_def)

text \<open>
  C31: the error exits after the mutator was set up undo nothing: when the log or a probe cannot be set
  up, loading fails, and the module is unloaded with its timer armed, its work item scheduled and its
  callback registered with the governor.
\<close>
theorem scheduler_init_failure_leaks:
  assumes "scheduler_init env s = (r, t)" and "r \<noteq> 0" and "started env s u" and "init_ready env s"
    and "mutation_method s \<noteq> STATIC_MUTATOR"
    and "kmalloc_ok env" and "inform (user_store s seeker_scheduler_user) \<noteq> None"
  shows "timer_started t \<and> state_work_pending t \<and> seeker_scheduler_user \<in> set (user_head t)"
  using assms(1)
proof (cases rule: scheduler_init_cases)
  case (log u)
  then show ?thesis
    using started_ok [OF log(1) assms(4)] late_frame(1) [of env u] assms(5-7) by simp
next
  case (probes u v)
  then show ?thesis
    using started_ok [OF probes(1) assms(4)] late_frame(1) [of env u] late_frame(2) [of env v] assms(5-7) by simp
qed (use assms(2,3) in auto)

lemma exit_log:
  assumes "log_abs s q" and "log_cachep s" and "dev_created s"
  shows "log_exit s = Some (s\<lparr>dev_open := False, log_mdev_registered := False, start_log := None,
    current_log := None, log_heap := Map.empty, log_cache_live := False, dev_created := False\<rparr>)"
proof -
  obtain ps where rep: "log_rep s ps" using assms(1) by (auto simp: log_abs_def)
  let ?s = "s\<lparr>dev_open := False, log_mdev_registered := False\<rparr>"
  have "log_rep ?s ps" using rep by (simp add: log_rep_def)
  then have "purge_log ?s = Some (?s\<lparr>start_log := None, current_log := None, log_heap := Map.empty\<rparr>)"
    by (rule purge_log_rep) (use assms(2) in simp)
  moreover have "s = s\<lparr>dev_open := False\<rparr>" if "\<not> dev_open s"
    by (rule log_st.equality) (use that in simp_all)
  then have eq: "(if dev_open s then s\<lparr>dev_open := False\<rparr> else s) = s\<lparr>dev_open := False\<rparr>"
    by (simp only: if_cancel split: if_split) blast
  ultimately show ?thesis using assms(3) unfolding log_exit_def eq Let_def by simp
qed

lemma exit_counters_frame:
  fixes s :: "'a hw_st_scheme"
  obtains p where "exit_counters env s = s\<lparr>pmu := p\<rparr>"
proof -
  define K where "K u \<longleftrightarrow> (\<exists>p. u = s\<lparr>pmu := p\<rparr>)" for u :: "'a hw_st_scheme"
  have up: "K (upd_pmu f u)" if "K u" for f u
    using that by (auto simp: K_def upd_pmu_def)
  have "s = s\<lparr>pmu := pmu s\<rparr>" by simp
  then have "K s" unfolding K_def by blast
  then have "K (exit_counters env s)"
    unfolding exit_counters_def
    by (rule ON_EACH_CPU_preserves) (simp_all add: up disable_pmu_counters_def)
  then show thesis using that by (auto simp: K_def)
qed

text \<open>
  C30: unloading quiesces the module: no timer, state logger or migration stays scheduled, all probes
  are out, every block of the log is freed and its device gone.
\<close>
theorem scheduler_exit_quiesces:
  assumes "log_abs s q" and "log_cachep s" and "dev_created s" and "pool_ok env s" and "0 \<le> NR_CPUS env"
    and "state_work_pending s \<longrightarrow> timer_started s" and "state_logger_pending s \<longrightarrow> state_logger_started s"
  shows "\<exists>t. scheduler_exit env s = Some t \<and> probes t = probes s - all_probes \<and>
    \<not> timer_started t \<and> \<not> state_work_pending t \<and> \<not> state_logger_pending t \<and>
    log_heap t = Map.empty \<and> \<not> log_mdev_registered t \<and>
    (\<forall>i. 0 \<le> i \<and> i < MIG_POOL_SIZE env \<longrightarrow> \<not> pending (mig_pool t i))"
proof -
  define u where "u = snd (remove_probes (stop_state_logger (exit_mutator (exit_cpu_states s))))"
  have u: "log_heap u = log_heap s" "start_log u = start_log s" "current_log u = current_log s"
      "first_read u = first_read s" "log_cachep u = log_cachep s" "dev_created u = dev_created s"
      "mig_pool u = mig_pool s" "probes u = probes s - all_probes" "\<not> timer_started u" "\<not> state_work_pending u"
      "\<not> state_logger_pending u"
    using assms(6,7)
    by (auto simp: u_def remove_probes_def unregister_def stop_state_logger_def exit_mutator_def
        exit_cpu_states_def deregister_scpufreq_user_def destroy_user_def all_probes_def split: option.splits)
  have "log_abs u q" using assms(1) u by (simp add: log_abs_def log_rep_def block_entry_def [abs_def])
  from exit_log [OF this] u assms(2,3)
  obtain v where v: "log_exit u = Some v" "log_heap v = Map.empty" "\<not> log_mdev_registered v" "mig_pool v = mig_pool s"
      "probes v = probes s - all_probes" "\<not> timer_started v" "\<not> state_work_pending v" "\<not> state_logger_pending v"
    by simp
  obtain p where w: "exit_counters env v = v\<lparr>pmu := p\<rparr>" by (rule exit_counters_frame)
  have "pool_ok env (v\<lparr>pmu := p\<rparr>)" using assms(4) pool_ok_cong [of "v\<lparr>pmu := p\<rparr>" s] v(4) by simp
  note idle = exit_mig_pool_idle [OF assms(5) this]
  have "scheduler_exit env s = Some (exit_mig_pool env (v\<lparr>pmu := p\<rparr>))"
    using v(1) w by (simp add: scheduler_exit_def u_def exit_sched_debug_logger_def)
  moreover have "probes x = probes v \<and> timer_started x = timer_started v \<and> state_work_pending x = state_work_pending v \<and>
      state_logger_pending x = state_logger_pending v \<and> log_heap x = log_heap v \<and>
      log_mdev_registered x = log_mdev_registered v" if "x = exit_mig_pool env (v\<lparr>pmu := p\<rparr>)" for x
    unfolding that exit_mig_pool_pool [OF assms(5)] by simp
  ultimately show ?thesis using v idle by auto
qed

subsection \<open>A load that succeeds\<close>

lemma counting_ok:
  "counters_error (ON_EACH_CPU env (enable_pmu_counters env) s) = counters_error s"
  "counters_error (ON_EACH_CPU env (init_tsc env) s) = counters_error s"
  by (rule ON_EACH_CPU_preserves [where P = "\<lambda>t. counters_error t = counters_error s"];
    simp add: upd_pmu_def enable_pmu_counters_def clear_counters_def init_tsc_def Let_def)+

text \<open>When the kernel grants everything, loading succeeds.\<close>

lemma started_runs:
  assumes "check_methods s \<noteq> None" and "\<not> counters_error s" and "0 \<le> num_online_cpus env" "0 \<le> NR_CPUS env"
    and "\<And>f. 0 \<le> on_each_cpu_ret env f"
  shows "\<exists>t. started env s t"
proof -
  obtain u where u: "check_methods s = Some u" using assms(1) by auto
  let ?i = "init_idle_logger env (init_mig_pool env (set_online env u))"
  obtain v where v: "init_tsc_intf env ?i = (0, v)"
    using assms(5) [of "''init_tsc''"] by (simp add: init_tsc_intf_def Let_def)
  then have "counters_error v = counters_error u"
    by (auto simp: init_mig_pool_pool [OF assms(4)] init_tsc_intf_def Let_def counting_ok init_idle_logger_def
        set_online_eq [OF assms(3)] split: if_splits)
  then have "\<not> counters_error v"
    unfolding check_methods_some [OF u] using assms(2) by simp
  then obtain w where "configure_counters env v = (0, w)"
    using assms(5) [of "''enable_pmu_counters''"] by (simp add: configure_counters_def Let_def counting_ok)
  then show ?thesis using u v by (auto simp: started_def)
qed

lemma scheduler_init_runs:
  assumes "started env s u" and "0 \<le> misc_register_ret env" and "kmem_cache_create_ok env"
    and "\<And>u. kmem_cache_alloc env u \<noteq> None" and "\<And>p. register_probe env p = 0"
  shows "\<exists>t. scheduler_init env s = (0, t)"
proof -
  obtain r t where rt: "scheduler_init env s = (r, t)" by fastforce
  have "fst (log_init env v) = 0" for v :: "'a main_st_scheme"
    using assms(2-4) by (auto simp: log_init_def Let_def split: option.split)
  moreover have "fst (insert_probes env v) = 0" for v :: "'a main_st_scheme"
    using assms(5) by (simp add: insert_probes_def register_def Let_def)
  ultimately show ?thesis
    using rt by (cases rule: scheduler_init_cases [OF rt]) (use assms(1) in \<open>auto simp: prod_eq_iff\<close>)
qed

definition ex_main :: main_st where
  "ex_main = probe_st.extend (ex_probe\<lparr>user_head := []\<rparr>) (main_st.fields 0)"

definition ex_kernel :: kenv where
  "ex_kernel = ex_env\<lparr>kmem_cache_alloc := (\<lambda>used. Some (if used 0 then 1 else 0))\<rparr>"

lemma ex_kernel_simps:
  "num_online_cpus ex_kernel = 2" "NR_CPUS ex_kernel = 4" "on_each_cpu_ret ex_kernel f = 0"
  "misc_register_ret ex_kernel = 0" "kmem_cache_create_ok ex_kernel" "kmem_cache_alloc ex_kernel u \<noteq> None"
  "register_probe ex_kernel p = 0" "kmalloc_ok ex_kernel"
  by (simp_all add: ex_kernel_def ex_env_def)

lemma ex_main_simps:
  "total_states ex_main = 3 \<and> user_head ex_main = [] \<and> init_layout_length ex_main = 0 \<and> probes ex_main = {} \<and>
   mutation_method ex_main = 0 \<and> scheduling_method ex_main = 0 \<and> allowed_cpus ex_main = 0 \<and> \<not> counters_error ex_main
   \<and> inform (user_store ex_main seeker_scheduler_user) \<noteq> None"
  by (simp add: ex_main_def main_st.defs ex_probe_simps ex_pds_simps ex_mig_simps ex_dyn_simps)

lemma ex_main_ready:
  assumes "num_online_cpus env = 2" and "NR_CPUS env = 4"
  shows "init_ready env ex_main"
proof -
  have "online env ex_main = 2" using assms(1) ex_main_simps by (simp add: online_def)
  moreover have "total_states ex_main \<le> max_states 2 ex_main"
    unfolding max_states_def by (rule Max_ge) auto
  ultimately show ?thesis using assms ex_main_simps by (auto simp: init_ready_def)
qed

lemma ex_main_methods: "check_methods ex_main \<noteq> None"
  using ex_main_simps by (simp add: check_methods_def scheduling_defs Let_def)

lemma scheduler_init_success_witness:
  "\<exists>t. scheduler_init ex_kernel ex_main = (0, t) \<and> states_ok t \<and> probes t = all_probes"
proof -
  obtain u where "started ex_kernel ex_main u"
    using started_runs [OF ex_main_methods, of ex_kernel] ex_main_simps ex_kernel_simps by auto
  from scheduler_init_runs [OF this] ex_kernel_simps
  obtain t where "scheduler_init ex_kernel ex_main = (0, t)" by auto
  from scheduler_init_success [OF this] this show ?thesis
    using ex_main_ready [of ex_kernel] ex_kernel_simps ex_main_simps by simp
qed

lemma scheduler_init_failure_leaks_witness:
  "\<exists>r t. scheduler_init (ex_kernel\<lparr>misc_register_ret := - 1\<rparr>) ex_main = (r, t) \<and> r \<noteq> 0 \<and> timer_started t"
proof -
  let ?env = "ex_kernel\<lparr>misc_register_ret := - 1\<rparr>"
  obtain u where u: "started ?env ex_main u"
    using started_runs [OF ex_main_methods, of ?env] ex_main_simps ex_kernel_simps by auto
  obtain r t where rt: "scheduler_init ?env ex_main = (r, t)" by fastforce
  have "r \<noteq> 0"
    using rt by (cases rule: scheduler_init_cases) (auto simp: ENOTSUPP_def ENOSYS_def ENODEV_def log_init_def)
  moreover have "init_ready ?env ex_main" by (rule ex_main_ready) (simp_all add: ex_kernel_simps)
  ultimately show ?thesis
    using scheduler_init_failure_leaks [OF rt _ u] rt ex_main_simps ex_kernel_simps
    by (auto simp: STATIC_MUTATOR_def)
qed

lemma ex_main_log:
  "log_heap ex_main = Map.empty \<and> mig_pool ex_main = mig_pool ex_mig \<and> \<not> state_logger_pending ex_main \<and>
   (state_work_pending ex_main \<longrightarrow> timer_started ex_main)"
  by (simp add: ex_main_def main_st.defs ex_probe_simps ex_pds_simps ex_mig_simps ex_dyn_simps)

lemma scheduler_exit_quiesces_witness:
  "\<exists>t. scheduler_exit ex_env (snd (log_init ex_env ex_main)) = Some t \<and> log_heap t = Map.empty \<and>
    \<not> pending (mig_pool t 0)"
proof -
  let ?s = "snd (log_init ex_env ex_main)"
  have env: "misc_register_ret ex_env = 0" "kmem_cache_create_ok ex_env"
      "kmem_cache_alloc ex_env (\<lambda>_. False) = Some 0" "NR_CPUS ex_env = 4"
    by (simp_all add: ex_env_def ex_alloc_def)
  have s: "?s = ex_main\<lparr>log_lock := False, log_mdev_registered := True, log_cachep := True, log_cache_live := True,
      log_heap := [0 \<mapsto> \<lparr>entry = LOG_UNSET, nxt = None\<rparr>], current_log := Some 0, start_log := Some 0,
      dev_created := True, first_read := True\<rparr>"
    using ex_main_log env by (simp add: log_init_def Let_def)
  have "log_abs ?s []" unfolding s log_abs_def log_rep_def by (rule exI [of _ "[0]"]) simp
  moreover have "pool_ok ex_env ?s" using ex_mig_ok ex_main_log pool_ok_cong [of ?s ex_mig] unfolding s by simp
  ultimately show ?thesis
    using scheduler_exit_quiesces [of ?s "[]" ex_env] ex_main_log env
    by (auto simp: s ex_pool_size)
qed

end
