(* ===== verification/Sched_Debug.thy ===== *)
theory Sched_Debug
  imports Prelude "HOL-Library.Multiset"
begin

text \<open>
  The debug channel of the scheduler in the configuration with \<open>SCHED_DEBUG\<close> (\<open>sched_debug.h\<close>,
  \<open>sched_debug.c\<close>): a probe may not print, so it appends its message to a buffer that a delayed work
  item prints. The macro \<open>sched_debug\<close> tests the room that is left before it takes the lock, so its two
  halves are separate steps, and callers on several CPUs can be between them.
\<close>

subsection \<open>State\<close>

definition SCHED_DEBUG_LEN :: nat where "SCHED_DEBUG_LEN = 1024"

definition SCHED_DEBUG_LOGGER_INTERVAL :: "kenv \<Rightarrow> int" where
  "SCHED_DEBUG_LOGGER_INTERVAL env = HZ env div 10"

text \<open>
  \<open>dbg_timer\<close>: the delay with which the work item is scheduled, if it is; \<open>printed\<close>: what \<open>printk\<close> has
  written; \<open>in_flight\<close>: the messages of the callers that have passed the test and not yet the lock.
\<close>

record dbg_st =
  debug_string :: string
  dbg_lock :: bool
  sched_debug_logger_started :: int
  dbg_timer :: "int option"
  printed :: string
  in_flight :: "string multiset"

subsection \<open>Operations\<close>

text \<open>\<open>__tmp_str\<close>, a buffer of 100 characters: \<open>None\<close> when \<open>sprintf\<close> writes past its end.\<close>

definition debug_line :: "string \<Rightarrow> string option" where
  "debug_line msg =
     (let tmp = ''SAD: '' @ msg @ [CHR 0x0A] in if length tmp < 100 then Some tmp else None)"

text \<open>The test of the macro and, under the lock, the \<open>strcat\<close>.\<close>

definition debug_fits :: "string \<Rightarrow> dbg_st \<Rightarrow> bool" where
  "debug_fits tmp s \<longleftrightarrow> length (debug_string s) + 1 + length tmp < SCHED_DEBUG_LEN"

definition debug_append :: "string \<Rightarrow> dbg_st \<Rightarrow> dbg_st" where
  "debug_append tmp s =
     (let s = s\<lparr>dbg_lock := True\<rparr>; s = s\<lparr>debug_string := debug_string s @ tmp\<rparr> in s\<lparr>dbg_lock := False\<rparr>)"

text \<open>The whole macro, when nobody comes in between.\<close>

definition sched_debug :: "string \<Rightarrow> dbg_st \<Rightarrow> dbg_st option" where
  "sched_debug msg s =
     (case debug_line msg of
        None \<Rightarrow> None
      | Some tmp \<Rightarrow> Some (if debug_fits tmp s then debug_append tmp s else s))"

definition debug_logger :: "kenv \<Rightarrow> dbg_st \<Rightarrow> dbg_st" where
  "debug_logger env s =
     (let s = s\<lparr>dbg_lock := True, dbg_timer := None\<rparr>;
          s = s\<lparr>printed := printed s @ debug_string s\<rparr>;
          s = s\<lparr>debug_string := []\<rparr>;
          s = s\<lparr>dbg_lock := False\<rparr>
      in if sched_debug_logger_started s \<noteq> 0
         then s\<lparr>dbg_timer := Some (SCHED_DEBUG_LOGGER_INTERVAL env)\<rparr> else s)"

definition init_debug_logger :: "kenv \<Rightarrow> dbg_st \<Rightarrow> dbg_st" where
  "init_debug_logger env s =
     s\<lparr>sched_debug_logger_started := 1, dbg_lock := False, dbg_timer := Some (SCHED_DEBUG_LOGGER_INTERVAL env)\<rparr>"

definition exit_debug_logger :: "dbg_st \<Rightarrow> dbg_st" where
  "exit_debug_logger s =
     (let s = (if sched_debug_logger_started s \<noteq> 0
               then s\<lparr>sched_debug_logger_started := 0, dbg_timer := None\<rparr> else s)
      in if dbg_lock s then s\<lparr>dbg_lock := False\<rparr> else s)"

subsection \<open>Callers on several CPUs\<close>

datatype dbg_event = Test string | Append string | Logger

inductive dbg_step :: "kenv \<Rightarrow> dbg_st \<Rightarrow> dbg_event \<Rightarrow> dbg_st \<Rightarrow> bool" for env :: kenv where
  pass: "\<lbrakk>debug_line msg = Some tmp; debug_fits tmp s\<rbrakk>
     \<Longrightarrow> dbg_step env s (Test msg) (s\<lparr>in_flight := add_mset tmp (in_flight s)\<rparr>)"
| full: "\<lbrakk>debug_line msg = Some tmp; \<not> debug_fits tmp s\<rbrakk> \<Longrightarrow> dbg_step env s (Test msg) s"
| append: "tmp \<in># in_flight s
     \<Longrightarrow> dbg_step env s (Append tmp) (debug_append tmp (s\<lparr>in_flight := in_flight s - {#tmp#}\<rparr>))"
| logger: "dbg_timer s \<noteq> None \<Longrightarrow> dbg_step env s Logger (debug_logger env s)"

text \<open>Runs in which at most \<open>N\<close> callers are between the two halves at any time.\<close>

inductive dbg_run :: "kenv \<Rightarrow> nat \<Rightarrow> dbg_st \<Rightarrow> dbg_event list \<Rightarrow> dbg_st \<Rightarrow> bool" for env :: kenv and N :: nat where
  Nil: "dbg_run env N s [] s"
| Cons: "\<lbrakk>dbg_step env s e t; size (in_flight t) \<le> N; dbg_run env N t es u\<rbrakk> \<Longrightarrow> dbg_run env N s (e # es) u"

subsection \<open>The length of the buffer\<close>

definition flight_len :: "string multiset \<Rightarrow> nat" where
  "flight_len M = (\<Sum>m \<in># M. length m)"

lemma flight_len_simps [simp]:
  "flight_len {#} = 0" "flight_len (add_mset m M) = length m + flight_len M"
  by (simp_all add: flight_len_def)

lemma flight_len_remove: "m \<in># M \<Longrightarrow> length m + flight_len (M - {#m#}) = flight_len M"
  using flight_len_simps(2) [of m "M - {#m#}"] by simp

lemma flight_len_bound: "\<forall>m \<in># M. length m \<le> k \<Longrightarrow> flight_len M \<le> k * size M"
  by (induction M) auto

lemma debug_line_short: "debug_line msg = Some tmp \<Longrightarrow> length tmp \<le> 99"
  by (auto simp: debug_line_def Let_def split: if_splits)

text \<open>What is in the buffer and on its way into it.\<close>

definition dbg_ok :: "nat \<Rightarrow> dbg_st \<Rightarrow> bool" where
  "dbg_ok N s \<longleftrightarrow> (\<forall>m \<in># in_flight s. length m \<le> 99) \<and> size (in_flight s) \<le> N \<and>
     length (debug_string s) + flight_len (in_flight s) + 1 < SCHED_DEBUG_LEN + 99 * (N - 1)"

lemma dbg_ok_step:
  assumes "dbg_step env s e t" and "dbg_ok N s" and "size (in_flight t) \<le> N"
  shows "dbg_ok N t"
  using assms(1)
proof (cases rule: dbg_step.cases)
  case (pass msg tmp)
  then have "flight_len (in_flight s) \<le> 99 * size (in_flight s)" "size (in_flight s) \<le> N - 1"
    using assms(2,3) flight_len_bound [of "in_flight s" 99] by (auto simp: dbg_ok_def)
  then have "flight_len (in_flight s) \<le> 99 * (N - 1)" by (meson le_trans mult_le_mono2)
  with pass assms show ?thesis by (auto simp: dbg_ok_def debug_fits_def debug_line_short)
next
  case (append tmp)
  with assms(2,3) flight_len_remove [OF append(3)] show ?thesis
    by (auto simp: dbg_ok_def debug_append_def Let_def dest: in_diffD)
qed (use assms(2) in \<open>auto simp: dbg_ok_def debug_logger_def Let_def\<close>)

lemma dbg_ok_run: "\<lbrakk>dbg_run env N s es t; dbg_ok N s\<rbrakk> \<Longrightarrow> dbg_ok N t"
  by (induction rule: dbg_run.induct) (auto intro: dbg_ok_step)

text \<open>The text that the runs of the second half have added.\<close>

fun appended :: "dbg_event list \<Rightarrow> string" where
  "appended [] = []"
| "appended (Append tmp # es) = tmp @ appended es"
| "appended (_ # es) = appended es"

lemma dbg_text_step:
  assumes "dbg_step env s e t"
  shows "printed t @ debug_string t = printed s @ debug_string s @ appended [e]"
  using assms by (cases rule: dbg_step.cases) (auto simp: debug_append_def debug_logger_def Let_def)

lemma dbg_text_run:
  "dbg_run env N s es t \<Longrightarrow> printed t @ debug_string t = printed s @ debug_string s @ appended es"
proof (induction rule: dbg_run.induct)
  case (Cons s e t es u)
  have "appended (e # es) = appended [e] @ appended es" by (cases e) auto
  with Cons.IH dbg_text_step [OF Cons.hyps(1)] show ?case by simp
qed simp

text \<open>
  C35: the debug buffer of 1024 characters holds its text with the terminating NUL as long as one
  caller at a time is between the test and the lock; with up to \<open>N\<close> callers there the text can only be
  99 characters longer for each further one. What is printed, followed by the buffer, is the text
  of the accepted messages in the order of their appending.
\<close>
theorem debug_buffer_bound:
  assumes "dbg_run env N s es t" and "debug_string s = []" and "in_flight s = {#}" and "1 \<le> N"
  shows "length (debug_string t) + 1 < SCHED_DEBUG_LEN + 99 * (N - 1) \<and>
    printed t @ debug_string t = printed s @ appended es"
proof -
  have "dbg_ok N s" using assms(2-4) by (simp add: dbg_ok_def SCHED_DEBUG_LEN_def)
  from dbg_ok_run [OF assms(1) this] dbg_text_run [OF assms(1)] show ?thesis
    by (simp add: dbg_ok_def assms(2))
qed

definition ex_dbg :: dbg_st where
  "ex_dbg = \<lparr>debug_string = [], dbg_lock = False, sched_debug_logger_started = 1, dbg_timer = Some 100,
     printed = [], in_flight = {#}\<rparr>"

lemma debug_buffer_bound_witness:
  "\<exists>t. dbg_run ex_env 1 ex_dbg [Test ''hi'', Append (''SAD: hi'' @ [CHR 0x0A]), Logger] t \<and>
     printed t = ''SAD: hi'' @ [CHR 0x0A]"
proof -
  let ?l = "''SAD: hi'' @ [CHR 0x0A]"
  define s1 where "s1 = ex_dbg\<lparr>in_flight := {#?l#}\<rparr>"
  define s2 where "s2 = debug_append ?l ex_dbg"
  define s3 where "s3 = debug_logger ex_env s2"
  have "dbg_step ex_env ex_dbg (Test ''hi'') s1"
    using dbg_step.pass [of "''hi''" ?l ex_dbg ex_env]
    by (simp add: debug_line_def Let_def debug_fits_def s1_def ex_dbg_def SCHED_DEBUG_LEN_def)
  moreover have "dbg_step ex_env s1 (Append ?l) s2"
    using dbg_step.append [of ?l s1 ex_env] by (simp add: s1_def s2_def ex_dbg_def)
  moreover have "dbg_step ex_env s2 Logger s3"
    unfolding s3_def by (rule dbg_step.logger) (simp add: s2_def debug_append_def Let_def ex_dbg_def)
  moreover have "size (in_flight s1) \<le> 1" "size (in_flight s2) \<le> 1" "size (in_flight s3) \<le> 1"
    by (simp_all add: s1_def s2_def s3_def debug_append_def debug_logger_def Let_def ex_dbg_def)
  ultimately have r: "dbg_run ex_env 1 ex_dbg [Test ''hi'', Append ?l, Logger] s3"
    by (auto intro!: dbg_run.intros)
  have "debug_string s3 = []" by (simp add: s3_def debug_logger_def Let_def)
  with debug_buffer_bound [OF r] have "printed s3 = ?l" by (simp add: ex_dbg_def)
  with r show ?thesis by blast
qed

text \<open>With two callers the bound is not that of the buffer: both can pass the test with room for one.\<close>

lemma debug_race:
  "\<exists>s es t. dbg_ok 1 s \<and> dbg_run env 2 s es t \<and> SCHED_DEBUG_LEN < length (debug_string t) + 1"
proof -
  let ?m = "replicate 20 (CHR ''x'')" and ?l = "''SAD: '' @ replicate 20 (CHR ''x'') @ [CHR 0x0A]"
  define s where "s = ex_dbg\<lparr>debug_string := replicate 990 (CHR ''x'')\<rparr>"
  have m: "debug_line ?m = Some ?l" by (simp add: debug_line_def Let_def)
  define s1 where "s1 = s\<lparr>in_flight := {#?l#}\<rparr>"
  define s2 where "s2 = s\<lparr>in_flight := {#?l, ?l#}\<rparr>"
  define s3 where "s3 = debug_append ?l s1"
  define s4 where "s4 = debug_append ?l (s3\<lparr>in_flight := {#}\<rparr>)"
  have "dbg_step env s (Test ?m) s1" "dbg_step env s1 (Test ?m) s2"
    using dbg_step.pass [OF m, of s env] dbg_step.pass [OF m, of s1 env]
    by (simp_all add: debug_fits_def s_def s1_def s2_def ex_dbg_def SCHED_DEBUG_LEN_def)
  moreover have "dbg_step env s2 (Append ?l) s3" "dbg_step env s3 (Append ?l) s4"
    using dbg_step.append [of ?l s2 env] dbg_step.append [of ?l s3 env]
    by (simp_all add: s1_def s2_def s3_def s4_def debug_append_def Let_def)
  moreover have "size (in_flight s1) \<le> 2" "size (in_flight s2) \<le> 2" "size (in_flight s3) \<le> 2" "size (in_flight s4) \<le> 2"
    by (simp_all add: s1_def s2_def s3_def s4_def debug_append_def Let_def)
  ultimately have "dbg_run env 2 s [Test ?m, Test ?m, Append ?l, Append ?l] s4"
    by (auto intro!: dbg_run.intros)
  moreover have "dbg_ok 1 s" by (simp add: dbg_ok_def s_def ex_dbg_def SCHED_DEBUG_LEN_def)
  moreover have "SCHED_DEBUG_LEN < length (debug_string s4) + 1"
    by (simp add: s4_def s3_def s1_def s_def ex_dbg_def debug_append_def Let_def SCHED_DEBUG_LEN_def)
  ultimately show ?thesis by blast
qed

end
