(* ===== verification/Recommendations.thy ===== *)
theory Recommendations
  imports Probe
begin

text \<open>
  The recommendations a program makes about itself: the five calls of \<open>lib/state_recommendations.c\<close> and
  the system call they reach, \<open>sys_seeker\<close> of the kernel patch
  (\<open>Patches/schedmod-kernel-2.6.28.patch\<close>). \<open>current\<close> is the address of the calling task's struct. The
  lemmas follow a recommendation to the next decision of the scheduler and to the exit of the task.
\<close>

subsection \<open>The system call and its callers\<close>

definition sys_seeker :: "nat \<Rightarrow> int \<Rightarrow> int \<Rightarrow> 'a mig_st_scheme \<Rightarrow> int \<times> 'a mig_st_scheme" where
  "sys_seeker current cmd parm s =
     (if cmd = 0 then
        (if 0 \<le> parm \<and> parm < 3 then (0, upd_task current (\<lambda>t. t\<lparr>fixed_state := parm\<rparr>) s) else (- 1, s))
      else if cmd = 1 then (0, upd_task current (\<lambda>t. t\<lparr>fixed_state := - 1\<rparr>) s)
      else if cmd = 2 then (0, upd_task current (\<lambda>t. t\<lparr>seeker_scheduled := 0\<rparr>) s)
      else (- 1, s))"

definition low_freq :: "nat \<Rightarrow> 'a mig_st_scheme \<Rightarrow> int \<times> 'a mig_st_scheme" where
  "low_freq current s = sys_seeker current 0 0 s"

definition mid_freq :: "nat \<Rightarrow> 'a mig_st_scheme \<Rightarrow> int \<times> 'a mig_st_scheme" where
  "mid_freq current s = sys_seeker current 0 1 s"

definition high_freq :: "nat \<Rightarrow> 'a mig_st_scheme \<Rightarrow> int \<times> 'a mig_st_scheme" where
  "high_freq current s = sys_seeker current 0 2 s"

definition continue_dynamically :: "nat \<Rightarrow> 'a mig_st_scheme \<Rightarrow> int \<times> 'a mig_st_scheme" where
  "continue_dynamically current s = sys_seeker current 1 0 s"

definition ignore_task :: "nat \<Rightarrow> 'a mig_st_scheme \<Rightarrow> int \<times> 'a mig_st_scheme" where
  "ignore_task current s = sys_seeker current 2 0 s"

lemmas recommendation_defs = low_freq_def mid_freq_def high_freq_def continue_dynamically_def
  ignore_task_def sys_seeker_def

lemma sys_seeker_rejects: "cmd \<notin> {0, 1, 2} \<or> (cmd = 0 \<and> parm \<notin> {0, 1, 2}) \<Longrightarrow> sys_seeker a cmd parm s = (- 1, s)"
  by (auto simp: sys_seeker_def)

subsection \<open>What the scheduler makes of them\<close>

lemma decide_pinned:
  "pinned_state t s = Some r \<Longrightarrow>
     decide env t cur s = (search_state_closest env s cur r, hist_step t, r, 0, error_thrown s)"
  by (auto simp: pinned_state_def decide_def split: if_splits)

lemma tasks_do_not_steer:
  fixes s :: "'a mig_st_scheme"
  shows "search_state_closest env (s\<lparr>tasks := f\<rparr>) cur r = search_state_closest env s cur r"
  by (rule search_cong) (simp_all add: get_state_tasks_def get_state_tasks_exself_def)

text \<open>
  C7: after \<open>low_freq\<close>, \<open>mid_freq\<close> or \<open>high_freq\<close> the next decision about the task (made once it has retired
  \<open>INST_THRESHOLD\<close> instructions) is the recommended state, whatever the scheduling method and the measured IPC would have made of it: the demand of the low,
  middle or high state, and of no other, rises by one, and the task is put down for the free state
  closest to it, or for the least loaded one when none is free. If scheduling is not disabled and the pool has
  room, the CPUs of that state, if it has any, are requested; if it is disabled, as the module does for method 3 and for
  the on-demand and the conservative mutator, nothing is requested. The README promises more: that
  the task executes at the recommended frequency from now on.
\<close>
theorem recommendation_obeyed:
  fixes s :: "'a pds_st_scheme"
  assumes "(call, r) \<in> {(low_freq, low_state s), (mid_freq, mid_state s), (high_freq, high_state s)}"
    and "pool_ok env s" and "INST_THRESHOLD \<le> inst (tasks s ts)"
    and "(ret, s1) = call ts s" and "t = put_mask_from_stats env ts s1"
    and "new_state = search_state_closest env s (cur_cpu_state s (smp_processor_id s)) r"
  shows "ret = 0 \<and> states t = (states s)(r := (states s r)\<lparr>demand := demand (states s r) + 1\<rparr>) \<and>
    cpustate (tasks t ts) = new_state \<and> inst (tasks t ts) = 0 \<and>
    requests env t = (if disable_scheduling s = 0 then asks env ts (state_mask s new_state) (requests env s)
                      else requests env s)"
proof -
  have pin_eq: "pinned_state (tasks (upd_task ts (\<lambda>t. t\<lparr>fixed_state := p\<rparr>) s) ts)
      (upd_task ts (\<lambda>t. t\<lparr>fixed_state := p\<rparr>) s) =
    (if p = 0 then Some (low_state s) else if p = 1 then Some (mid_state s)
     else if p = 2 then Some (high_state s) else None)" for p
    by (simp add: pinned_state_def upd_task_def fixed_state_defs)
  have "\<exists>p. call ts s = (0, upd_task ts (\<lambda>t. t\<lparr>fixed_state := p\<rparr>) s) \<and>
      pinned_state (tasks (upd_task ts (\<lambda>t. t\<lparr>fixed_state := p\<rparr>) s) ts)
        (upd_task ts (\<lambda>t. t\<lparr>fixed_state := p\<rparr>) s) = Some r"
  proof -
    from assms(1) consider "call = low_freq" "r = low_state s" | "call = mid_freq" "r = mid_state s"
      | "call = high_freq" "r = high_state s" by auto
    then show ?thesis unfolding pin_eq
      by cases (rule exI [of _ 0], simp add: recommendation_defs, rule exI [of _ 1], simp add: recommendation_defs,
          rule exI [of _ 2], simp add: recommendation_defs)
  qed
  then obtain p where p: "ret = 0" "s1 = upd_task ts (\<lambda>t. t\<lparr>fixed_state := p\<rparr>) s" and
      pin: "pinned_state (tasks s1 ts) s1 = Some r"
    using assms(4) by auto
  have eqs: "pool_ok env s1 = pool_ok env s" "requests env s1 = requests env s" "states s1 = states s"
      "disable_scheduling s1 = disable_scheduling s" "state_mask s1 = state_mask s"
      "inst (tasks s1 ts) = inst (tasks s ts)" "cur_cpu_state s1 = cur_cpu_state s"
      "smp_processor_id s1 = smp_processor_id s"
      "search_state_closest env s1 c r = search_state_closest env s c r" for c
    unfolding p(2) using pool_ok_cong [of "upd_task ts (\<lambda>t. t\<lparr>fixed_state := p\<rparr>) s" s env]
      requests_cong [of "upd_task ts (\<lambda>t. t\<lparr>fixed_state := p\<rparr>) s" s env]
    by (simp_all add: upd_task_def tasks_do_not_steer state_mask_def fun_eq_iff smp_processor_id_def)
  note run = put_mask_run [of env s1 ts, unfolded eqs, OF assms(2,3) decide_pinned [OF pin]]
  show ?thesis using run by (simp add: p(1) assms(5,6) eqs)
qed

lemma recommendation_obeyed_witness:
  "demand (states (put_mask_from_stats ex_env 5 (snd (high_freq 5 ex_pds))) 2) = demand (states ex_pds 2) + 1"
proof -
  have "INST_THRESHOLD \<le> inst (tasks ex_pds 5)"
    by (simp add: ex_pds_fields INST_THRESHOLD_def)
  moreover have "(0, snd (high_freq 5 ex_pds)) = high_freq 5 ex_pds"
    by (simp add: recommendation_defs)
  moreover have "high_state ex_pds = 2" by (simp add: ex_pds_fields ex_mig_fields)
  ultimately show ?thesis
    using recommendation_obeyed [of high_freq 2 ex_pds, OF _ ex_pds_ok(1) _ _ refl refl] by force
qed

text \<open>
  C37: a task that has asked to be ignored is not taken off the books: its pending migration requests
  stay in the pool, and its exit no longer withdraws them (the exit of a managed task does), so the
  pool keeps a pointer to a task that is gone.
\<close>
theorem ignored_task_not_withdrawn:
  fixes s :: "'a probe_st_scheme"
  assumes "pool_ok env s" and "managed (tasks s a)" and "(ret, t) = ignore_task a s"
  shows "ret = 0 \<and> requests env t = requests env s \<and> inst_release_thread env a t = Some t \<and>
    (\<exists>u. inst_release_thread env a s = Some u \<and>
      requests env u = filter_mset (\<lambda>(b, m). pid (tasks s b) \<noteq> pid (tasks s a)) (requests env s))"
proof -
  have t: "ret = 0" "t = upd_task a (\<lambda>t. t\<lparr>seeker_scheduled := 0\<rparr>) s"
    using assms(3) by (simp_all add: recommendation_defs)
  then have "requests env t = requests env s" by (intro requests_cong) (simp add: upd_task_def)
  moreover have "inst_release_thread env a t = Some t"
    by (simp add: t(2) inst_release_thread_def upd_task_def SEEKER_MAGIC_NUMBER_def)
  ultimately show ?thesis using t(1) release_withdraws [OF assms(1,2)] by blast
qed

lemma ignored_task_not_withdrawn_witness:
  "map_option (requests ex_env) (inst_release_thread ex_env 7 (snd (ignore_task 7 ex_running))) = Some {#(7, {1})#}"
proof -
  have ok: "pool_ok ex_env ex_running" "requests ex_env ex_running = {#(7, {1})#}"
    using ex_mig_ok ex_mig_requests pool_ok_cong [OF ex_running_ok(4)] requests_cong [OF ex_running_ok(4)] by simp_all
  have "managed (tasks ex_running 7)"
    by (simp add: ex_running_ok(3) managed_def ex_probe_fields ex_task_def SEEKER_MAGIC_NUMBER_def is_blacklist_task_def)
  from ignored_task_not_withdrawn [OF ok(1) this, of _ "snd (ignore_task 7 ex_running)"] show ?thesis
    by (simp add: ok(2) recommendation_defs)
qed

end
