(* ===== verification/C_Strings.thy ===== *)
theory C_Strings
  imports Prelude "HOL-Library.Char_ord"
begin

text \<open>
  What the user-space tools use of the C library's strings: a string is its list of characters up to
  the terminating NUL. Decimal output of integers (\<open>%d\<close>, \<open>operator<<\<close>), \<open>atoi\<close> on values that fit
  its result, and \<open>strtok\<close> with the whole of its state, the rest of the string.
\<close>

subsection \<open>Decimal numbers\<close>

definition digit_char :: "nat \<Rightarrow> char" where "digit_char d = char_of (48 + d)"

definition is_digit :: "char \<Rightarrow> bool" where
  "is_digit c \<longleftrightarrow> 48 \<le> (of_char c :: nat) \<and> (of_char c :: nat) \<le> 57"

definition digit_val :: "char \<Rightarrow> int" where "digit_val c = int (of_char c) - 48"

fun dec_nat :: "nat \<Rightarrow> string" where
  "dec_nat n = (if n < 10 then [digit_char n] else dec_nat (n div 10) @ [digit_char (n mod 10)])"

declare dec_nat.simps [simp del]

definition dec_int :: "int \<Rightarrow> string" where
  "dec_int i = (if i < 0 then CHR ''-'' # dec_nat (nat (- i)) else dec_nat (nat i))"

fun digits_val :: "int \<Rightarrow> string \<Rightarrow> int" where
  "digits_val acc [] = acc"
| "digits_val acc (c # cs) = (if is_digit c then digits_val (acc * 10 + digit_val c) cs else acc)"

definition is_space :: "char \<Rightarrow> bool" where
  "is_space c \<longleftrightarrow> (of_char c :: nat) = 32 \<or> (9 \<le> (of_char c :: nat) \<and> (of_char c :: nat) \<le> 13)"

definition atoi :: "string \<Rightarrow> int" where
  "atoi s = (case dropWhile is_space s of
     [] \<Rightarrow> 0
   | c # cs \<Rightarrow> if c = CHR ''-'' then - digits_val 0 cs
              else if c = CHR ''+'' then digits_val 0 cs else digits_val 0 (c # cs))"

lemma digit_char_props:
  assumes "d < 10"
  shows "is_digit (digit_char d)" "digit_val (digit_char d) = int d" "\<not> is_space (digit_char d)"
    "digit_char d \<noteq> CHR ''-''" "digit_char d \<noteq> CHR ''+''"
proof -
  have c: "(of_char (digit_char d) :: nat) = 48 + d" using assms by (simp add: digit_char_def)
  then show "is_digit (digit_char d)" "digit_val (digit_char d) = int d" "\<not> is_space (digit_char d)"
    using assms by (auto simp: is_digit_def digit_val_def is_space_def)
  show "digit_char d \<noteq> CHR ''-''"
  proof
    assume "digit_char d = CHR ''-''"
    with c show False by simp
  qed
  show "digit_char d \<noteq> CHR ''+''"
  proof
    assume "digit_char d = CHR ''+''"
    with c show False by simp
  qed
qed

definition no_digit :: "string \<Rightarrow> bool" where
  "no_digit s \<longleftrightarrow> (case s of [] \<Rightarrow> True | c # _ \<Rightarrow> \<not> is_digit c)"

lemma digits_val_dec:
  "digits_val a (dec_nat n @ r) = digits_val (a * 10 ^ length (dec_nat n) + int n) r"
proof (induction n arbitrary: a r rule: dec_nat.induct)
  case (1 n)
  show ?case
  proof (cases "n < 10")
    case True
    then show ?thesis using digit_char_props [of n] by (simp add: dec_nat.simps)
  next
    case False
    have d: "dec_nat n = dec_nat (n div 10) @ [digit_char (n mod 10)]"
      using False by (subst dec_nat.simps) simp
    have "n mod 10 < 10" by simp
    note p = digit_char_props [OF this]
    have "n = n div 10 * 10 + n mod 10" by simp
    then have "int n = int (n div 10) * 10 + int (n mod 10)" by (metis of_nat_add of_nat_mult of_nat_numeral)
    then show ?thesis using "1.IH" [OF False] p unfolding d by (simp add: algebra_simps)
  qed
qed

lemma dec_nat_digits: "c \<in> set (dec_nat n) \<Longrightarrow> \<exists>d < 10. c = digit_char d"
proof (induction n rule: dec_nat.induct)
  case (1 n)
  then show ?case
    by (cases "n < 10") (auto simp: dec_nat.simps [of n] intro: exI [of _ n] exI [of _ "n mod 10"])
qed

lemma dec_nat_nonempty [simp]: "dec_nat n \<noteq> []"
  by (simp add: dec_nat.simps)

lemma digits_val_end: "no_digit r \<Longrightarrow> digits_val a r = a"
  by (cases r) (auto simp: no_digit_def)

lemma atoi_dec_int:
  assumes "no_digit r"
  shows "atoi (dec_int i @ r) = i"
proof (cases "i < 0")
  case True
  have "\<not> is_space (CHR ''-'')" by (simp add: is_space_def)
  with True show ?thesis
    by (simp add: atoi_def dec_int_def digits_val_dec digits_val_end [OF assms])
next
  case False
  obtain c cs where c: "dec_nat (nat i) = c # cs" by (cases "dec_nat (nat i)") auto
  then obtain d where "d < 10" "c = digit_char d" using dec_nat_digits [of c "nat i"] by auto
  with digit_char_props have p: "\<not> is_space c" "c \<noteq> CHR ''-''" "c \<noteq> CHR ''+''" by auto
  then have "atoi (dec_int i @ r) = digits_val 0 (dec_nat (nat i) @ r)"
    using False c by (simp add: atoi_def dec_int_def)
  then show ?thesis using False by (simp add: digits_val_dec digits_val_end [OF assms])
qed

subsection \<open>Tokens\<close>

text \<open>One call: skip separators, return the characters up to the next one and the rest behind it.\<close>

definition strtok :: "string \<Rightarrow> string \<Rightarrow> (string \<times> string) option" where
  "strtok sep s =
     (let r = dropWhile (\<lambda>c. c \<in> set sep) s
      in if r = [] then None
         else Some (takeWhile (\<lambda>c. c \<notin> set sep) r, tl (dropWhile (\<lambda>c. c \<notin> set sep) r)))"

lemma strtok_shorter: "strtok sep s = Some (t, r) \<Longrightarrow> length r < length s"
proof -
  assume "strtok sep s = Some (t, r)"
  moreover define u where "u = dropWhile (\<lambda>c. c \<in> set sep) s"
  ultimately have u: "u \<noteq> []" "r = tl (dropWhile (\<lambda>c. c \<notin> set sep) u)"
    by (auto simp: strtok_def Let_def split: if_splits)
  have "length u \<le> length s" "length (dropWhile (\<lambda>c. c \<notin> set sep) u) \<le> length u"
    by (simp_all add: u_def length_dropWhile_le)
  moreover have "0 < length u" using u(1) by simp
  ultimately show "length r < length s" unfolding u(2) length_tl by linarith
qed

text \<open>\<open>strtok(str, sep)\<close> followed by \<open>strtok(NULL, sep)\<close> until NULL.\<close>

function tokens :: "string \<Rightarrow> string \<Rightarrow> string list" where
  "tokens sep s = (case strtok sep s of None \<Rightarrow> [] | Some (t, r) \<Rightarrow> t # tokens sep r)"
  by pat_completeness auto
termination
  by (relation "measure (\<lambda>(sep, s). length s)") (auto dest: strtok_shorter)

declare tokens.simps [simp del]

lemma tokens_Nil [simp]: "tokens sep [] = []"
  by (simp add: tokens.simps strtok_def)

lemma strtok_app:
  assumes "t \<noteq> []" and "set t \<inter> set sep = {}" and "c \<in> set sep"
  shows "strtok sep (t @ c # r) = Some (t, r)"
proof -
  have "dropWhile (\<lambda>c. c \<in> set sep) (t @ c # r) = t @ c # r"
    using assms by (cases t) auto
  moreover have "takeWhile (\<lambda>c. c \<notin> set sep) (t @ c # r) = t"
    "dropWhile (\<lambda>c. c \<notin> set sep) (t @ c # r) = c # r"
    using assms by (auto simp: takeWhile_append dropWhile_append)
  ultimately show ?thesis using assms(1) by (simp add: strtok_def)
qed

lemma strtok_last:
  assumes "t \<noteq> []" and "set t \<inter> set sep = {}"
  shows "strtok sep t = Some (t, [])"
proof -
  have d: "dropWhile (\<lambda>c. c \<in> set sep) t = t" using assms by (cases t) auto
  have t: "takeWhile (\<lambda>c. c \<notin> set sep) t = t" "dropWhile (\<lambda>c. c \<notin> set sep) t = []"
    using assms by (auto simp: takeWhile_eq_all_conv dropWhile_eq_Nil_conv)
  show ?thesis by (simp add: strtok_def d t assms(1) del: dropWhile_eq_Nil_conv takeWhile_eq_all_conv)
qed

text \<open>Joining non-empty tokens with separators and splitting them again.\<close>

fun join :: "string \<Rightarrow> string list \<Rightarrow> string" where
  "join sep [] = []"
| "join sep [t] = t"
| "join sep (t # u # ts) = t @ sep @ join sep (u # ts)"

lemma tokens_join:
  assumes "\<forall>t \<in> set ts. t \<noteq> [] \<and> c \<notin> set t"
  shows "tokens [c] (join [c] ts) = ts"
  using assms
proof (induction "[c]" ts rule: join.induct)
  case (2 t)
  then show ?case by (subst tokens.simps) (simp add: strtok_last)
next
  case (3 t u ts)
  then show ?case by (subst tokens.simps) (simp add: strtok_app)
qed simp

end
