(* ===== verification/Launch.thy ===== *)
theory Launch
  imports C_Strings
begin

text \<open>
  The launcher \<open>utils/launch.c\<close>, which runs applications on chosen CPUs and times them: the command line,
  and what the parent process does to its children. A \<open>char[300]\<close> is its string; writing more than
  299 characters into it is the error \<open>Overrun\<close>. What the processes do is a list of actions each; the clock, and so the
  elapsed time that a child prints, is not modelled.
\<close>

subsection \<open>The command line\<close>

definition CORE :: string where "CORE = ''core''"

record struct_app =
  core :: int
  prog :: string
  cmd :: string

text \<open>
  \<open>Overrun\<close>: \<open>strcat\<close> writes past a buffer; \<open>Range\<close>: \<open>atoi\<close> of a number that no \<open>int\<close> holds. C says nothing
  about either.
\<close>

datatype launch_error = Usage | Help | Overrun | Range

text \<open>\<open>argv[i]\<close>, with \<open>argc\<close> the length of the list.\<close>

definition arg :: "string list \<Rightarrow> int \<Rightarrow> string" where "arg argv i = argv ! nat i"

definition argc :: "string list \<Rightarrow> int" where "argc argv = int (length argv)"

text \<open>The value that is returned, and \<open>*kill_slow\<close>.\<close>

definition get_options :: "string list \<Rightarrow> int \<Rightarrow> launch_error + (int \<times> int)" where
  "get_options argv kill_slow =
     (if argc argv < 2 then Inr (- 1, kill_slow)
      else if arg argv 1 = ''-h'' \<or> arg argv 1 = ''--help'' then Inl Help
      else
        let kill_slow = (if arg argv 1 = ''-k'' \<or> arg argv 1 = ''--kill-slow'' then 1 else kill_slow)
        in if argc argv < 4 then Inr (- 1, kill_slow) else Inr (0, kill_slow))"

definition count_num_apps :: "int \<Rightarrow> string list \<Rightarrow> int" where
  "count_num_apps kill_slow_flag argv =
     for_up (1 + kill_slow_flag) (argc argv) (\<lambda>i n. if arg argv i = CORE then n + 1 else n) 0"

text \<open>The copy is terminated when the command ends within the first \<open>mx\<close> characters.\<close>

definition copy_cmd :: "string \<Rightarrow> int \<Rightarrow> string" where
  "copy_cmd p mx = takeWhile (\<lambda>c. c \<noteq> CHR '' '') (take (nat mx) p)"

text \<open>\<open>strcat\<close> into the buffer.\<close>

definition cat300 :: "string \<Rightarrow> string \<Rightarrow> launch_error + string" where
  "cat300 buf s = (if length buf + length s < 300 then Inr (buf @ s) else Inl Overrun)"

text \<open>The values of a C \<open>int\<close>.\<close>

definition int_range :: "int \<Rightarrow> bool" where
  "int_range x \<longleftrightarrow> - (2 ^ 31) \<le> x \<and> x < 2 ^ 31"

text \<open>The loop over the arguments carries \<open>just\<close>, \<open>app_index\<close> and the array; \<open>Inl Usage\<close> is \<open>return -1\<close>.\<close>

type_synonym apps_st = "int \<times> int \<times> struct_app list"

definition app_arg :: "string \<Rightarrow> apps_st \<Rightarrow> launch_error + apps_st" where
  "app_arg w st =
     (case st of (just, app_index, a) \<Rightarrow>
        if w = CORE then Inr (1, app_index + 1, a)
        else if just = 1 then
          (if int_range (atoi w)
           then Inr (just + 1, app_index, a[nat app_index := (a ! nat app_index)\<lparr>core := atoi w\<rparr>])
           else Inl Range)
        else if 2 \<le> just then
          (case cat300 (prog (a ! nat app_index)) w of
             Inl e \<Rightarrow> Inl e
           | Inr p \<Rightarrow>
               (case cat300 p '' '' of
                  Inl e \<Rightarrow> Inl e
                | Inr p \<Rightarrow> Inr (just + 1, app_index, a[nat app_index := (a ! nat app_index)\<lparr>prog := p\<rparr>])))
        else Inl Usage)"

function scan_apps :: "int \<Rightarrow> string list \<Rightarrow> apps_st \<Rightarrow> launch_error + apps_st" where
  "scan_apps i argv st =
     (if i < argc argv then
        (case app_arg (arg argv i) st of Inl e \<Rightarrow> Inl e | Inr st \<Rightarrow> scan_apps (i + 1) argv st)
      else Inr st)"
  by pat_completeness auto
termination
  by (relation "measure (\<lambda>(i, argv, st). nat (argc argv - i))") auto

declare scan_apps.simps [simp del]

definition get_apps :: "struct_app list \<Rightarrow> int \<Rightarrow> int \<Rightarrow> string list \<Rightarrow> launch_error + struct_app list" where
  "get_apps a kill_slow_flag number_apps argv =
     (case scan_apps (1 + kill_slow_flag) argv (0, - 1, a) of
        Inl e \<Rightarrow> Inl e
      | Inr (just, app_index, a) \<Rightarrow>
          if just \<le> 2 \<or> app_index \<noteq> number_apps - 1 then Inl Usage
          else Inr (for_up 0 number_apps (\<lambda>i a. a[nat i := (a ! nat i)\<lparr>cmd := copy_cmd (prog (a ! nat i)) 300\<rparr>]) a))"

subsection \<open>The parent process\<close>

text \<open>The part of \<open>main\<close> before the forks: the flag and the applications. \<open>calloc\<close> returns zeroed memory.\<close>

definition launch_setup :: "string list \<Rightarrow> launch_error + (int \<times> struct_app list)" where
  "launch_setup argv =
     (case get_options argv 0 of
        Inl e \<Rightarrow> Inl e
      | Inr (r, kill_slow_children) \<Rightarrow>
          if r \<noteq> 0 then Inl Usage
          else
            let number_apps = count_num_apps kill_slow_children argv;
                apps = replicate (nat number_apps) \<lparr>core = 0, prog = '''', cmd = ''''\<rparr>
            in (case get_apps apps kill_slow_children number_apps argv of
                  Inl e \<Rightarrow> Inl e
                | Inr apps \<Rightarrow> Inr (kill_slow_children, apps)))"

text \<open>
  What the parent does, in order: fork a child for an application, wait for a child to end, send
  \<open>SIGTERM\<close> to a child's process group. \<open>fork_pid i\<close> is the pid of child \<open>i\<close> and \<open>first\<close> the result of
  the first wait.
\<close>

datatype parent_act = Fork int | Wait | Killpg int

definition fork_all :: "(int \<Rightarrow> int) \<Rightarrow> int \<Rightarrow> int list \<times> parent_act list" where
  "fork_all fork_pid number_apps =
     for_up 0 number_apps (\<lambda>i (pids, acts). (pids[nat i := fork_pid i], acts @ [Fork i]))
       (replicate (nat number_apps) 0, [])"

definition kill_others :: "int list \<Rightarrow> int \<Rightarrow> int \<Rightarrow> parent_act list" where
  "kill_others pids number_apps wpid =
     for_up 0 number_apps (\<lambda>i acts. if pids ! nat i = wpid then acts else acts @ [Killpg (pids ! nat i)]) []"

definition run_parent :: "(int \<Rightarrow> int) \<Rightarrow> int \<Rightarrow> int \<Rightarrow> int \<Rightarrow> parent_act list" where
  "run_parent fork_pid first kill_slow_children number_apps =
     (case fork_all fork_pid number_apps of
        (pids, acts) \<Rightarrow>
          acts @ [Wait] @
          (if kill_slow_children \<noteq> 0 then kill_others pids number_apps first else []) @
          for_up 0 (number_apps - 1) (\<lambda>i acts. acts @ [Wait]) [])"

subsection \<open>The child processes\<close>

text \<open>
  What a child does, in order. \<open>setaffinity\<close> is the result of \<open>sched_setaffinity\<close> for a mask, whose first
  word the macro fills with the \<open>int\<close> of the command line, extended to the width of the word.
\<close>

datatype child_act = Setpgid | Setaffinity u64 | System string | Report string | Exit int | Abort

definition SET_AFFINITY :: "(u64 \<Rightarrow> int) \<Rightarrow> int \<Rightarrow> child_act list" where
  "SET_AFFINITY setaffinity x =
     Setaffinity (of_int x) # (if setaffinity (of_int x) = 0 then [] else [Abort])"

text \<open>\<open>launch\<close>: the command is run once; its result only decides about a message.\<close>

definition launch :: "string \<Rightarrow> child_act list" where
  "launch command = [System command]"

definition run_child :: "(u64 \<Rightarrow> int) \<Rightarrow> struct_app \<Rightarrow> child_act list" where
  "run_child setaffinity app =
     (let acts = [Setpgid] @ SET_AFFINITY setaffinity (core app)
      in if Abort \<in> set acts then acts else acts @ launch (prog app) @ [Report (cmd app), Exit 0])"

text \<open>
  \<open>main\<close>: an error, or what the parent does and, for every application whose fork made a child, what the
  child does.
\<close>

definition launch_main ::
    "(int \<Rightarrow> int) \<Rightarrow> int \<Rightarrow> (u64 \<Rightarrow> int) \<Rightarrow> string list \<Rightarrow> launch_error + (parent_act list \<times> child_act list list)" where
  "launch_main fork_pid first setaffinity argv =
     (case launch_setup argv of
        Inl e \<Rightarrow> Inl e
      | Inr (kill_slow_children, apps) \<Rightarrow>
          let number_apps = int (length apps) in
          Inr (run_parent fork_pid first kill_slow_children number_apps,
               map (\<lambda>i. run_child setaffinity (apps ! nat i)) (filter (\<lambda>i. 0 < fork_pid i) [0..number_apps - 1])))"

subsection \<open>The loops as list functions\<close>

fun scan_words :: "string list \<Rightarrow> apps_st \<Rightarrow> launch_error + apps_st" where
  "scan_words [] st = Inr st"
| "scan_words (w # ws) st = (case app_arg w st of Inl e \<Rightarrow> Inl e | Inr st \<Rightarrow> scan_words ws st)"

lemma drop_argv:
  assumes "0 \<le> i" and "i < argc argv"
  shows "drop (nat i) argv = arg argv i # drop (nat (i + 1)) argv"
proof -
  have "nat (i + 1) = Suc (nat i)" "nat i < length argv" using assms by (auto simp: argc_def)
  then show ?thesis by (simp add: arg_def Cons_nth_drop_Suc)
qed

lemma scan_apps_words: "0 \<le> i \<Longrightarrow> scan_apps i argv st = scan_words (drop (nat i) argv) st"
proof (induction i argv st rule: scan_apps.induct)
  case (1 i argv st)
  show ?case
  proof (cases "i < argc argv")
    case True
    show ?thesis
      using 1 True by (subst scan_apps.simps) (auto simp: drop_argv split: sum.split)
  qed (use 1(2) in \<open>simp add: scan_apps.simps argc_def\<close>)
qed

lemma scan_words_app: "scan_words (us @ vs) st = (case scan_words us st of Inl e \<Rightarrow> Inl e | Inr st \<Rightarrow> scan_words vs st)"
  by (induction us arbitrary: st) (auto split: sum.split)

lemma count_num_apps_count:
  assumes "0 \<le> k"
  shows "count_num_apps k argv = int (count_list (drop (nat (1 + k)) argv) CORE)"
proof -
  have "for_up i (argc argv) (\<lambda>i n. if arg argv i = CORE then n + 1 else n) n =
      n + int (count_list (drop (nat i) argv) CORE)" if "0 \<le> i" for i n
    using that
  proof (induction "nat (argc argv - i)" arbitrary: i n)
    case 0
    then show ?case by (simp add: argc_def)
  next
    case (Suc m)
    then have i: "i < argc argv" by simp
    show ?case using Suc drop_argv [OF Suc.prems i] by (subst for_up_step [OF i]) auto
  qed
  with assms show ?thesis by (simp add: count_num_apps_def)
qed

subsection \<open>Command lines\<close>

text \<open>The arguments that ask for an application (a CPU mask and the words of a command), and its entry.\<close>

definition app_words :: "int \<times> string list \<Rightarrow> string list" where
  "app_words a = CORE # dec_int (fst a) # snd a"

definition command_of :: "string list \<Rightarrow> string" where
  "command_of ws = concat (map (\<lambda>w. w @ '' '') ws)"

definition app_ok :: "int \<times> string list \<Rightarrow> bool" where
  "app_ok a \<longleftrightarrow> int_range (fst a) \<and> snd a \<noteq> [] \<and> CORE \<notin> set (snd a) \<and> length (command_of (snd a)) < 300"

definition uncut_entry :: "int \<times> string list \<Rightarrow> struct_app" where
  "uncut_entry a = \<lparr>core = fst a, prog = command_of (snd a), cmd = []\<rparr>"

definition app_entry :: "int \<times> string list \<Rightarrow> struct_app" where
  "app_entry a = \<lparr>core = fst a, prog = command_of (snd a), cmd = takeWhile (\<lambda>c. c \<noteq> CHR '' '') (hd (snd a))\<rparr>"

definition blank :: struct_app where "blank = \<lparr>core = 0, prog = [], cmd = []\<rparr>"

lemma dec_int_not_CORE [simp]: "dec_int i \<noteq> CORE"
proof
  assume e: "dec_int i = CORE"
  have "c \<in> set (dec_int i) \<Longrightarrow> is_digit c \<or> c = CHR ''-''" for c
    using dec_nat_digits digit_char_props(1) by (fastforce simp: dec_int_def split: if_splits)
  from this [of "CHR ''c''"] show False by (simp add: e CORE_def is_digit_def)
qed

lemma scan_command:
  assumes "CORE \<notin> set ws" and "length (prog (a ! nat k) @ command_of ws) < 300" and "2 \<le> j" and "nat k < length a"
  shows "scan_words ws (j, k, a) =
    Inr (j + int (length ws), k, a[nat k := (a ! nat k)\<lparr>prog := prog (a ! nat k) @ command_of ws\<rparr>])"
  using assms
proof (induction ws arbitrary: j a)
  case Nil
  then show ?case by (simp add: command_of_def)
next
  case (Cons w ws)
  let ?a = "a[nat k := (a ! nat k)\<lparr>prog := prog (a ! nat k) @ w @ '' ''\<rparr>]"
  have "app_arg w (j, k, a) = Inr (j + 1, k, ?a)"
    using Cons.prems by (auto simp: app_arg_def cat300_def command_of_def)
  moreover have "scan_words ws (j + 1, k, ?a) =
      Inr (j + 1 + int (length ws), k, ?a[nat k := (?a ! nat k)\<lparr>prog := prog (?a ! nat k) @ command_of ws\<rparr>])"
    by (rule Cons.IH) (use Cons.prems in \<open>auto simp: command_of_def\<close>)
  ultimately show ?case using Cons.prems by (simp add: command_of_def)
qed

lemma scan_app:
  assumes "app_ok a" and "k = int (length ds) - 1"
  shows "scan_words (app_words a) (j, k, ds @ blank # r) =
    Inr (2 + int (length (snd a)), k + 1, ds @ uncut_entry a # r)"
proof -
  have n: "nat (k + 1) = length ds" using assms(2) by simp
  have "scan_words (snd a) (2, k + 1, ds @ blank\<lparr>core := fst a\<rparr> # r) =
      Inr (2 + int (length (snd a)), k + 1, ds @ uncut_entry a # r)"
    using scan_command [of "snd a" "ds @ blank\<lparr>core := fst a\<rparr> # r" "k + 1" 2] assms(1)
    by (simp add: n app_ok_def uncut_entry_def blank_def)
  then show ?thesis
    using atoi_dec_int [of "[]"] assms(1) by (simp add: app_words_def app_arg_def n no_digit_def app_ok_def)
qed

lemma scan_all:
  assumes "\<forall>a \<in> set apps. app_ok a" and "apps \<noteq> []"
  shows "\<exists>j > 2. scan_words (concat (map app_words apps)) (i, int (length ds) - 1, ds @ replicate (length apps) blank) =
    Inr (j, int (length ds + length apps) - 1, ds @ map uncut_entry apps)"
  using assms
proof (induction apps arbitrary: i ds)
  case (Cons a apps)
  have a: "app_ok a" "length (snd a) > 0" using Cons.prems by (auto simp: app_ok_def)
  show ?case
  proof (cases "apps = []")
    case True
    then show ?thesis using a(2) by (simp add: scan_app [OF a(1) refl])
  next
    case False
    have "\<exists>j > 2. scan_words (concat (map app_words apps)) (2 + int (length (snd a)),
          int (length (ds @ [uncut_entry a])) - 1, (ds @ [uncut_entry a]) @ replicate (length apps) blank) =
        Inr (j, int (length (ds @ [uncut_entry a]) + length apps) - 1,
          (ds @ [uncut_entry a]) @ map uncut_entry apps)"
      by (rule Cons.IH) (use Cons.prems False in auto)
    then show ?thesis by (simp add: scan_words_app scan_app [OF a(1) refl] add.commute)
  qed
qed simp

lemma count_words: "\<forall>a \<in> set apps. app_ok a \<Longrightarrow> count_list (concat (map app_words apps)) CORE = length apps"
  by (induction apps) (auto simp: app_words_def app_ok_def count_list_0_iff [THEN iffD2])

lemma cut_loop:
  assumes "0 \<le> i"
  shows "for_up i n (\<lambda>i a. a[nat i := f (a ! nat i)]) (xs :: struct_app list) =
    take (nat i) xs @ map f (drop (nat i) (take (nat n) xs)) @ drop (nat (max i n)) xs"
  using assms
proof (induction "nat (n - i)" arbitrary: i xs)
  case 0
  then show ?case by (simp add: max_def)
next
  case (Suc m)
  then have i: "i < n" "nat (i + 1) = Suc (nat i)" "max (i + 1) n = n" "max i n = n" by auto
  have IH: "for_up (i + 1) n (\<lambda>i a. a[nat i := f (a ! nat i)]) ys =
      take (nat (i + 1)) ys @ map f (drop (nat (i + 1)) (take (nat n) ys)) @ drop (nat (max (i + 1) n)) ys" for ys
    by (rule Suc.hyps(1)) (use Suc in auto)
  show ?case
  proof (cases "nat i < length xs")
    case True
    then have "drop (nat i) (take (nat n) xs) = xs ! nat i # drop (Suc (nat i)) (take (nat n) xs)"
      using i(1) Suc.prems by (simp add: Cons_nth_drop_Suc [symmetric])
    with True show ?thesis
      using i(1) Suc.prems by (simp add: for_up_step [OF i(1)] IH i(2-4) take_Suc_conv_app_nth take_update_swap
          drop_update_swap list_update_append)
  next
    case False
    with i show ?thesis by (simp add: for_up_step [OF i(1)] IH not_less list_update_beyond)
  qed
qed

lemma cut_all: "for_up 0 (int (length xs)) (\<lambda>i a. a[nat i := f (a ! nat i)]) (xs :: struct_app list) = map f xs"
  by (simp add: cut_loop)

lemma cut_entry: "app_ok a \<Longrightarrow> (uncut_entry a)\<lparr>cmd := copy_cmd (prog (uncut_entry a)) 300\<rparr> = app_entry a"
proof (cases "snd a")
  case (Cons w ws)
  assume "app_ok a"
  then have "take 300 (command_of (snd a)) = command_of (snd a)" by (simp add: app_ok_def)
  moreover have "command_of (snd a) = w @ '' '' @ command_of ws" by (simp add: Cons command_of_def)
  moreover have "takeWhile (\<lambda>c. c \<noteq> CHR '' '') (w @ '' '' @ r) = takeWhile (\<lambda>c. c \<noteq> CHR '' '') w" for r
    by (induction w) auto
  ultimately show ?thesis
    by (simp add: uncut_entry_def app_entry_def copy_cmd_def del: append.simps) (simp add: Cons)
qed (simp add: app_ok_def)

lemma get_apps_words:
  assumes "\<forall>a \<in> set apps. app_ok a" and "apps \<noteq> []" and "0 \<le> k"
    and "drop (nat (1 + k)) argv = concat (map app_words apps)"
  shows "get_apps (replicate (length apps) blank) k (int (length apps)) argv = Inr (map app_entry apps)"
proof -
  obtain j where j: "2 < j" "scan_apps (1 + k) argv (0, - 1, replicate (length apps) blank) =
      Inr (j, int (length apps) - 1, map uncut_entry apps)"
    using scan_all [OF assms(1,2), of 0 "[]"] assms(3,4) by (auto simp: scan_apps_words)
  have "map ((\<lambda>a. a\<lparr>cmd := copy_cmd (prog a) 300\<rparr>) \<circ> uncut_entry) apps = map app_entry apps"
    using assms(1) by (auto simp: cut_entry)
  with j show ?thesis
    using cut_all [of "map uncut_entry apps" "\<lambda>a. a\<lparr>cmd := copy_cmd (prog a) 300\<rparr>"]
    by (simp add: get_apps_def del: map_map) (simp add: comp_def)
qed

lemma setup_words:
  assumes "apps \<noteq> []" and "\<forall>a \<in> set apps. app_ok a"
  shows "launch_setup (name # (if kill then [''-k''] else []) @ concat (map app_words apps)) =
    Inr (if kill then 1 else 0, map app_entry apps)"
proof -
  let ?argv = "name # (if kill then [''-k''] else []) @ concat (map app_words apps)"
  define k :: int where "k = (if kill then 1 else 0)"
  obtain a as where apps: "apps = a # as" using assms(1) by (cases apps) auto
  then obtain c w ws where a: "a = (c, w # ws)" using assms(2) by (cases a; cases "snd a") (auto simp: app_ok_def)
  have d: "drop (nat (1 + k)) ?argv = concat (map app_words apps)" by (simp add: k_def)
  have "get_options ?argv 0 = Inr (0, k)"
    by (simp add: get_options_def argc_def arg_def k_def apps a app_words_def CORE_def)
  moreover have "count_num_apps k ?argv = int (length apps)"
    using count_num_apps_count [of k ?argv] d count_words [OF assms(2)] by (simp add: k_def)
  moreover have "get_apps (replicate (length apps) blank) k (int (length apps)) ?argv = Inr (map app_entry apps)"
    by (rule get_apps_words [OF assms(2,1) _ d]) (simp add: k_def)
  ultimately show ?thesis by (simp add: launch_setup_def Let_def blank_def k_def)
qed

text \<open>
  a command line that asks for applications, each a CPU mask and a command whose words fit the
  buffer and are not the keyword, sets up exactly these: in order, each with its mask, its words
  separated by blanks and the first word as its name, and with the flag of \<open>-k\<close>.
\<close>
theorem command_line_parsed:
  assumes "apps \<noteq> []" and "\<forall>a \<in> set apps. app_ok a"
  shows "launch_setup (name # (if kill then [''-k''] else []) @ concat (map app_words apps)) =
    Inr (if kill then 1 else 0, map app_entry apps)"
  by (rule setup_words [OF assms])

lemma command_line_parsed_witness:
  "launch_setup [''launch'', ''-k'', ''core'', ''2'', ''mcf'', ''in'', ''core'', ''1'', ''gzip''] =
     Inr (1, [\<lparr>core = 2, prog = ''mcf in '', cmd = ''mcf''\<rparr>, \<lparr>core = 1, prog = ''gzip '', cmd = ''gzip''\<rparr>])"
proof -
  have "dec_int 2 = ''2''" "dec_int 1 = ''1''" by code_simp+
  then show ?thesis
    using command_line_parsed [of "[(2, [''mcf'', ''in'']), (1, [''gzip''])]" "''launch''" True]
    by (simp add: app_ok_def int_range_def app_words_def app_entry_def command_of_def CORE_def)
qed

subsection \<open>The children\<close>

text \<open>
  every child is waited for; with \<open>-k\<close> the first to end is followed by one \<open>SIGTERM\<close> to each of the others.
\<close>

lemma fork_all_run: "0 \<le> n \<Longrightarrow> fork_all pid n = (map pid [0..n - 1], map Fork [0..n - 1])"
proof -
  assume n: "0 \<le> n"
  have "for_up 0 n (\<lambda>i (pids, acts). (pids[nat i := pid i], acts @ [Fork i])) (replicate (nat n) 0, []) =
      (map pid [0..n - 1] @ replicate (nat (n - n)) 0, map Fork [0..n - 1])"
  proof (rule for_up_inv [where P = "\<lambda>i s. s = (map pid [0..i - 1] @ replicate (nat (n - i)) 0, map Fork [0..i - 1])"])
    fix j t
    assume j: "0 \<le> j" "j < n" and t: "t = (map pid [0..j - 1] @ replicate (nat (n - j)) 0, map Fork [0..j - 1])"
    have "[0..j] = [0..j - 1] @ [j]" using upto_rec2 [of 0 j] j by simp
    moreover have "nat (n - j) = Suc (nat (n - (j + 1)))" using j by simp
    ultimately show "(case t of (pids, acts) \<Rightarrow> (pids[nat j := pid j], acts @ [Fork j])) =
        (map pid [0..j + 1 - 1] @ replicate (nat (n - (j + 1))) 0, map Fork [0..j + 1 - 1])"
      using j by (simp add: t list_update_append)
  qed (use n in auto)
  then show ?thesis by (simp add: fork_all_def)
qed

lemma run_parent_run:
  assumes "0 < n"
  shows "run_parent pid first kill n =
    map Fork [0..n - 1] @ [Wait] @
    (if kill \<noteq> 0 then map Killpg (filter (\<lambda>p. p \<noteq> first) (map pid [0..n - 1])) else []) @
    replicate (nat (n - 1)) Wait"
proof -
  have k: "kill_others (map pid [0..n - 1]) n first = map Killpg (filter (\<lambda>p. p \<noteq> first) (map pid [0..n - 1]))"
    unfolding kill_others_def
  proof (rule for_up_inv [where P = "\<lambda>i s. s = map Killpg (filter (\<lambda>p. p \<noteq> first) (map pid [0..i - 1]))"])
    fix j t
    assume j: "0 \<le> j" "j < n" and t: "t = map Killpg (filter (\<lambda>p. p \<noteq> first) (map pid [0..j - 1]))"
    have "[0..j] = [0..j - 1] @ [j]" using upto_rec2 [of 0 j] j by simp
    with j show "(if map pid [0..n - 1] ! nat j = first then t else t @ [Killpg (map pid [0..n - 1] ! nat j)]) =
        map Killpg (filter (\<lambda>p. p \<noteq> first) (map pid [0..j + 1 - 1]))"
      by (simp add: t)
  qed (use assms in auto)
  have "for_up 0 (n - 1) (\<lambda>i acts. acts @ [Wait]) [] = replicate (nat (n - 1)) Wait"
  proof (rule for_up_inv [where P = "\<lambda>i s. s = replicate (nat i) Wait"])
    fix j and t :: "parent_act list"
    assume "0 \<le> j" "t = replicate (nat j) Wait"
    then show "t @ [Wait] = replicate (nat (j + 1)) Wait"
      by (simp add: nat_add_distrib replicate_append_same)
  qed (use assms in auto)
  with k assms show ?thesis by (simp add: run_parent_def fork_all_run)
qed

text \<open>What the child of an application does: it stops at a mask that is refused.\<close>

definition child_of :: "(u64 \<Rightarrow> int) \<Rightarrow> int \<times> string list \<Rightarrow> child_act list" where
  "child_of setaffinity a =
     [Setpgid, Setaffinity (of_int (fst a))] @
     (if setaffinity (of_int (fst a)) = 0
      then [System (command_of (snd a)), Report (takeWhile (\<lambda>c. c \<noteq> CHR '' '') (hd (snd a))), Exit 0]
      else [Abort])"

lemma run_child_of: "run_child setaffinity (app_entry a) = child_of setaffinity a"
  by (simp add: run_child_def SET_AFFINITY_def launch_def app_entry_def child_of_def Let_def)

text \<open>
  C25: a command line that asks for applications, each a CPU mask that an \<open>int\<close> holds and a command whose
  words fit the buffer and are not the keyword, makes the parent fork once for each, in order, and
  wait as often, and with \<open>-k\<close> send, after the first child has ended, one \<open>SIGTERM\<close> to the group of each
  fork's pid but that child's. Each fork that succeeds has a child that binds itself to its mask and,
  if the kernel accepts the mask, runs its command once, reports it and exits; if not, it aborts.
\<close>
theorem launch_runs_all:
  assumes "apps \<noteq> []" and "\<forall>a \<in> set apps. app_ok a" and "n = int (length apps)"
  shows "launch_main fork_pid first setaffinity
      (name # (if kill then [''-k''] else []) @ concat (map app_words apps)) =
    Inr (map Fork [0..n - 1] @ [Wait] @
           (if kill then map Killpg (filter (\<lambda>p. p \<noteq> first) (map fork_pid [0..n - 1])) else []) @
           replicate (nat (n - 1)) Wait,
         map (\<lambda>i. let a = apps ! nat i; m = of_int (fst a) in
                [Setpgid, Setaffinity m] @
                (if setaffinity m = 0
                 then [System (command_of (snd a)), Report (takeWhile (\<lambda>c. c \<noteq> CHR '' '') (hd (snd a))), Exit 0]
                 else [Abort]))
           (filter (\<lambda>i. 0 < fork_pid i) [0..n - 1]))"
proof -
  have "run_child setaffinity (map app_entry apps ! nat i) = child_of setaffinity (apps ! nat i)"
    if "i \<in> set [0..n - 1]" for i
    using that assms(3) by (simp add: run_child_of [symmetric] nat_less_iff)
  then have "map (\<lambda>i. run_child setaffinity (map app_entry apps ! nat i)) (filter (\<lambda>i. 0 < fork_pid i) [0..n - 1]) =
      map (\<lambda>i. child_of setaffinity (apps ! nat i)) (filter (\<lambda>i. 0 < fork_pid i) [0..n - 1])"
    by (intro map_cong) auto
  moreover have "0 < n" using assms(1,3) by simp
  ultimately show ?thesis
    using setup_words [OF assms(1,2), of name kill] run_parent_run [of n fork_pid first "if kill then 1 else 0"]
    by (simp add: launch_main_def Let_def child_of_def assms(3) [symmetric])
qed

lemma launch_runs_all_witness:
  "launch_main (\<lambda>i. 100 + i) 101 (\<lambda>m. if m = 2 then 0 else - 1)
       [''launch'', ''-k'', ''core'', ''2'', ''mcf'', ''in'', ''core'', ''1'', ''gzip''] =
     Inr ([Fork 0, Fork 1, Wait, Killpg 100, Wait],
          [[Setpgid, Setaffinity 2, System ''mcf in '', Report ''mcf'', Exit 0], [Setpgid, Setaffinity 1, Abort]])"
proof -
  have "dec_int 2 = ''2''" "dec_int 1 = ''1''" by code_simp+
  moreover have "[0..1] = [0, 1 :: int]" by (simp add: upto.simps)
  ultimately show ?thesis
    using launch_runs_all [of "[(2, [''mcf'', ''in'']), (1, [''gzip''])]" 2 "\<lambda>i. 100 + i" 101
        "\<lambda>m. if m = 2 then 0 else - 1" "''launch''" True]
    by (simp add: app_ok_def int_range_def app_words_def command_of_def CORE_def)
qed

end
