(* ===== verification/Script_Array.thy ===== *)
theory Script_Array
  imports C_Strings
begin

text \<open>
  The array template of the analysis scripts (\<open>Scripts/Array.h\<close>) at the element type \<open>int\<close>: a list is
  the block \<open>Data\<close> with its length \<open>n\<close>. A failed \<open>assert\<close> is \<open>None\<close>; inside the loops of the operators
  every index lies in the array, where \<open>data(i)\<close>, \<open>fill(i, v)\<close> and \<open>Data[i]\<close> are the plain accesses
  (\<open>data_at_in\<close>, \<open>fill_in\<close>). Element arithmetic is exact.
\<close>

subsection \<open>Cells\<close>

definition len :: "int list \<Rightarrow> int" where "len xs = int (length xs)"
definition cell :: "int list \<Rightarrow> int \<Rightarrow> int" where "cell xs i = xs ! nat i"
definition put_cell :: "int \<Rightarrow> int \<Rightarrow> int list \<Rightarrow> int list" where "put_cell i v xs = xs[nat i := v]"

text \<open>\<open>new T[n]\<close> followed by loops that assign every cell.\<close>

definition new_cells :: "int \<Rightarrow> (int \<Rightarrow> int) \<Rightarrow> int list" where
  "new_cells n f = map (\<lambda>i. f (int i)) [0..<nat n]"

subsection \<open>Construction and access\<close>

definition array_new :: "int \<Rightarrow> int list" where "array_new num = new_cells num (\<lambda>_. 0)"

definition array_of :: "(int \<Rightarrow> int) \<Rightarrow> int \<Rightarrow> int list" where
  "array_of carr l = new_cells l carr"

definition real_index :: "int list \<Rightarrow> int \<Rightarrow> int" where
  "real_index xs ind =
     (if 0 \<le> ind \<and> ind < len xs then ind
      else if ind < 0 \<and> 0 \<le> ind + len xs then ind + len xs
      else - 1)"

definition resize :: "int list \<Rightarrow> int \<Rightarrow> int list" where
  "resize xs nsize =
     (if nsize \<noteq> len xs then
        let l = (if nsize < len xs then nsize else len xs)
        in new_cells nsize (\<lambda>i. if i < l then cell xs i else 0)
      else xs)"

definition data_at :: "int list \<Rightarrow> int \<Rightarrow> int option" where
  "data_at xs index =
     (let ind = real_index xs index in if 0 \<le> ind then Some (cell xs ind) else None)"

definition fill :: "int \<Rightarrow> int \<Rightarrow> int list \<Rightarrow> int list option" where
  "fill index d xs =
     (let ind = real_index xs index in if 0 \<le> ind then Some (put_cell ind d xs) else None)"

definition data_range :: "int list \<Rightarrow> int \<Rightarrow> int \<Rightarrow> int list option" where
  "data_range xs from to =
     (let re_f = real_index xs from; re_t = real_index xs to
      in if 0 \<le> re_f \<and> 0 \<le> re_t \<and> re_f \<le> re_t
         then Some (for_up re_f (re_t + 1) (\<lambda>i r. put_cell (i - re_f) (cell xs i) r) (array_new (re_t - re_f + 1)))
         else None)"

definition data_slice :: "int list \<Rightarrow> int list \<Rightarrow> int list option" where
  "data_slice xs sl =
     for_up 0 (len sl)
       (\<lambda>i r. Option.bind r (\<lambda>r. if 0 \<le> real_index xs (cell sl i)
          then Some (put_cell i (cell xs (real_index xs (cell sl i))) r) else None))
       (Some (array_new (len sl)))"

text \<open>\<open>operator[]\<close>: the index of the cell that the reference it returns denotes.\<close>

definition subscript :: "int list \<Rightarrow> int \<Rightarrow> int option" where
  "subscript xs index = (let re_ind = real_index xs index in if 0 \<le> re_ind then Some re_ind else None)"

definition append_one :: "int \<Rightarrow> int list \<Rightarrow> int list" where
  "append_one dat xs = new_cells (len xs + 1) (\<lambda>i. if i < len xs then cell xs i else dat)"

definition append_array :: "int list \<Rightarrow> int list \<Rightarrow> int list" where
  "append_array dat xs =
     new_cells (len xs + len dat) (\<lambda>i. if i < len xs then cell xs i else cell dat (i - len xs))"

definition append_carr :: "(int \<Rightarrow> int) \<Rightarrow> int \<Rightarrow> int list \<Rightarrow> int list" where
  "append_carr carr l xs =
     new_cells (len xs + l) (\<lambda>i. if i < len xs then cell xs i else carr (i - len xs))"

definition zeroes :: "int list \<Rightarrow> int list" where
  "zeroes xs = for_up 0 (len xs) (\<lambda>i r. put_cell i 0 r) xs"

definition empty_array :: "int list \<Rightarrow> int list" where "empty_array xs = []"

definition assign :: "int list \<Rightarrow> int list \<Rightarrow> int list" where
  "assign xs N =
     (if len N \<le> len xs then for_up 0 (len N) (\<lambda>i r. put_cell i (cell N i) r) xs
      else new_cells (len N) (cell N))"

subsection \<open>Printing and splitting\<close>

text \<open>What a call writes to the stream; \<open>endl\<close> is a newline.\<close>

definition newline :: string where "newline = [CHR 0x0A]"

definition print :: "int list \<Rightarrow> string" where
  "print xs = for_up 0 (len xs) (\<lambda>i out. out @ dec_int (cell xs i) @ '' '') [] @ newline"

definition fprint_col_sep :: "int list \<Rightarrow> int \<Rightarrow> string \<Rightarrow> string" where
  "fprint_col_sep xs col sep =
     for_up 0 (len xs) (\<lambda>i out. out @ dec_int (cell xs i) @
        (if i mod col = col - 1 then newline else sep)) []"

definition print_col :: "int list \<Rightarrow> int \<Rightarrow> string" where
  "print_col xs col =
     for_up 0 (len xs) (\<lambda>i out. out @ dec_int (cell xs i) @
        (if i mod col = col - 1 then newline else '' '')) []"

definition fprint_col :: "int list \<Rightarrow> int \<Rightarrow> string" where
  "fprint_col xs col =
     for_up 0 (len xs) (\<lambda>i out. out @ dec_int (cell xs i) @
        (if i mod col = col - 1 then newline else '','')) []"

definition fprint_sep :: "int list \<Rightarrow> string \<Rightarrow> string" where
  "fprint_sep xs sep =
     for_up 0 (len xs) (\<lambda>i out. out @ dec_int (cell xs i) @ (if i < len xs - 1 then sep else newline)) []"

definition fprint :: "int list \<Rightarrow> string" where
  "fprint xs =
     for_up 0 (len xs) (\<lambda>i out. out @ dec_int (cell xs i) @ (if i < len xs - 1 then '','' else newline)) []"

definition split_int :: "string \<Rightarrow> string \<Rightarrow> int list" where
  "split_int sep str = foldl (\<lambda>ret result. append_one (atoi result) ret) [] (tokens sep str)"

definition typecast :: "int list \<Rightarrow> int list" where
  "typecast B = for_up 0 (len B) (\<lambda>i r. put_cell i (cell B i) r) (array_new (len B))"

subsection \<open>Element-wise operators\<close>

definition both_len :: "int list \<Rightarrow> int list \<Rightarrow> int" where
  "both_len xs A = (if len A \<le> len xs then len xs else len A)"

definition add_array :: "int list \<Rightarrow> int list \<Rightarrow> int list" where
  "add_array xs A =
     (let ret = array_new (both_len xs A) in
      if len A \<le> len xs then
        for_up (len A) (len xs) (\<lambda>i r. put_cell i (cell xs i) r)
          (for_up 0 (len A) (\<lambda>i r. put_cell i (cell xs i + cell A i) r) ret)
      else
        for_up (len A) (len xs) (\<lambda>i r. put_cell i (cell A i) r)
          (for_up 0 (len xs) (\<lambda>i r. put_cell i (cell xs i + cell A i) r) ret))"

definition sub_array :: "int list \<Rightarrow> int list \<Rightarrow> int list" where
  "sub_array xs A =
     (let ret = array_new (both_len xs A) in
      if len A \<le> len xs then
        for_up (len A) (len xs) (\<lambda>i r. put_cell i (cell xs i) r)
          (for_up 0 (len A) (\<lambda>i r. put_cell i (cell xs i - cell A i) r) ret)
      else
        for_up (len A) (len xs) (\<lambda>i r. put_cell i (0 - cell A i) r)
          (for_up 0 (len xs) (\<lambda>i r. put_cell i (cell xs i - cell A i) r) ret))"

definition add_scalar :: "int list \<Rightarrow> int \<Rightarrow> int list" where
  "add_scalar xs B = for_up 0 (len xs) (\<lambda>i r. put_cell i (cell xs i + B) r) (array_new (len xs))"

definition sub_scalar :: "int list \<Rightarrow> int \<Rightarrow> int list" where
  "sub_scalar xs B = for_up 0 (len xs) (\<lambda>i r. put_cell i (cell xs i - B) r) (array_new (len xs))"

definition mul_array :: "int list \<Rightarrow> int list \<Rightarrow> int list" where
  "mul_array xs A =
     (let ret = array_new (both_len xs A) in
      if len A \<le> len xs then
        for_up (len A) (len xs) (\<lambda>i r. put_cell i 0 r)
          (for_up 0 (len A) (\<lambda>i r. put_cell i (cell xs i * cell A i) r) ret)
      else
        for_up (len A) (len xs) (\<lambda>i r. put_cell i 0 r)
          (for_up 0 (len xs) (\<lambda>i r. put_cell i (cell xs i * cell A i) r) ret))"

definition mul_scalar :: "int list \<Rightarrow> int \<Rightarrow> int list" where
  "mul_scalar xs B = for_up 0 (len xs) (\<lambda>i r. put_cell i (cell xs i * B) r) (array_new (len xs))"

text \<open>Division guards against zero.\<close>

definition quot0 :: "int \<Rightarrow> int \<Rightarrow> int" where
  "quot0 a b = (if b \<noteq> 0 then c_quot a b else 0)"

definition div_array :: "int list \<Rightarrow> int list \<Rightarrow> int list" where
  "div_array xs A =
     (let ret = array_new (both_len xs A) in
      if len A \<le> len xs then
        for_up (len A) (len xs) (\<lambda>i r. put_cell i 0 r)
          (for_up 0 (len A) (\<lambda>i r. put_cell i (quot0 (cell xs i) (cell A i)) r) ret)
      else
        for_up (len A) (len xs) (\<lambda>i r. put_cell i 0 r)
          (for_up 0 (len xs) (\<lambda>i r. put_cell i (quot0 (cell xs i) (cell A i)) r) ret))"

definition div_scalar :: "int list \<Rightarrow> int \<Rightarrow> int list" where
  "div_scalar xs B = for_up 0 (len xs) (\<lambda>i r. put_cell i (quot0 (cell xs i) B) r) (array_new (len xs))"

text \<open>The operators that change their left operand.\<close>

definition plus_eq :: "int list \<Rightarrow> int list \<Rightarrow> int list" where
  "plus_eq xs A =
     (if len A \<le> len xs then for_up 0 (len A) (\<lambda>i r. put_cell i (cell r i + cell A i) r) xs
      else new_cells (len A) (\<lambda>i. if i < len xs then cell xs i + cell A i else cell A i))"

definition minus_eq :: "int list \<Rightarrow> int list \<Rightarrow> int list" where
  "minus_eq xs A =
     (if len A \<le> len xs then for_up 0 (len A) (\<lambda>i r. put_cell i (cell r i - cell A i) r) xs
      else new_cells (len A) (\<lambda>i. if i < len xs then cell xs i - cell A i else cell A i))"

definition times_eq :: "int list \<Rightarrow> int list \<Rightarrow> int list" where
  "times_eq xs A =
     (if len A \<le> len xs then
        for_up 0 (len xs) (\<lambda>i r. put_cell i (if i < len A then cell r i * cell A i else 0) r) xs
      else new_cells (len A) (\<lambda>i. if i < len xs then cell xs i * cell A i else 0))"

definition div_eq :: "int list \<Rightarrow> int list \<Rightarrow> int list" where
  "div_eq xs A =
     (if len A \<le> len xs then
        for_up 0 (len xs) (\<lambda>i r. put_cell i (if i < len A then quot0 (cell r i) (cell A i) else 0) r) xs
      else new_cells (len A) (\<lambda>i. if i < len xs then quot0 (cell xs i) (cell A i) else 0))"

definition times_eq_scalar :: "int list \<Rightarrow> int \<Rightarrow> int list" where
  "times_eq_scalar xs A = for_up 0 (len xs) (\<lambda>i r. put_cell i (cell r i * A) r) xs"

definition div_eq_scalar :: "int list \<Rightarrow> int \<Rightarrow> int list" where
  "div_eq_scalar xs A =
     for_up 0 (len xs) (\<lambda>i r. if A \<noteq> 0 then put_cell i (c_quot (cell r i) A) r else r) xs"

text \<open>\<open>++a\<close>, \<open>--a\<close>, \<open>a++\<close> and \<open>a--\<close>: the value of the expression and the new array.\<close>

definition pre_inc :: "int list \<Rightarrow> int list \<times> int list" where
  "pre_inc xs = for_up 0 (len xs)
     (\<lambda>i (ret, r). let r = put_cell i (cell r i + 1) r in (put_cell i (cell r i) ret, r)) (array_new (len xs), xs)"

definition pre_dec :: "int list \<Rightarrow> int list \<times> int list" where
  "pre_dec xs = for_up 0 (len xs)
     (\<lambda>i (ret, r). let r = put_cell i (cell r i - 1) r in (put_cell i (cell r i) ret, r)) (array_new (len xs), xs)"

definition post_inc :: "int list \<Rightarrow> int list \<times> int list" where
  "post_inc xs = for_up 0 (len xs)
     (\<lambda>i (ret, r). (put_cell i (cell r i) ret, put_cell i (cell r i + 1) r)) (array_new (len xs), xs)"

definition post_dec :: "int list \<Rightarrow> int list \<times> int list" where
  "post_dec xs = for_up 0 (len xs)
     (\<lambda>i (ret, r). (put_cell i (cell r i) ret, put_cell i (cell r i - 1) r)) (array_new (len xs), xs)"

subsection \<open>Comparisons\<close>

text \<open>Each loop breaks at the first index that refutes the comparison.\<close>

definition eq_array :: "int list \<Rightarrow> int list \<Rightarrow> bool" where
  "eq_array xs A = (if len xs \<noteq> len A then False
     else first_up (\<lambda>i. cell xs i \<noteq> cell A i) 0 (len xs) = - 1)"

definition ge_array :: "int list \<Rightarrow> int list \<Rightarrow> bool" where
  "ge_array xs A = (if len xs \<noteq> len A then False
     else first_up (\<lambda>i. cell xs i < cell A i) 0 (len xs) = - 1)"

definition le_array :: "int list \<Rightarrow> int list \<Rightarrow> bool" where
  "le_array xs A = (if len xs \<noteq> len A then False
     else first_up (\<lambda>i. cell A i < cell xs i) 0 (len xs) = - 1)"

definition gt_array :: "int list \<Rightarrow> int list \<Rightarrow> bool" where
  "gt_array xs A = (if len xs \<noteq> len A then False
     else first_up (\<lambda>i. cell xs i \<le> cell A i) 0 (len xs) = - 1)"

definition lt_array :: "int list \<Rightarrow> int list \<Rightarrow> bool" where
  "lt_array xs A = (if len xs \<noteq> len A then False
     else first_up (\<lambda>i. cell A i \<le> cell xs i) 0 (len xs) = - 1)"

definition neq_array :: "int list \<Rightarrow> int list \<Rightarrow> bool" where
  "neq_array xs A = (if len xs \<noteq> len A then False
     else first_up (\<lambda>i. cell xs i = cell A i) 0 (len xs) = - 1)"

definition max_array :: "int list \<Rightarrow> int list \<Rightarrow> int list" where
  "max_array A B =
     (let l = (if len B < len A then len A else len B) in
      for_up 0 l (\<lambda>i r. put_cell i
        (if len A \<le> i then cell B i else if len B \<le> i then cell A i
         else if cell B i < cell A i then cell A i else cell B i) r) (array_new l))"

definition min_array :: "int list \<Rightarrow> int list \<Rightarrow> int list" where
  "min_array A B =
     (let l = (if len B < len A then len A else len B) in
      for_up 0 l (\<lambda>i r. put_cell i
        (if len A \<le> i then cell B i else if len B \<le> i then cell A i
         else if cell A i < cell B i then cell A i else cell B i) r) (array_new l))"

subsection \<open>Cells of the results\<close>

lemma len_simps [simp]:
  "len (put_cell i v xs) = len xs" "len (new_cells n f) = max 0 n" "len (array_new n) = max 0 n"
  "0 \<le> len xs"
  by (auto simp: len_def put_cell_def new_cells_def array_new_def)

lemma len_nat [simp]: "nat (len xs) = length xs"
  by (simp add: len_def)

lemma cell_put:
  "\<lbrakk>0 \<le> j; 0 \<le> i; i < len xs\<rbrakk> \<Longrightarrow> cell (put_cell j v xs) i = (if i = j then v else cell xs i)"
  by (auto simp: cell_def put_cell_def len_def nth_list_update nat_eq_iff2)

lemma cell_new [simp]: "\<lbrakk>0 \<le> i; i < n\<rbrakk> \<Longrightarrow> cell (new_cells n f) i = f i"
  by (auto simp: cell_def new_cells_def)

lemma cell_array_new [simp]: "\<lbrakk>0 \<le> i; i < n\<rbrakk> \<Longrightarrow> cell (array_new n) i = 0"
  by (simp add: array_new_def)

lemma array_eqI:
  assumes "len xs = len ys" and "\<And>i. \<lbrakk>0 \<le> i; i < len ys\<rbrakk> \<Longrightarrow> cell xs i = cell ys i"
  shows "xs = ys"
proof (rule nth_equalityI)
  show "length xs = length ys" using assms(1) by (simp add: len_def)
  fix i
  assume "i < length xs"
  then show "xs ! i = ys ! i"
    using assms(2) [of "int i"] assms(1) by (simp add: len_def cell_def)
qed

lemma array_eq_iff: "xs = ys \<longleftrightarrow> len xs = len ys \<and> (\<forall>i. 0 \<le> i \<and> i < len ys \<longrightarrow> cell xs i = cell ys i)"
  using array_eqI by blast

text \<open>A loop that assigns each cell in turn from its old contents.\<close>

lemma for_up_put:
  assumes "0 \<le> a"
  shows "len (for_up a b (\<lambda>i r. put_cell i (g i (cell r i)) r) r0) = len r0 \<and>
    (\<forall>j. 0 \<le> j \<and> j < len r0 \<longrightarrow>
      cell (for_up a b (\<lambda>i r. put_cell i (g i (cell r i)) r) r0) j =
        (if a \<le> j \<and> j < b then g j (cell r0 j) else cell r0 j))"
  using assms
proof (induction "nat (b - a)" arbitrary: a r0)
  case 0
  then show ?case by auto
next
  case (Suc n)
  then have "a < b" "n = nat (b - (a + 1))" "0 \<le> a + 1" by auto
  then show ?case
    using Suc.hyps(1) [of "a + 1" "put_cell a (g a (cell r0 a)) r0"] Suc.prems
    by (auto simp: for_up_step cell_put)
qed

lemma len_for_up_const [simp]: "0 \<le> a \<Longrightarrow> len (for_up a b (\<lambda>i. put_cell i (f i)) r0) = len r0"
  using for_up_put [of a b "\<lambda>i _. f i"] by simp

lemma cell_for_up_const [simp]:
  "\<lbrakk>0 \<le> a; 0 \<le> j; j < len r0\<rbrakk> \<Longrightarrow>
    cell (for_up a b (\<lambda>i. put_cell i (f i)) r0) j = (if a \<le> j \<and> j < b then f j else cell r0 j)"
  using for_up_put [of a b "\<lambda>i _. f i"] by simp

lemma len_for_up_plus [simp]: "len (for_up 0 b (\<lambda>i r. put_cell i (cell r i + f i) r) r0) = len r0"
  using for_up_put [of 0 b "\<lambda>i v. v + f i"] by simp

lemma cell_for_up_plus [simp]:
  "\<lbrakk>0 \<le> j; j < len r0\<rbrakk> \<Longrightarrow>
    cell (for_up 0 b (\<lambda>i r. put_cell i (cell r i + f i) r) r0) j = (if j < b then cell r0 j + f j else cell r0 j)"
  using for_up_put [of 0 b "\<lambda>i v. v + f i"] by simp

lemma len_app [simp]: "len (xs @ ys) = len xs + len ys" "len [] = 0" "len (x # xs) = 1 + len xs"
  by (auto simp: len_def)

lemma cell_app: "0 \<le> i \<Longrightarrow> cell (xs @ ys) i = (if i < len xs then cell xs i else cell ys (i - len xs))"
  by (auto simp: cell_def len_def nth_append nat_diff_distrib)

lemma cell_drop: "\<lbrakk>0 \<le> i; int k + i < len xs\<rbrakk> \<Longrightarrow> cell (drop k xs) i = cell xs (int k + i)"
  by (auto simp: cell_def len_def nat_add_distrib)

text \<open>Inside the bounds the checked accesses are the plain ones; from \<open>-n\<close> on they count from the end.\<close>

lemma data_at_in: "\<lbrakk>0 \<le> i; i < len xs\<rbrakk> \<Longrightarrow> data_at xs i = Some (cell xs i)"
  by (simp add: data_at_def real_index_def)

lemma fill_in: "\<lbrakk>0 \<le> i; i < len xs\<rbrakk> \<Longrightarrow> fill i v xs = Some (put_cell i v xs)"
  by (simp add: fill_def real_index_def)

lemma data_at_end: "\<lbrakk>0 < i; i \<le> len xs\<rbrakk> \<Longrightarrow> data_at xs (- i) = Some (xs ! (length xs - nat i))"
  by (simp add: data_at_def real_index_def cell_def nat_diff_distrib')

lemma data_at_none: "data_at xs i = None \<longleftrightarrow> i < - len xs \<or> len xs \<le> i"
  using len_simps(4) [of xs] by (auto simp: data_at_def real_index_def Let_def)

lemma append_one_app: "append_one d xs = xs @ [d]"
  by (rule array_eqI) (auto simp: append_one_def cell_app cell_def [of "[d]"])

lemma append_array_app: "append_array ys xs = xs @ ys"
  by (rule array_eqI) (auto simp: append_array_def cell_app)

lemma assign_keeps_tail: "assign xs N = N @ drop (length N) xs"
proof -
  have d: "len (drop (length N) xs) = max 0 (len xs - len N)" by (auto simp: len_def)
  have "cell (drop (length N) xs) (i - len N) = cell xs i" if "len N \<le> i" "i < len xs" for i
    using that cell_drop [of "i - len N" "length N" xs] by (simp add: len_def)
  with d show ?thesis
    by (intro array_eqI) (auto simp: assign_def cell_app)
qed

lemma eq_array_iff: "eq_array xs A \<longleftrightarrow> xs = A"
  by (cases rule: first_up_cases [of 0 "\<lambda>i. cell xs i \<noteq> cell A i" "len xs"])
     (auto simp: eq_array_def array_eq_iff)

subsection \<open>A printed row\<close>

lemma fprint_from:
  assumes "drop k xs = y # ys"
  shows "for_up (int k) (len xs)
      (\<lambda>i out. out @ dec_int (cell xs i) @ (if i < len xs - 1 then sep else newline)) out =
    out @ join sep (map dec_int (butlast (y # ys)) @ [dec_int (last (y # ys)) @ newline])"
  using assms
proof (induction ys arbitrary: k y out)
  case Nil
  have "length xs - k = 1" using arg_cong [OF Nil, of length] by simp
  then have "length xs = Suc k" "xs ! k = y" using nth_via_drop [OF Nil] by auto
  then show ?case by (simp add: for_up_step len_def cell_def)
next
  case (Cons z zs)
  have "length xs - k = Suc (Suc (length zs))" using arg_cong [OF Cons.prems, of length] by simp
  then have l: "length xs = Suc k + Suc (length zs)" by linarith
  have c: "xs ! k = y" by (rule nth_via_drop [OF Cons.prems])
  have d: "drop (Suc k) xs = z # zs" using arg_cong [OF Cons.prems, of tl] by (simp add: drop_Suc tl_drop)
  have j: "join sep (t # (us @ [v])) = t @ sep @ join sep (us @ [v])" for t us v
    by (cases us) auto
  have "int k < len xs" "int k < len xs - 1" "int k + 1 = int (Suc k)" "cell xs (int k) = y"
    using l c by (auto simp: len_def cell_def)
  then show ?case
    using Cons.IH [OF d] by (subst for_up_step) (simp_all add: j add.commute [of 1 "int k"])
qed

lemma fprint_sep_join:
  "fprint_sep xs sep =
     (if xs = [] then [] else join sep (map dec_int (butlast xs) @ [dec_int (last xs) @ newline]))"
proof (cases xs)
  case (Cons y ys)
  then show ?thesis
    using fprint_from [of 0 xs y ys sep "[]"] by (simp add: fprint_sep_def len_def)
qed (simp add: fprint_sep_def)

lemma dec_int_chars: "c \<in> set (dec_int i) \<Longrightarrow> is_digit c \<or> c = CHR ''-''"
  using dec_nat_digits digit_char_props(1) by (fastforce simp: dec_int_def split: if_splits)

lemma dec_int_nonempty [simp]: "dec_int i \<noteq> []"
  by (simp add: dec_int_def)

lemma split_int_map: "split_int sep s = map atoi (tokens sep s)"
proof -
  have "foldl (\<lambda>ret result. append_one (atoi result) ret) acc ts = acc @ map atoi ts" for acc ts
    by (induction ts arbitrary: acc) (auto simp: append_one_app)
  then show ?thesis by (simp add: split_int_def)
qed

lemma split_fprint_sep:
  assumes "\<not> is_digit c" and "c \<noteq> CHR ''-''" and "c \<notin> set newline"
  shows "split_int [c] (fprint_sep xs [c]) = xs"
proof (cases xs rule: rev_cases)
  case (snoc ys y)
  have "c \<notin> set (dec_int i)" for i using assms(1,2) dec_int_chars by blast
  then have "tokens [c] (fprint_sep xs [c]) = map dec_int ys @ [dec_int y @ newline]"
    using assms(3) by (simp add: fprint_sep_join snoc) (intro tokens_join, auto)
  moreover have "no_digit newline" "no_digit []" by (simp_all add: no_digit_def newline_def is_digit_def)
  then have "atoi (dec_int i @ newline) = i" "atoi (dec_int i) = i" for i
    using atoi_dec_int [of newline i] atoi_dec_int [of "[]" i] by auto
  ultimately show ?thesis by (simp add: split_int_map snoc comp_def)
qed (simp add: split_int_map fprint_sep_join)

subsection \<open>Properties\<close>

text \<open>\<open>a + b\<close> is the array that \<open>a += b\<close> computes only where \<open>b\<close> is not longer than \<open>a\<close>: otherwise the
  loop that should copy the rest of \<open>b\<close> starts behind its end condition, and the rest is lost unless
  it is zero.\<close>

theorem add_array_agrees:
  "add_array xs A = plus_eq xs A \<longleftrightarrow>
     len A \<le> len xs \<or> (\<forall>i. len xs \<le> i \<and> i < len A \<longrightarrow> cell A i = 0)"
proof (cases "len A \<le> len xs")
  case True
  then have "add_array xs A = plus_eq xs A"
    by (intro array_eqI) (auto simp: add_array_def plus_eq_def both_len_def)
  with True show ?thesis by simp
next
  case False
  have l: "len (add_array xs A) = len A" "len (plus_eq xs A) = len A"
    using False by (auto simp: add_array_def plus_eq_def both_len_def)
  have c: "cell (add_array xs A) i = (if i < len xs then cell xs i + cell A i else 0)"
    "cell (plus_eq xs A) i = (if i < len xs then cell xs i + cell A i else cell A i)"
    if "0 \<le> i" "i < len A" for i
    using that False by (auto simp: add_array_def plus_eq_def both_len_def)
  have "add_array xs A = plus_eq xs A \<longleftrightarrow>
      (\<forall>i. 0 \<le> i \<and> i < len A \<longrightarrow> cell (add_array xs A) i = cell (plus_eq xs A) i)"
    using l by (simp add: array_eq_iff)
  also have "\<dots> \<longleftrightarrow> (\<forall>i. 0 \<le> i \<and> i < len A \<longrightarrow> len xs \<le> i \<longrightarrow> cell A i = 0)"
    using c by (intro iff_allI) (auto split: if_splits)
  also have "\<dots> \<longleftrightarrow> (\<forall>i. len xs \<le> i \<and> i < len A \<longrightarrow> cell A i = 0)"
    using len_simps(4) [of xs] by (meson order_trans)
  finally have "add_array xs A = plus_eq xs A \<longleftrightarrow> (\<forall>i. len xs \<le> i \<and> i < len A \<longrightarrow> cell A i = 0)" .
  with False show ?thesis by simp
qed

text \<open>a row that \<open>fprint\<close> writes is read back by \<open>split\<close> at the commas as the array it came from,
  also where it is empty and where it has negative elements.\<close>

theorem split_fprint: "split_int '','' (fprint xs) = xs"
proof -
  have "fprint xs = fprint_sep xs '',''" by (simp add: fprint_def fprint_sep_def)
  then show ?thesis
    using split_fprint_sep [of "CHR '',''" xs] by (simp add: is_digit_def newline_def)
qed

end
