(* ===== verification/Decode_Log.thy ===== *)
theory Decode_Log
  imports Seeker_Log Script_Array
begin

text \<open>
  \<open>Scripts/decodelog.c\<close>: the entries read from the log device, one after the other, as lines of text. A line
  is what the \<open>printf\<close> calls of its entry write; the lemmas show that nothing the scheduler records is
  lost in the text.
\<close>

subsection \<open>Formats\<close>

text \<open>\<open>%llu\<close> and \<open>%lu\<close> of an unsigned value, and \<open>%d\<close> of an unsigned int.\<close>

definition fmt_llu :: "u64 \<Rightarrow> string" where "fmt_llu x = dec_nat (unat x)"
definition fmt_d :: "u32 \<Rightarrow> string" where "fmt_d x = dec_int (sint x)"

text \<open>\<open>(float)n\<close>: 24 significant bits, to nearest, ties to even.\<close>

fun excess_bits :: "nat \<Rightarrow> nat" where
  "excess_bits n = (if n < 2 ^ 24 then 0 else Suc (excess_bits (n div 2)))"

declare excess_bits.simps [simp del]

definition to_float :: "nat \<Rightarrow> nat" where
  "to_float n =
     (let k = excess_bits n; q = n div 2 ^ k; r = n mod 2 ^ k
      in if 2 ^ k < 2 * r \<or> (2 * r = 2 ^ k \<and> odd q) then (q + 1) * 2 ^ k else q * 2 ^ k)"

text \<open>\<open>%1.4f\<close> of \<open>m / 8.0\<close>: the four decimals of a multiple of an eighth are exact.\<close>

definition fmt_eighths :: "nat \<Rightarrow> string" where
  "fmt_eighths m =
     (let d = m mod 8 * 1250
      in dec_nat (m div 8) @ CHR ''.'' # map digit_char [d div 1000 mod 10, d div 100 mod 10, d div 10 mod 10, d mod 10])"

subsection \<open>The decoder\<close>

text \<open>What one turn of the loop writes; \<open>None\<close>: an entry nobody has filled has no determined type.\<close>

definition decode_entry :: "log_t \<Rightarrow> string option" where
  "decode_entry e = (case e of
     LOG_SCH schDef \<Rightarrow>
       Some (''s'' @ '','' @ fmt_llu (sch_interval schDef) @ '','' @ fmt_d (sch_pid schDef) @ '','' @
         fmt_d (sch_cpu schDef) @ '','' @ fmt_llu (sch_inst schDef) @ '','' @
         fmt_eighths (to_float (unat (sch_ipc schDef))) @ '','' @ fmt_d (sch_state_req schDef) @ '','' @
         fmt_d (sch_state_given schDef) @ '','' @ fmt_d (sch_state schDef) @ '','' @
         fmt_llu (sch_cycles schDef) @ newline)
   | LOG_PID pidDef \<Rightarrow>
       Some (''p'' @ '','' @ fmt_d (pid_pid pidDef) @ '','' @ take 15 (pid_name pidDef) @ newline)
   | LOG_MUT mutDef \<Rightarrow>
       Some (''m,'' @ fmt_llu (mut_interval mutDef) @ '',r'' @
         for_up 0 (uint (mut_count mutDef)) (\<lambda>i out. out @ '','' @ fmt_d (cpus_req mutDef i)) [] @ '',g'' @
         for_up 0 (uint (mut_count mutDef)) (\<lambda>i out. out @ '','' @ fmt_d (cpus_given mutDef i)) [] @ newline)
   | LOG_STATE stateDef \<Rightarrow>
       Some (''t,'' @ dec_int (st_cpu stateDef) @ '','' @ dec_int (st_state stateDef) @ '','' @
         fmt_llu (residency_time stateDef) @ newline)
   | LOG_UNSET \<Rightarrow> None)"

fun decodelog :: "log_t list \<Rightarrow> string option" where
  "decodelog [] = Some []"
| "decodelog (e # es) =
     (case decode_entry e of None \<Rightarrow> None | Some l \<Rightarrow> map_option ((@) l) (decodelog es))"

subsection \<open>Fields and lines\<close>

definition fields :: "log_t \<Rightarrow> string list" where
  "fields e = (case e of
     LOG_SCH a \<Rightarrow> [''s'', fmt_llu (sch_interval a), fmt_d (sch_pid a), fmt_d (sch_cpu a), fmt_llu (sch_inst a),
       fmt_eighths (to_float (unat (sch_ipc a))), fmt_d (sch_state_req a), fmt_d (sch_state_given a),
       fmt_d (sch_state a), fmt_llu (sch_cycles a)]
   | LOG_PID a \<Rightarrow> [''p'', fmt_d (pid_pid a), take 15 (pid_name a)]
   | LOG_MUT a \<Rightarrow> [''m'', fmt_llu (mut_interval a), ''r''] @ map (fmt_d \<circ> cpus_req a) [0..uint (mut_count a) - 1] @
       ''g'' # map (fmt_d \<circ> cpus_given a) [0..uint (mut_count a) - 1]
   | LOG_STATE a \<Rightarrow> [''t'', dec_int (st_cpu a), dec_int (st_state a), fmt_llu (residency_time a)]
   | LOG_UNSET \<Rightarrow> [])"

lemma for_up_concat: "for_up 0 n (\<lambda>i out. out @ f i) [] = concat (map f [0..n - 1])"
proof (cases "0 \<le> n")
  case True
  then show ?thesis
  proof (rule for_up_inv [where P = "\<lambda>i s. s = concat (map f [0..i - 1])", rotated])
    fix j and t :: "'a list"
    assume j: "0 \<le> j" "t = concat (map f [0..j - 1])"
    have "[0..j] = [0..j - 1] @ [j]" using upto_rec2 [of 0 j] j(1) by simp
    then show "t @ f j = concat (map f [0..j + 1 - 1])" by (simp add: j(2))
  qed simp
qed simp

lemma join_Cons: "join sep (x # xs) = x @ concat (map ((@) sep) xs)"
  by (induction sep "x # xs" arbitrary: x xs rule: join.induct) auto

lemma decode_fields:
  assumes "e \<noteq> LOG_UNSET"
  shows "decode_entry e = Some (join '','' (fields e) @ newline)"
proof (cases e)
  case (LOG_MUT a)
  have c: "for_up 0 n (\<lambda>i out. out @ '','' @ fmt_d (g i)) [] = concat (map (\<lambda>i. '','' @ fmt_d (g i)) [0..n - 1])"
    for n g by (rule for_up_concat)
  define n where "n = uint (mut_count a) - 1"
  define R G where "R = concat (map (\<lambda>i. '','' @ fmt_d (cpus_req a i)) [0..n])"
    and "G = concat (map (\<lambda>i. '','' @ fmt_d (cpus_given a i)) [0..n])"
  have "decode_entry e = Some (''m,'' @ fmt_llu (mut_interval a) @ '',r'' @ R @ '',g'' @ G @ newline)"
    by (simp only: LOG_MUT decode_entry_def log_t.case c n_def [symmetric] R_def [symmetric] G_def [symmetric])
  moreover have "join '','' (fields e) = ''m,'' @ fmt_llu (mut_interval a) @ '',r'' @ R @ '',g'' @ G"
    by (simp add: LOG_MUT fields_def n_def [symmetric] join_Cons R_def G_def comp_def)
  ultimately show ?thesis by simp
qed (use assms in \<open>simp_all add: decode_entry_def fields_def\<close>)

text \<open>The characters of the formats.\<close>

lemma dec_nat_chars: "c \<in> set (dec_nat n) \<Longrightarrow> is_digit c"
  using dec_nat_digits digit_char_props(1) by blast

lemma fmt_eighths_chars: "c \<in> set (fmt_eighths m) \<Longrightarrow> is_digit c \<or> c = CHR ''.''"
  using dec_nat_chars by (auto simp: fmt_eighths_def Let_def digit_char_props(1))

lemmas fmt_defs = fmt_llu_def fmt_d_def

definition plain_char :: "char \<Rightarrow> bool" where
  "plain_char c \<longleftrightarrow> c \<noteq> CHR '','' \<and> c \<noteq> CHR 0x0A"

definition plain :: "string \<Rightarrow> bool" where
  "plain s \<longleftrightarrow> s \<noteq> [] \<and> (\<forall>c \<in> set s. plain_char c)"

lemma plain_fmt [simp]: "plain (dec_nat n)" "plain (dec_int i)" "plain (fmt_llu x)" "plain (fmt_d y)"
    "plain (fmt_eighths m)"
proof -
  have d: "plain_char c" if "is_digit c \<or> c = CHR ''-'' \<or> c = CHR ''.''" for c
  proof -
    have "\<not> is_digit (CHR '','')" "\<not> is_digit (CHR 0x0A)" by (simp_all add: is_digit_def)
    moreover have "CHR ''-'' \<noteq> CHR '','' \<and> CHR ''-'' \<noteq> CHR 0x0A \<and> CHR ''.'' \<noteq> CHR '','' \<and> CHR ''.'' \<noteq> CHR 0x0A"
      by simp
    ultimately show ?thesis using that unfolding plain_char_def by metis
  qed
  have p: "plain s" if "s \<noteq> []" "\<And>c. c \<in> set s \<Longrightarrow> is_digit c \<or> c = CHR ''-'' \<or> c = CHR ''.''" for s
    unfolding plain_def using that d by simp
  have dn: "plain (dec_nat n)" for n by (rule p) (simp_all add: dec_nat_chars)
  have di: "plain (dec_int i)" for i by (rule p) (use dec_int_chars in auto)
  show "plain (dec_nat n)" by (rule dn)
  show "plain (dec_int i)" by (rule di)
  show "plain (fmt_llu x)" unfolding fmt_defs by (rule dn)
  show "plain (fmt_d y)" unfolding fmt_defs by (rule di)
  show "plain (fmt_eighths m)"
  proof (rule p)
    show "fmt_eighths m \<noteq> []" by (simp add: fmt_eighths_def Let_def)
    show "is_digit c \<or> c = CHR ''-'' \<or> c = CHR ''.''" if "c \<in> set (fmt_eighths m)" for c
      using fmt_eighths_chars [OF that] by blast
  qed
qed

text \<open>
  Entries whose fields can be found again in the text: entries that were filled, and names that are not
  empty and hold no separator.
\<close>

definition separable :: "log_t \<Rightarrow> bool" where
  "separable e = (case e of
     LOG_PID a \<Rightarrow> plain (take 15 (pid_name a))
   | LOG_UNSET \<Rightarrow> False
   | _ \<Rightarrow> True)"

lemma fields_plain: "separable e \<Longrightarrow> t \<in> set (fields e) \<Longrightarrow> plain t"
  by (cases e) (auto simp: fields_def separable_def, auto simp: plain_def plain_char_def)

lemma fields_nonempty: "separable e \<Longrightarrow> fields e \<noteq> []"
  by (cases e) (auto simp: fields_def separable_def)

subsection \<open>Nothing is lost\<close>

lemma dec_int_inject [simp]: "dec_int i = dec_int j \<longleftrightarrow> i = j"
proof
  assume e: "dec_int i = dec_int j"
  have "atoi (dec_int k) = k" for k using atoi_dec_int [of "[]" k] by (simp add: no_digit_def)
  then show "i = j" using arg_cong [OF e, of atoi] by simp
qed simp

lemma dec_nat_inject [simp]: "dec_nat m = dec_nat n \<longleftrightarrow> m = n"
  using dec_int_inject [of "int m" "int n"] by (auto simp: dec_int_def)

lemma fmt_inject [simp]: "fmt_llu x = fmt_llu y \<longleftrightarrow> x = y" "fmt_d u = fmt_d v \<longleftrightarrow> u = v"
  by (auto simp: fmt_defs word_unat_eq_iff [symmetric] intro: signed_word_eqI [where ?'a = int])

lemma to_float_exact: "n < 2 ^ 24 \<Longrightarrow> to_float n = n"
  by (simp add: to_float_def excess_bits.simps)

lemma four_decimals_inject:
  assumes "a < 8" and "b < (8 :: nat)"
    and "map digit_char [a * 1250 div 1000 mod 10, a * 1250 div 100 mod 10, a * 1250 div 10 mod 10, a * 1250 mod 10] =
      map digit_char [b * 1250 div 1000 mod 10, b * 1250 div 100 mod 10, b * 1250 div 10 mod 10, b * 1250 mod 10]"
  shows "a = b"
proof -
  have inj: "x = y" if "digit_char x = digit_char y" "x < 10" "y < 10" for x y
    using that digit_char_props(2) by (metis of_nat_eq_iff)
  have "a * 1250 div 1000 mod 10 = b * 1250 div 1000 mod 10"
    "a * 1250 div 100 mod 10 = b * 1250 div 100 mod 10"
    using assms(3) by (auto intro!: inj)
  moreover have "a \<in> {0, 1, 2, 3, 4, 5, 6, 7}" "b \<in> {0, 1, 2, 3, 4, 5, 6, 7}" using assms(1,2) by auto
  ultimately show ?thesis by (elim insertE) auto
qed

lemma fmt_eighths_inject: "fmt_eighths m = fmt_eighths n \<longleftrightarrow> m = n"
proof
  assume e: "fmt_eighths m = fmt_eighths n"
  define ds where "ds a = map digit_char [a * 1250 div 1000 mod 10, a * 1250 div 100 mod 10,
    a * 1250 div 10 mod 10, a * 1250 mod 10]" for a :: nat
  have f: "fmt_eighths k = dec_int (int (k div 8)) @ CHR ''.'' # ds (k mod 8)" for k
    by (simp add: fmt_eighths_def Let_def ds_def dec_int_def)
  have nd: "no_digit (CHR ''.'' # r)" for r by (simp add: no_digit_def is_digit_def)
  have q: "m div 8 = n div 8"
    using arg_cong [OF e, of atoi] by (simp only: f atoi_dec_int [OF nd])
  with e have "ds (m mod 8) = ds (n mod 8)" by (simp add: f)
  then have "m mod 8 = n mod 8" unfolding ds_def by (intro four_decimals_inject) auto
  with q show "m = n" by (metis mult_div_mod_eq)
qed simp

text \<open>What a line says about its entry; of an IPC from \<open>2 ^ 24\<close> on it says what a float keeps.\<close>

definition same_reading :: "log_t \<Rightarrow> log_t \<Rightarrow> bool" where
  "same_reading e f = (case (e, f) of
     (LOG_SCH a, LOG_SCH b) \<Rightarrow> a\<lparr>sch_ipc := sch_ipc b\<rparr> = b \<and>
       to_float (unat (sch_ipc a)) = to_float (unat (sch_ipc b)) \<and>
       (unat (sch_ipc a) < 2 ^ 24 \<and> unat (sch_ipc b) < 2 ^ 24 \<longrightarrow> a = b)
   | (LOG_PID a, LOG_PID b) \<Rightarrow> pid_pid a = pid_pid b \<and> take 15 (pid_name a) = take 15 (pid_name b)
   | (LOG_MUT a, LOG_MUT b) \<Rightarrow> mut_interval a = mut_interval b \<and> mut_count a = mut_count b \<and>
       (\<forall>i. 0 \<le> i \<and> i < uint (mut_count a) \<longrightarrow> cpus_req a i = cpus_req b i \<and> cpus_given a i = cpus_given b i)
   | (LOG_STATE a, LOG_STATE b) \<Rightarrow> a = b
   | _ \<Rightarrow> False)"

lemma uint_upto: "length [0..uint (c :: u32) - 1] = nat (uint c)"
  by simp

lemma mut_fields:
  assumes "fields (LOG_MUT a) = fields (LOG_MUT b)"
  shows "same_reading (LOG_MUT a) (LOG_MUT b)"
proof -
  let ?n = "\<lambda>a. [0..uint (mut_count a) - 1]"
  have len: "length (?n a) = length (?n b)"
    using arg_cong [OF assms, of length] by (simp add: fields_def)
  then have c: "mut_count a = mut_count b" by (simp add: uint_upto nat_eq_iff2 word_unat_eq_iff)
  have "map (fmt_d \<circ> cpus_req a) (?n a) = map (fmt_d \<circ> cpus_req b) (?n b)"
      "map (fmt_d \<circ> cpus_given a) (?n a) = map (fmt_d \<circ> cpus_given b) (?n b)" and
      i: "mut_interval a = mut_interval b"
    using assms len by (auto simp: fields_def)
  then show ?thesis using c i by (auto simp: same_reading_def)
qed

lemma fields_reading:
  assumes "separable e" and "separable f" and "fields e = fields f"
  shows "same_reading e f"
proof (cases e; cases f)
  fix a b
  assume "e = LOG_MUT a" "f = LOG_MUT b"
  then show ?thesis using mut_fields assms(3) by simp
qed (use assms in \<open>auto simp: fields_def separable_def same_reading_def fmt_eighths_inject to_float_exact
    word_unat_eq_iff [symmetric]\<close>)

lemma join_chars: "c \<in> set (join sep ts) \<Longrightarrow> c \<in> set sep \<or> (\<exists>t \<in> set ts. c \<in> set t)"
  by (induction sep ts rule: join.induct) auto

lemma tokens_lines:
  assumes "\<forall>l \<in> set ls. l \<noteq> [] \<and> c \<notin> set l"
  shows "tokens [c] (concat (map (\<lambda>l. l @ [c]) ls)) = ls"
  using assms
proof (induction ls)
  case (Cons l ls)
  then show ?case by (subst tokens.simps) (simp add: strtok_app)
qed simp

lemma decodelog_lines:
  "\<forall>e \<in> set es. separable e \<Longrightarrow> decodelog es = Some (concat (map (\<lambda>e. join '','' (fields e) @ newline) es))"
proof (induction es)
  case (Cons e es)
  then have "e \<noteq> LOG_UNSET" by (auto simp: separable_def)
  with Cons show ?case by (simp add: decode_fields)
qed simp

lemma line_plain:
  assumes "separable e"
  shows "join '','' (fields e) \<noteq> [] \<and> CHR 0x0A \<notin> set (join '','' (fields e))"
proof
  obtain x xs where "fields e = x # xs" using fields_nonempty [OF assms] by (cases "fields e") auto
  moreover then have "x \<noteq> []" using fields_plain [OF assms, of x] by (simp add: plain_def)
  ultimately show "join '','' (fields e) \<noteq> []" by (simp add: join_Cons)
  show "CHR 0x0A \<notin> set (join '','' (fields e))"
    using join_chars [of "CHR 0x0A" "'',''" "fields e"] fields_plain [OF assms] by (auto simp: plain_def plain_char_def)
qed

text \<open>Two values that a \<open>short\<close> of the scheduler, negative and extended to 32 bits, can give.\<close>

lemma large_ipc_alike:
  "decode_entry (LOG_SCH (a\<lparr>sch_ipc := 0xFFFFFFFF\<rparr>)) = decode_entry (LOG_SCH (a\<lparr>sch_ipc := 0xFFFFFFFE\<rparr>))"
proof -
  have "excess_bits 4294967295 = 8" "excess_bits 4294967294 = 8" by (simp_all add: excess_bits.simps)
  then have "to_float 4294967295 = to_float 4294967294" by (simp add: to_float_def)
  then show ?thesis by (simp add: decode_entry_def)
qed

text \<open>
  C17: for logs of filled entries whose names are not empty and hold no comma and no newline in their
  first fifteen characters: if two logs have the same decoded text, they agree entry by entry, in
  every member of a scheduling or state entry but an IPC of \<open>2 ^ 24\<close> and more (of which the text keeps the
  float value), in the pid and the first fifteen characters of a name, and in the requested and given
  CPUs of each state that a mutator entry counts.
\<close>
theorem decodelog_faithful:
  assumes "\<forall>e \<in> set es. separable e" and "\<forall>f \<in> set fs. separable f" and "decodelog es = decodelog fs"
  shows "list_all2 same_reading es fs"
proof -
  let ?line = "\<lambda>e. join '','' (fields e)"
  have lines: "tokens [CHR 0x0A] (concat (map (\<lambda>e. ?line e @ newline) gs)) = map ?line gs"
    if "\<forall>g \<in> set gs. separable g" for gs
    using tokens_lines [of "map ?line gs" "CHR 0x0A"] line_plain that by (simp add: newline_def comp_def)
  have "map ?line es = map ?line fs"
    using assms(3) lines [OF assms(1)] lines [OF assms(2)] by (simp add: decodelog_lines assms(1,2))
  moreover have "tokens '','' (?line e) = fields e" if "separable e" for e
    using tokens_join [of "fields e" "CHR '',''"] fields_plain [OF that] by (auto simp: plain_def plain_char_def)
  ultimately have "map fields es = map fields fs"
    using assms(1,2) by (metis (no_types, lifting) list.map_comp map_cong comp_def)
  then show ?thesis
    using assms(1,2)
  proof (induction es arbitrary: fs)
    case (Cons e es)
    then show ?case using fields_reading by (cases fs) auto
  qed simp
qed

lemma decodelog_faithful_witness:
  "decodelog [LOG_PID \<lparr>pid_name = ''mcf'', pid_pid = 7\<rparr>, LOG_STATE \<lparr>st_cpu = 1, st_state = 2, residency_time = 9\<rparr>] \<noteq>
   decodelog [LOG_PID \<lparr>pid_name = ''mcf'', pid_pid = 7\<rparr>, LOG_STATE \<lparr>st_cpu = 1, st_state = 3, residency_time = 9\<rparr>]"
proof
  let ?p = "LOG_PID \<lparr>pid_name = ''mcf'', pid_pid = 7\<rparr>"
  let ?s = "\<lambda>i. LOG_STATE \<lparr>st_cpu = 1, st_state = i, residency_time = 9\<rparr>"
  assume e: "decodelog [?p, ?s 2] = decodelog [?p, ?s 3]"
  have "separable ?p" "separable (?s i)" for i by (simp_all add: separable_def plain_def plain_char_def)
  then have "list_all2 same_reading [?p, ?s 2] [?p, ?s 3]"
    using decodelog_faithful [OF _ _ e] by simp
  then show False by (simp add: same_reading_def)
qed

end
