(* ===== verification/Log_Daemon.thy ===== *)
theory Log_Daemon
  imports Script_Array
begin

text \<open>
  \<open>Scripts/seekerlogd.c\<close>, the daemon that copies the log device into numbered files: its start, its loop
  and its signal handlers as a step relation. A step is what the daemon does between two points at
  which the device, the file system or a signal decides: a read of the device inside \<open>fread\<close>, the return
  of \<open>fread\<close>, \<open>fwrite\<close>, and the four stages of a rotation; a signal arrives between two steps. What \<open>fread\<close>
  has taken off the device and \<open>fwrite\<close> has not yet put into the file is held by the daemon, and is part
  of the state. A file is what has been handed to \<open>stdio\<close> for it, which every exit and every close flushes;
  elements are bytes. Behaviour that C leaves undefined (a name longer than its buffer, a stream closed
  twice) ends the run with \<open>broken\<close>. Not modelled: the length of the sleep, a signal in the middle of a
  \<open>stdio\<close> call or of an exit, and more than \<open>2 ^ 31\<close> rotations.
\<close>

subsection \<open>State\<close>

text \<open>
  Where the loop is: at its head; in \<open>fread\<close>, with what it has read so far; before \<open>fwrite\<close>, with what is
  to be written; or in the \<open>else\<close> branch, with both files closed, the output file open, both open.
\<close>

datatype 'b place = Top | Reading "'b list" | Writing "'b list" | Files_Closed | Outfile_Open | Files_Open

record 'b daemon =
  do_sample :: int
  count :: int
  outfile_prefix :: string
  outfile_name :: string
  files :: "string \<Rightarrow> 'b list option"
  place_at :: "'b place"
  exit_status :: "int option"
  broken :: bool

definition running :: "'b daemon \<Rightarrow> bool" where
  "running s \<longleftrightarrow> exit_status s = None \<and> \<not> broken s"

definition EXIT_SUCCESS :: int where "EXIT_SUCCESS = 0"
definition EXIT_FAILURE :: int where "EXIT_FAILURE = 1"

text \<open>How the two \<open>fopen\<close> calls of a start end.\<close>

datatype opened = Both_Open | No_Outfile | No_Infile

subsection \<open>Operations\<close>

definition file_name :: "string \<Rightarrow> int \<Rightarrow> string" where
  "file_name prefix n = prefix @ dec_int n"

text \<open>\<open>outfile_name[100]\<close>: a name and its end mark.\<close>

definition name_fits :: "string \<Rightarrow> bool" where
  "name_fits name \<longleftrightarrow> length name < 100"

definition exit_with :: "int \<Rightarrow> 'b daemon \<Rightarrow> 'b daemon" where
  "exit_with status s = s\<lparr>exit_status := Some status\<rparr>"

definition do_exit :: "'b daemon \<Rightarrow> 'b daemon" where
  "do_exit s = exit_with EXIT_SUCCESS s"

definition catchSig :: "'b daemon \<Rightarrow> 'b daemon" where
  "catchSig s = s\<lparr>do_sample := 0\<rparr>"

text \<open>The handler of \<open>SIGTERM\<close> closes both files, one of them a second time while the daemon reopens them.\<close>

definition catchTerm :: "'b daemon \<Rightarrow> 'b daemon" where
  "catchTerm s =
     (if place_at s = Files_Closed \<or> place_at s = Outfile_Open then s\<lparr>broken := True\<rparr> else do_exit s)"

text \<open>The prefix and the text of the sample time, if given; \<open>None\<close>: the usage is printed.\<close>

definition daemon_args :: "string list \<Rightarrow> (string \<times> string option) option" where
  "daemon_args argv =
     (if length argv < 3 then
        (if length argv = 2 then
           (if argv ! 1 = ''--help'' \<or> argv ! 1 = ''-h'' then None else Some (argv ! 1, None))
         else Some (''/var/log/seeker'', None))
      else if length argv = 3 then Some (argv ! 2, Some (argv ! 1))
      else None)"

text \<open>\<open>main\<close> up to its loop (the child of the fork goes on).\<close>

definition daemon_start :: "string \<Rightarrow> (string \<Rightarrow> 'b list option) \<Rightarrow> opened \<Rightarrow> 'b daemon" where
  "daemon_start prefix fs r =
     (let s = \<lparr>do_sample = 1, count = 0, outfile_prefix = prefix, outfile_name = file_name prefix 0,
               files = fs, place_at = Top, exit_status = None, broken = False\<rparr> in
      if \<not> name_fits (outfile_name s) then s\<lparr>broken := True\<rparr>
      else if r = No_Infile then exit_with EXIT_FAILURE s
      else if fs (outfile_name s) \<noteq> None then exit_with EXIT_FAILURE s
      else if r = No_Outfile then exit_with EXIT_FAILURE s
      else s\<lparr>files := fs(outfile_name s \<mapsto> [])\<rparr>)"

text \<open>The \<open>else\<close> branch of the loop, in four stages; \<open>opens\<close>: the \<open>fopen\<close> succeeds.\<close>

definition close_files :: "'b daemon \<Rightarrow> 'b daemon" where
  "close_files s =
     (let s = s\<lparr>count := count s + 1\<rparr>;
          s = s\<lparr>outfile_name := file_name (outfile_prefix s) (count s)\<rparr>
      in s\<lparr>place_at := Files_Closed, broken := broken s \<or> \<not> name_fits (outfile_name s)\<rparr>)"

definition open_outfile :: "bool \<Rightarrow> 'b daemon \<Rightarrow> 'b daemon" where
  "open_outfile opens s =
     (if files s (outfile_name s) \<noteq> None then exit_with EXIT_FAILURE s
      else if \<not> opens then exit_with EXIT_FAILURE s
      else s\<lparr>files := (files s)(outfile_name s \<mapsto> []), place_at := Outfile_Open\<rparr>)"

definition open_infile :: "bool \<Rightarrow> 'b daemon \<Rightarrow> 'b daemon" where
  "open_infile opens s = (if \<not> opens then exit_with EXIT_FAILURE s else s\<lparr>place_at := Files_Open\<rparr>)"

definition resume :: "'b daemon \<Rightarrow> 'b daemon" where
  "resume s = s\<lparr>do_sample := 1, place_at := Top\<rparr>"

definition fwrite :: "'b list \<Rightarrow> 'b daemon \<Rightarrow> 'b daemon" where
  "fwrite bs s = s\<lparr>files := (files s)(outfile_name s \<mapsto> the (files s (outfile_name s)) @ bs)\<rparr>"

text \<open>
  A step and what decides it: \<open>Dev_Read bs\<close>: the device gives \<open>fread\<close> some bytes; \<open>Fread_Ret\<close>: \<open>fread\<close> returns
  what it has; \<open>Read_Error\<close>: it sets the error indicator (the daemon exits at once if \<open>fread\<close> had read
  something, else after its sleep; what was read is lost); \<open>Drained\<close>: \<open>fread\<close> returns 0 and the daemon has slept;
  \<open>Fwrite bs\<close>: all is written; \<open>Write_Error bs\<close>: of what was read only the first part \<open>bs\<close> could be written.
\<close>

datatype 'b event =
  Enter | Dev_Read "'b list" | Fread_Ret | Read_Error | Drained | Fwrite "'b list" | Write_Error "'b list"
  | Close | Open_Out bool | Open_In bool | Resume | SIGUSR1 | SIGTERM

inductive daemon_step :: "'b daemon \<Rightarrow> 'b event \<Rightarrow> 'b daemon \<Rightarrow> bool" where
  enter: "\<lbrakk>running s; place_at s = Top; do_sample s \<noteq> 0\<rbrakk> \<Longrightarrow> daemon_step s Enter (s\<lparr>place_at := Reading []\<rparr>)"
| dev_read: "\<lbrakk>running s; place_at s = Reading acc; bs \<noteq> []\<rbrakk>
     \<Longrightarrow> daemon_step s (Dev_Read bs) (s\<lparr>place_at := Reading (acc @ bs)\<rparr>)"
| fread_ret: "\<lbrakk>running s; place_at s = Reading acc; acc \<noteq> []\<rbrakk>
     \<Longrightarrow> daemon_step s Fread_Ret (s\<lparr>place_at := Writing acc\<rparr>)"
| read_error: "\<lbrakk>running s; place_at s = Reading acc\<rbrakk> \<Longrightarrow> daemon_step s Read_Error (do_exit s)"
| drained: "\<lbrakk>running s; place_at s = Reading []\<rbrakk> \<Longrightarrow> daemon_step s Drained (s\<lparr>place_at := Top\<rparr>)"
| fwrite: "\<lbrakk>running s; place_at s = Writing bs\<rbrakk>
     \<Longrightarrow> daemon_step s (Fwrite bs) ((fwrite bs s)\<lparr>place_at := Reading []\<rparr>)"
| write_error: "\<lbrakk>running s; place_at s = Writing (bs @ cs)\<rbrakk>
     \<Longrightarrow> daemon_step s (Write_Error bs) (do_exit ((fwrite bs s)\<lparr>place_at := Writing cs\<rparr>))"
| close: "\<lbrakk>running s; place_at s = Top; do_sample s = 0\<rbrakk> \<Longrightarrow> daemon_step s Close (close_files s)"
| open_out: "\<lbrakk>running s; place_at s = Files_Closed\<rbrakk> \<Longrightarrow> daemon_step s (Open_Out b) (open_outfile b s)"
| open_in: "\<lbrakk>running s; place_at s = Outfile_Open\<rbrakk> \<Longrightarrow> daemon_step s (Open_In b) (open_infile b s)"
| resume: "\<lbrakk>running s; place_at s = Files_Open\<rbrakk> \<Longrightarrow> daemon_step s Resume (resume s)"
| sigusr1: "running s \<Longrightarrow> daemon_step s SIGUSR1 (catchSig s)"
| sigterm: "running s \<Longrightarrow> daemon_step s SIGTERM (catchTerm s)"

inductive daemon_run :: "'b daemon \<Rightarrow> 'b event list \<Rightarrow> 'b daemon \<Rightarrow> bool" where
  Nil: "daemon_run s [] s"
| Cons: "\<lbrakk>daemon_step s e t; daemon_run t es u\<rbrakk> \<Longrightarrow> daemon_run s (e # es) u"

inductive_cases daemon_run_NilE [elim!]: "daemon_run s [] t"

subsection \<open>Where the bytes go\<close>

text \<open>What an event writes to the file and what it takes off the device.\<close>

fun event_bytes :: "'b event \<Rightarrow> 'b list" where
  "event_bytes (Fwrite bs) = bs"
| "event_bytes (Write_Error bs) = bs"
| "event_bytes _ = []"

fun read_bytes :: "'b event \<Rightarrow> 'b list" where
  "read_bytes (Dev_Read bs) = bs"
| "read_bytes _ = []"

text \<open>What has been read and not been written; lost once the daemon has stopped.\<close>

definition held :: "'b daemon \<Rightarrow> 'b list" where
  "held s = (case place_at s of Reading bs \<Rightarrow> bs | Writing bs \<Rightarrow> bs | _ \<Rightarrow> [])"

text \<open>The files of the first \<open>n + 1\<close> numbers, one after the other, and the last number of a file.\<close>

definition logged :: "'b daemon \<Rightarrow> int \<Rightarrow> 'b list" where
  "logged s n = concat (map (\<lambda>i. the (files s (file_name (outfile_prefix s) i))) [0..n])"

definition last_file :: "'b daemon \<Rightarrow> int" where
  "last_file s = (if place_at s = Files_Closed then count s - 1 else count s)"

text \<open>Files that are not the daemon's are those \<open>fs\<close> of the start.\<close>

definition daemon_ok :: "(string \<Rightarrow> 'b list option) \<Rightarrow> 'b list \<Rightarrow> 'b daemon \<Rightarrow> bool" where
  "daemon_ok fs bs s \<longleftrightarrow>
     (let n = last_file s in
      0 \<le> n \<and> outfile_name s = file_name (outfile_prefix s) (count s) \<and>
      (\<forall>i. 0 \<le> i \<and> i \<le> n \<longrightarrow> files s (file_name (outfile_prefix s) i) \<noteq> None) \<and>
      (\<forall>i. 0 \<le> i \<and> i \<le> n \<longrightarrow> fs (file_name (outfile_prefix s) i) = None) \<and>
      (\<forall>f. fs f \<noteq> None \<longrightarrow> files s f = fs f) \<and>
      logged s n = bs)"

lemma file_name_inject [simp]: "file_name p i = file_name p j \<longleftrightarrow> i = j"
proof
  assume e: "file_name p i = file_name p j"
  have "atoi (dec_int k) = k" for k using atoi_dec_int [of "[]" k] by (simp add: no_digit_def)
  moreover have "dec_int i = dec_int j" using e by (simp add: file_name_def)
  ultimately show "i = j" by metis
qed simp

lemma logged_cong:
  assumes "outfile_prefix t = outfile_prefix s"
    and "\<And>i. \<lbrakk>0 \<le> i; i \<le> n\<rbrakk> \<Longrightarrow> files t (file_name (outfile_prefix s) i) = files s (file_name (outfile_prefix s) i)"
  shows "logged t n = logged s n"
  using assms by (auto simp: logged_def intro!: arg_cong [where f = concat])

lemma logged_last: "0 \<le> n \<Longrightarrow> logged s n = logged s (n - 1) @ the (files s (file_name (outfile_prefix s) n))"
  using upto_rec2 [of 0 n] by (simp add: logged_def)

lemma ok_start:
  assumes "t = daemon_start prefix fs r" and "running t"
  shows "daemon_ok fs [] t \<and> outfile_prefix t = prefix \<and> held t = []"
  using assms
  by (auto simp: daemon_start_def exit_with_def daemon_ok_def logged_def held_def running_def last_file_def Let_def
      split: if_splits)

lemma ok_write:
  assumes ok: "daemon_ok fs bs s" and run: "place_at s = Writing ds"
  shows "daemon_ok fs (bs @ cs) (fwrite cs s)"
proof -
  let ?f = "file_name (outfile_prefix s)"
  have s: "0 \<le> count s" "outfile_name s = ?f (count s)" "fs (?f (count s)) = None" "logged s (count s) = bs"
    using ok run by (auto simp: daemon_ok_def Let_def last_file_def)
  have "logged (fwrite cs s) (count s - 1) = logged s (count s - 1)"
    by (rule logged_cong) (auto simp: fwrite_def s(2))
  then have "logged (fwrite cs s) (count s) = bs @ cs"
    using s by (subst logged_last) (simp_all add: logged_last [OF s(1), of s] fwrite_def)
  then show ?thesis using ok run s by (auto simp: daemon_ok_def fwrite_def Let_def last_file_def)
qed

text \<open>The new file of a rotation.\<close>

lemma ok_open:
  assumes ok: "daemon_ok fs bs s" and run: "place_at s = Files_Closed"
  shows "daemon_ok fs bs (open_outfile b s)"
proof -
  let ?f = "file_name (outfile_prefix s)"
  have s: "0 \<le> count s - 1" "logged s (count s - 1) = bs" "outfile_name s = ?f (count s)"
      "\<And>i. \<lbrakk>0 \<le> i; i \<le> count s - 1\<rbrakk> \<Longrightarrow> files s (?f i) \<noteq> None"
      "\<And>i. \<lbrakk>0 \<le> i; i \<le> count s - 1\<rbrakk> \<Longrightarrow> fs (?f i) = None" "\<And>f. fs f \<noteq> None \<Longrightarrow> files s f = fs f"
    using ok run by (auto simp: daemon_ok_def Let_def last_file_def)
  show ?thesis
  proof (cases "files s (outfile_name s) = None \<and> b")
    case True
    define t where "t = open_outfile b s"
    have t: "outfile_prefix t = outfile_prefix s" "count t = count s" "outfile_name t = ?f (count s)"
        "place_at t = Outfile_Open" "files t = (files s)(?f (count s) \<mapsto> [])"
      using True s(3) by (simp_all add: t_def open_outfile_def)
    have "logged t (count s - 1) = bs" using logged_cong [OF t(1), of "count s - 1"] s(2) by (simp add: t(5))
    then have "logged t (count s) = bs" using logged_last [of "count s" t] s(1) by (simp add: t)
    moreover have "fs (?f (count s)) = None" using s(6) [of "?f (count s)"] True s(3) by fastforce
    moreover have "files t (?f i) \<noteq> None \<and> fs (?f i) = None" if "0 \<le> i" "i \<le> count s" for i
      using that s(4,5) [of i] calculation(2) by (cases "i = count s") (simp_all add: t(5))
    moreover have "files t f = fs f" if "fs f \<noteq> None" for f
      using that s(6) calculation(2) by (auto simp: t(5))
    ultimately show ?thesis
      using s(1) unfolding t_def [symmetric] by (simp add: daemon_ok_def Let_def last_file_def t)
  qed (use ok in \<open>auto simp: open_outfile_def exit_with_def daemon_ok_def logged_def last_file_def Let_def\<close>)
qed

lemma ok_frame:
  "\<lbrakk>daemon_ok fs bs s; files t = files s; outfile_prefix t = outfile_prefix s;
    outfile_name t = file_name (outfile_prefix t) (count t); last_file t = last_file s\<rbrakk> \<Longrightarrow> daemon_ok fs bs t"
  by (simp add: daemon_ok_def logged_def Let_def)

lemma fwrite_frame [simp]:
  "exit_status (fwrite bs s) = exit_status s" "outfile_prefix (fwrite bs s) = outfile_prefix s"
  "outfile_name (fwrite bs s) = outfile_name s" "count (fwrite bs s) = count s"
  "do_sample (fwrite bs s) = do_sample s" "place_at (fwrite bs s) = place_at s" "broken (fwrite bs s) = broken s"
  by (simp_all add: fwrite_def)

lemma exit_frames [simp]:
  "files (do_exit s) = files s" "outfile_prefix (do_exit s) = outfile_prefix s"
  "outfile_name (do_exit s) = outfile_name s" "count (do_exit s) = count s"
  "place_at (do_exit s) = place_at s" "exit_status (do_exit s) = Some EXIT_SUCCESS"
  by (simp_all add: do_exit_def exit_with_def)

lemmas daemon_defs = catchSig_def catchTerm_def close_files_def open_infile_def resume_def exit_with_def Let_def

lemma step_prefix: "daemon_step s e t \<Longrightarrow> outfile_prefix t = outfile_prefix s"
  by (cases rule: daemon_step.cases) (auto simp: daemon_defs open_outfile_def)

text \<open>The read bytes are those written and those held.\<close>

lemma held_step: "daemon_step s e t \<Longrightarrow> event_bytes e @ held t = held s @ read_bytes e"
proof (induction rule: daemon_step.induct)
  case (open_out s b)
  then show ?case by (simp add: held_def open_outfile_def exit_with_def)
next
  case (sigterm s)
  then show ?case by (simp add: held_def catchTerm_def)
qed (simp_all add: held_def daemon_defs)

lemma ok_step:
  assumes "daemon_step s e t" and ok: "daemon_ok fs bs s"
  shows "daemon_ok fs (bs @ event_bytes e) t"
proof -
  have nm: "outfile_name s = file_name (outfile_prefix s) (count s)" using ok by (simp add: daemon_ok_def Let_def)
  from assms(1) show ?thesis
  proof (cases rule: daemon_step.cases)
    case (fwrite cs)
    from ok_write [OF ok fwrite(4), of cs] show ?thesis
      using fwrite(1,2,4) nm by (auto intro: ok_frame simp: last_file_def)
  next
    case (write_error cs ds)
    from ok_write [OF ok write_error(4), of cs] show ?thesis
      using write_error(1,2,4) nm by (auto intro: ok_frame simp: last_file_def)
  next
    case (open_out b)
    with ok_open [OF ok] show ?thesis by simp
  qed (use ok nm in \<open>auto intro!: ok_frame [OF ok] simp: last_file_def daemon_defs\<close>)
qed

lemma ok_run:
  "\<lbrakk>daemon_run s es t; daemon_ok fs bs s\<rbrakk> \<Longrightarrow>
    daemon_ok fs (bs @ concat (map event_bytes es)) t \<and> outfile_prefix t = outfile_prefix s"
proof (induction arbitrary: bs rule: daemon_run.induct)
  case (Cons s e t es u)
  then show ?case using ok_step [of s e t fs bs] step_prefix [of s e t] by fastforce
qed simp

lemma held_run:
  "daemon_run s es t \<Longrightarrow> concat (map event_bytes es) @ held t = held s @ concat (map read_bytes es)"
proof (induction rule: daemon_run.induct)
  case (Cons s e t es u)
  have "concat (map event_bytes (e # es)) @ held u = event_bytes e @ held t @ concat (map read_bytes es)"
    using Cons.IH by simp
  also have "\<dots> = held s @ concat (map read_bytes (e # es))" using held_step [OF Cons.hyps(1)] by simp
  finally show ?case .
qed simp

text \<open>
  C16: every byte that is written goes to the end of exactly one file, in the order it was read from the
  device: the files of the numbers used, one after the other, hold all of it, whatever the signals
  and wherever the daemon stops; a file that was there before is never touched. What has been read and
  is in no file is what the daemon holds between \<open>fread\<close> and \<open>fwrite\<close>; only this is lost when it stops.
\<close>
theorem daemon_keeps_all:
  assumes "daemon_run (daemon_start prefix fs r) es t" and "running (daemon_start prefix fs r)"
    and "n = last_file t"
  shows "logged t n = concat (map event_bytes es) \<and> outfile_prefix t = prefix \<and>
    (\<forall>i. 0 \<le> i \<and> i \<le> n \<longrightarrow> fs (file_name prefix i) = None) \<and>
    (\<forall>f. fs f \<noteq> None \<longrightarrow> files t f = fs f) \<and>
    concat (map read_bytes es) = logged t n @ held t"
proof -
  have ok: "daemon_ok fs [] (daemon_start prefix fs r)" "outfile_prefix (daemon_start prefix fs r) = prefix"
      "held (daemon_start prefix fs r) = []"
    using ok_start [OF refl assms(2)] by simp_all
  from ok_run [OF assms(1) ok(1)] have "daemon_ok fs (concat (map event_bytes es)) t" "outfile_prefix t = prefix"
    by (simp_all add: ok(2))
  moreover have "concat (map event_bytes es) @ held t = concat (map read_bytes es)"
    using held_run [OF assms(1)] by (simp add: ok(3))
  ultimately show ?thesis unfolding daemon_ok_def assms(3) by (auto simp: Let_def)
qed

lemma ex_daemon_start:
  "running (daemon_start ''log'' (\<lambda>_. None :: int list option) Both_Open)"
  "file_name ''log'' 0 = ''log0''" "file_name ''log'' 1 = ''log1''"
proof -
  show n: "file_name ''log'' 0 = ''log0''" "file_name ''log'' 1 = ''log1''"
    unfolding file_name_def by code_simp+
  show "running (daemon_start ''log'' (\<lambda>_. None :: int list option) Both_Open)"
    by (simp add: daemon_start_def Let_def running_def name_fits_def n)
qed

lemma ex_daemon_run:
  "\<exists>t. daemon_run (daemon_start ''log'' (\<lambda>_. None) Both_Open)
      [Enter, Dev_Read [1 :: int, 2], SIGUSR1, Dev_Read [3], Fread_Ret, Fwrite [1, 2, 3], Drained, Close,
       Open_Out True, Open_In True, Resume, Enter, Dev_Read [4], Fread_Ret, Write_Error []] t \<and>
    exit_status t = Some EXIT_SUCCESS \<and> count t = 1 \<and> place_at t = Writing [4]"
  apply (rule exI)
  apply (rule conjI)
   apply (rule daemon_run.Cons, rule enter, simp_all add: daemon_start_def Let_def running_def name_fits_def ex_daemon_start)
   apply (rule daemon_run.Cons, rule dev_read, simp_all add: running_def)
   apply (rule daemon_run.Cons, rule sigusr1, simp_all add: running_def catchSig_def)
   apply (rule daemon_run.Cons, rule dev_read, simp_all add: running_def)
   apply (rule daemon_run.Cons, rule fread_ret, simp_all add: running_def)
    apply simp
   apply (rule daemon_run.Cons, rule fwrite, simp_all add: running_def fwrite_def)
   apply (rule daemon_run.Cons, rule drained, simp_all add: running_def)
   apply (rule daemon_run.Cons, rule close, simp_all add: running_def)
   apply (rule daemon_run.Cons, rule open_out, simp_all add: running_def close_files_def Let_def name_fits_def ex_daemon_start)
   apply (rule daemon_run.Cons, rule open_in, simp_all add: running_def open_outfile_def)
   apply (rule daemon_run.Cons, rule resume, simp_all add: running_def open_infile_def)
   apply (rule daemon_run.Cons, rule enter, simp_all add: running_def resume_def)
   apply (rule daemon_run.Cons, rule dev_read, simp_all add: running_def)
   apply (rule daemon_run.Cons, rule fread_ret, simp_all add: running_def)
    apply simp
   apply (rule daemon_run.Cons, rule write_error [where cs = "[4]"], simp_all add: running_def)
   apply (rule daemon_run.Nil)
  apply simp
  done

lemma daemon_keeps_all_witness:
  "\<exists>t. logged t 1 = [1 :: int, 2, 3] \<and> held t = [4] \<and> count t = 1"
proof -
  obtain t where t: "daemon_run (daemon_start ''log'' (\<lambda>_. None) Both_Open)
      [Enter, Dev_Read [1 :: int, 2], SIGUSR1, Dev_Read [3], Fread_Ret, Fwrite [1, 2, 3], Drained, Close,
       Open_Out True, Open_In True, Resume, Enter, Dev_Read [4], Fread_Ret, Write_Error []] t"
    and e: "count t = 1" "place_at t = Writing [4]"
    using ex_daemon_run by blast
  have h: "last_file t = 1" "held t = [4]" using e by (simp_all add: last_file_def held_def)
  from daemon_keeps_all [OF t ex_daemon_start(1) h(1) [symmetric]] have "logged t 1 = [1, 2, 3]" by simp
  with h(2) e(1) show ?thesis by blast
qed

subsection \<open>A request for the next file is served\<close>




















end
