(* ===== verification/Log_Pipeline.thy ===== *)
theory Log_Pipeline
  imports Decode_Log Log_Daemon
begin

text \<open>
  The way of a log entry: the scheduler puts it on the log of the kernel module (\<open>log.c\<close>), the daemon
  (\<open>seekerlogd.c\<close>) reads the device and writes files, the decoder (\<open>decodelog.c\<close>) turns the files into
  text. The device hands out whole entries only, so the elements of the daemon's files are entries.
\<close>

subsection \<open>Runs of the kernel log and the daemon\<close>

text \<open>
  A writer in the kernel, a read of \<open>cnt\<close> bytes of the device inside the daemon's \<open>fread\<close>, or another step
  of the daemon: a return of \<open>fread\<close>, a write, a failed read or write, a stage of a rotation, a signal. The
  daemon sees what the read of the device returns: some entries, or nothing.
\<close>

datatype pipe_event = Write log_t | Read nat | Act "log_t event"

definition is_dev_read :: "'b event \<Rightarrow> bool" where
  "is_dev_read e \<longleftrightarrow> (case e of Dev_Read _ \<Rightarrow> True | _ \<Rightarrow> False)"

inductive pipe_step ::
    "kenv \<Rightarrow> 'a log_st_scheme \<times> log_t daemon \<Rightarrow> pipe_event \<Rightarrow> log_t list \<Rightarrow> 'a log_st_scheme \<times> log_t daemon \<Rightarrow> bool"
  for env :: kenv where
  log_it: "pipe_step env (s, d) (Write e) (if log_ready env s then [e] else []) (log_entry env e s, d)"
| read_it: "\<lbrakk>log_take cnt s = Some (xs, t); xs \<noteq> []; daemon_step d (Dev_Read xs) d'\<rbrakk>
     \<Longrightarrow> pipe_step env (s, d) (Read cnt) [] (t, d')"
| read_none: "\<lbrakk>log_take cnt s = Some ([], t); running d; place_at d = Reading acc\<rbrakk>
     \<Longrightarrow> pipe_step env (s, d) (Read cnt) [] (t, d)"
| act_it: "\<lbrakk>daemon_step d e d'; \<not> is_dev_read e\<rbrakk> \<Longrightarrow> pipe_step env (s, d) (Act e) [] (s, d')"

text \<open>The list of a run is what the log accepted along it.\<close>

inductive pipe_run ::
    "kenv \<Rightarrow> 'a log_st_scheme \<times> log_t daemon \<Rightarrow> pipe_event list \<Rightarrow> log_t list \<Rightarrow> 'a log_st_scheme \<times> log_t daemon \<Rightarrow> bool"
  for env :: kenv where
  Nil: "pipe_run env c [] [] c"
| Cons: "\<lbrakk>pipe_step env c e as c'; pipe_run env c' es bs c''\<rbrakk> \<Longrightarrow> pipe_run env c (e # es) (as @ bs) c''"

inductive_cases pipe_stepE: "pipe_step env c e as c'"

subsection \<open>Nothing is lost on the way\<close>

text \<open>
  What the daemon has written, what it holds and what is still pending are what the log accepted.
\<close>

definition in_transit ::
    "kenv \<Rightarrow> (string \<Rightarrow> log_t list option) \<Rightarrow> log_t list \<Rightarrow> 'a log_st_scheme \<times> log_t daemon \<Rightarrow> bool" where
  "in_transit env fs es c \<longleftrightarrow>
     (\<exists>bs rest. daemon_ok fs bs (snd c) \<and> log_abs (fst c) rest \<and> log_cachep (fst c) \<and> alloc_fresh env \<and>
       bs @ held (snd c) @ rest = es)"

lemma read_bytes_quiet: "\<not> is_dev_read e \<Longrightarrow> read_bytes e = []"
  by (cases e) (auto simp: is_dev_read_def)

lemma log_taken:
  assumes "log_take cnt s = Some (xs, t)" and "log_abs s rest" and "log_cachep s" and "alloc_fresh (env :: kenv)"
  shows "\<exists>rest'. rest = xs @ rest' \<and> log_abs t rest' \<and> log_cachep t"
proof -
  obtain k where "(xs, (env, t)) = (take k rest, (env, t))" "log_abs t (drop k rest)" "log_cachep t"
    using lq.take_abs [of "(env, s)" rest cnt] assms by auto
  then show ?thesis by (intro exI [of _ "drop k rest"]) simp
qed

lemma transit_step:
  assumes "pipe_step env c e as c'" and "in_transit env fs es c"
  shows "in_transit env fs (es @ as) c'"
proof -
  obtain bs rest where inv: "daemon_ok fs bs (snd c)" "log_abs (fst c) rest" "log_cachep (fst c)" "alloc_fresh env"
      "es = bs @ held (snd c) @ rest"
    using assms(2) by (auto simp: in_transit_def)
  from assms(1) show ?thesis
  proof (cases rule: pipe_step.cases)
    case (log_it s d x)
    have "log_abs (log_entry env x s) (rest @ as)"
      using log_entry_abs_cases [of s rest env x] inv log_it by (simp split: if_splits)
    then show ?thesis
      using inv log_it unfolding in_transit_def by (intro exI [of _ bs] exI [of _ "rest @ as"]) auto
  next
    case (read_it cnt s xs t d d')
    from log_taken [OF read_it(5)] inv read_it(1) obtain rest' where
        r: "rest = xs @ rest'" "log_abs t rest'" "log_cachep t" by auto
    have "daemon_ok fs bs d'" "held d' = held d @ xs"
      using ok_step [OF read_it(7), of fs bs] held_step [OF read_it(7)] inv(1) read_it(1) by simp_all
    then show ?thesis
      using inv r read_it(1,3,4) unfolding in_transit_def by (intro exI [of _ bs] exI [of _ rest']) simp
  next
    case (read_none cnt s t d acc)
    from log_taken [OF read_none(5)] inv read_none(1) have "log_abs t rest" "log_cachep t" by auto
    then show ?thesis using inv read_none(1,3,4) unfolding in_transit_def by auto
  next
    case (act_it d x d' s)
    have "daemon_ok fs (bs @ event_bytes x) d'" "event_bytes x @ held d' = held d"
      using ok_step [OF act_it(5), of fs bs] held_step [OF act_it(5)] inv(1) act_it(1,6)
      by (simp_all add: read_bytes_quiet)
    then have "es = (bs @ event_bytes x) @ held d' @ rest" using inv(5) act_it(1)
      by (metis append.assoc snd_conv)
    with \<open>daemon_ok fs (bs @ event_bytes x) d'\<close> show ?thesis
      using inv act_it(1,3,4) unfolding in_transit_def
      by (intro exI [of _ "bs @ event_bytes x"] exI [of _ rest]) simp
  qed
qed

lemma transit_run:
  "\<lbrakk>pipe_run env c es as c'; in_transit env fs xs c\<rbrakk> \<Longrightarrow> in_transit env fs (xs @ as) c'"
proof (induction arbitrary: xs rule: pipe_run.induct)
  case (Cons c e as c' es bs c'')
  from Cons.IH [OF transit_step [OF Cons.hyps(1) Cons.prems]] show ?case by simp
qed simp

text \<open>The text of separable entries, split at its newlines and commas, gives back their fields.\<close>

lemma decoded_fields:
  assumes "\<forall>e \<in> set es. separable e"
  shows "\<exists>out. decodelog es = Some out \<and> map (tokens '','') (tokens newline out) = map Decode_Log.fields es"
proof -
  have "tokens newline (concat (map (\<lambda>e. join '','' (Decode_Log.fields e) @ newline) es)) = map (\<lambda>e. join '','' (Decode_Log.fields e)) es"
    using tokens_lines [of "map (\<lambda>e. join '','' (Decode_Log.fields e)) es" "CHR 0x0A"] line_plain assms
    by (simp add: newline_def comp_def)
  moreover have "tokens '','' (join '','' (Decode_Log.fields e)) = Decode_Log.fields e" if "e \<in> set es" for e
    using tokens_join [of "Decode_Log.fields e" "CHR '',''"] fields_plain [of e] assms that
    by (auto simp: plain_def plain_char_def)
  ultimately show ?thesis using decodelog_lines [OF assms] by (simp add: comp_def)
qed

text \<open>
  C14: from the scheduler to the text, for entries that were filled and whose names are not empty and hold
  no comma and no newline: however the writers in the kernel, the reads of the device, the daemon's
  writes, its errors, the rotation of the files and the signals interleave, the entries the log
  accepted are, in order, those in the daemon's files, those the daemon holds between \<open>fread\<close> and
  \<open>fwrite\<close> (which are lost if an error or a signal stops it there), and those still in the log; and the
  decoder's text of the files, split at newlines and commas, has exactly the fields of the first ones.
\<close>
theorem log_reaches_text:
  fixes s :: "'a log_st_scheme"
  assumes "log_abs s []" and "log_cachep s" and "alloc_fresh env"
    and "running (daemon_start prefix fs r)"
    and "pipe_run env (s, daemon_start prefix fs r) es as (t, d)"
    and "n = last_file d"
    and "\<forall>a \<in> set as. separable a"
  shows "\<exists>rest out. logged d n @ held d @ rest = as \<and> log_abs t rest \<and> decodelog (logged d n) = Some out \<and>
    map (tokens '','') (tokens newline out) = map Decode_Log.fields (take (length (logged d n)) as)"
proof -
  have "in_transit env fs [] (s, daemon_start prefix fs r)"
    using ok_start [OF refl assms(4)] assms(1-3) by (auto simp: in_transit_def)
  from transit_run [OF assms(5) this] obtain bs rest where
      d: "daemon_ok fs bs d" "log_abs t rest" "bs @ held d @ rest = as"
    by (auto simp: in_transit_def)
  have bs: "logged d n = bs" using d(1) by (auto simp: daemon_ok_def assms(6) Let_def)
  have "\<forall>a \<in> set bs. separable a" using assms(7) d(3) by auto
  from decoded_fields [OF this] obtain out where out: "decodelog bs = Some out"
      "map (tokens '','') (tokens newline out) = map Decode_Log.fields bs"
    by blast
  moreover have "take (length bs) as = bs" by (simp add: d(3) [symmetric])
  ultimately show ?thesis using d(2,3) bs by (intro exI [of _ rest] exI [of _ out]) simp
qed

lemma log_reaches_text_witness:
  "\<exists>d out. decodelog (logged d 0) = Some out \<and>
     tokens newline out = [''t,1,2,9''] \<and> files d ''log0'' = Some [LOG_STATE \<lparr>st_cpu = 1, st_state = 2, residency_time = 9\<rparr>]"
proof -
  let ?e = "LOG_STATE \<lparr>st_cpu = 1, st_state = 2, residency_time = 9\<rparr>"
  let ?s = "snd (log_init ex_env ex_log)"
  define d :: "log_t daemon" where "d = daemon_start ''log'' (\<lambda>_. None) Both_Open"
  define d1 where "d1 = d\<lparr>place_at := Reading [?e]\<rparr>"
  define d2 where "d2 = d\<lparr>place_at := Writing [?e]\<rparr>"
  define d' where "d' = (fwrite [?e] d2)\<lparr>place_at := Reading []\<rparr>"
  define s1 where "s1 = log_entry ex_env ?e ?s"
  define s2 where "s2 = log_entry ex_env ?e s1"
  have d: "running d" "place_at d = Top" "do_sample d = 1" "count d = 0" "files d ''log0'' = Some []"
      "outfile_name d = ''log0''" "outfile_prefix d = ''log''"
    by (simp_all add: d_def daemon_start_def Let_def running_def name_fits_def ex_daemon_start)
  then have run: "running (d\<lparr>place_at := p\<rparr>)" for p by (simp add: running_def)
  have r1: "log_ready ex_env s1"
    by (simp add: s1_def ex_log_simps ex_env_def ex_alloc_def log_init_def log_entry_def get_log_def put_log_def
        set_entry_def log_ready_def Let_def)
  have "log_abs s1 [?e] \<and> log_cachep s1"
    using log_entry_abs_cases [OF ex_log_ready(1) ex_alloc_fresh] ex_log_ready(2,3) by (simp add: s1_def)
  then have "log_abs s2 [?e, ?e] \<and> log_cachep s2"
    using log_entry_abs_cases [of s1 "[?e]" ex_env ?e] ex_alloc_fresh r1 by (simp add: s2_def)
  then obtain t where t: "log_take 88 s2 = Some ([?e], t)"
    using seeker_log_read_abs [of s2 "[?e, ?e]" 88] by (auto simp: log_take_def copied_def sizeof_log_t_def)
  have "pipe_step ex_env (?s, d) (Write ?e) [?e] (s1, d)"
    using pipe_step.log_it [of ex_env ?s d ?e] ex_log_ready(3) by (simp add: s1_def)
  moreover have "pipe_step ex_env (s1, d) (Write ?e) [?e] (s2, d)"
    using pipe_step.log_it [of ex_env s1 d ?e] r1 by (simp add: s2_def)
  moreover have "pipe_step ex_env (s2, d) (Act Enter) [] (s2, d\<lparr>place_at := Reading []\<rparr>)"
    by (rule pipe_step.act_it) (use enter [of d] d in \<open>simp_all add: is_dev_read_def\<close>)
  moreover have "pipe_step ex_env (s2, d\<lparr>place_at := Reading []\<rparr>) (Read 88) [] (t, d1)"
    by (rule pipe_step.read_it [OF t])
       (use dev_read [of "d\<lparr>place_at := Reading []\<rparr>" "[]" "[?e]"] run in \<open>simp_all add: d1_def\<close>)
  moreover have "pipe_step ex_env (t, d1) (Act Fread_Ret) [] (t, d2)"
    by (rule pipe_step.act_it) (use fread_ret [of d1 "[?e]"] run in \<open>simp_all add: d1_def d2_def is_dev_read_def\<close>)
  moreover have "pipe_step ex_env (t, d2) (Act (Fwrite [?e])) [] (t, d')"
    unfolding d'_def by (rule pipe_step.act_it) (use fwrite [of d2 "[?e]"] run in \<open>simp_all add: d2_def is_dev_read_def\<close>)
  ultimately have run: "pipe_run ex_env (?s, daemon_start ''log'' (\<lambda>_. None) Both_Open)
      [Write ?e, Write ?e, Act Enter, Read 88, Act Fread_Ret, Act (Fwrite [?e])]
      ([?e] @ [?e] @ [] @ [] @ [] @ [] @ []) (t, d')"
    unfolding d_def by (blast intro: pipe_run.intros)
  have f: "files d' ''log0'' = Some [?e]" "last_file d' = 0" "outfile_prefix d' = ''log''"
    using d by (simp_all add: d'_def d2_def fwrite_def last_file_def)
  then have l: "logged d' 0 = [?e]" by (simp add: logged_def ex_daemon_start)
  have "\<forall>a \<in> set ([?e] @ [?e] @ [] @ [] @ [] @ [] @ []). separable a" by (simp add: separable_def)
  from log_reaches_text [OF ex_log_ready(1,2) ex_alloc_fresh d(1) [unfolded d_def] run f(2) [symmetric] this] l
  obtain out where out: "decodelog (logged d' 0) = Some out" by auto
  have "dec_int 1 = ''1''" "dec_int 2 = ''2''" "dec_nat 9 = ''9''" by code_simp+
  then have "decodelog [?e] = Some (''t,1,2,9'' @ newline)"
    by (simp add: decode_entry_def fmt_llu_def)
  then have "out = ''t,1,2,9'' @ newline" using out l by simp
  moreover have "tokens newline (''t,1,2,9'' @ newline) = [''t,1,2,9'']"
    using tokens_lines [of "[''t,1,2,9'']" "CHR 0x0A"] by (simp add: newline_def)
  ultimately show ?thesis using out f(1) by blast
qed

end
