(* ===== verification/Knapsack_Prototype.thy ===== *)
theory Knapsack_Prototype
  imports Mutator Script_Array
begin

text \<open>
  The stand-alone knapsack \<open>Scripts/mck.c\<close>, from which the dynamic-programming mutator was developed. Its
  function \<open>mck\<close> reads \<open>dyna[k][b-1]\<close> also at \<open>b = 0\<close>, one cell in front of the row. In memory that is the
  last cell of the row before (\<open>dyna[k-1][MAX_DELTA]\<close>); here it is a cell of its own with an
  arbitrary value that a run does not change, as in memory for every budget below \<open>MAX_DELTA\<close>. The theorem says when the prototype and the
  knapsack of \<open>mutate_dyn.c\<close> compute the same states.
\<close>

subsection \<open>State\<close>

definition PROTO_NR_CPUS :: int where "PROTO_NR_CPUS = 4"
definition PROTO_NR_STATES :: int where "PROTO_NR_STATES = 5"
definition PROTO_MAX_DELTA :: int where "PROTO_MAX_DELTA = PROTO_NR_CPUS * (PROTO_NR_STATES - 1)"

record proto_st =
  proto_cur :: "int arr"
  proto_new :: "int arr"
  proto_demand :: "int arr"
  proto_dyna :: "struct_f arr arr"
  proto_wt :: "int arr arr"

definition PROTO_ABS :: "int \<Rightarrow> int" where
  "PROTO_ABS n = (if 0 < n then n else - 1 * n)"

subsection \<open>The knapsack\<close>

definition proto_weights :: "int \<Rightarrow> int \<Rightarrow> int arr \<Rightarrow> int arr arr \<Rightarrow> int arr arr" where
  "proto_weights n m cur w =
     for_up 0 n (\<lambda>i a. a(i := for_up 0 m (\<lambda>j r. r(j := PROTO_ABS (j - cur i))) (a i))) w"

definition proto_clear :: "int \<Rightarrow> int \<Rightarrow> struct_f arr arr \<Rightarrow> struct_f arr arr" where
  "proto_clear n w t =
     for_up 0 (n + 1) (\<lambda>i a. a(i := for_up 0 (w + 1) (\<lambda>j r. r(j := \<lparr>dyna_f = 0, dyna_sol = - 1\<rparr>)) (a i))) t"

text \<open>The search for the first best element carries \<open>(max, ind)\<close>.\<close>

definition proto_first_cell :: "int \<Rightarrow> int arr arr \<Rightarrow> int arr \<Rightarrow> int \<Rightarrow> struct_f arr \<Rightarrow> struct_f arr" where
  "proto_first_cell m w dem b row =
     (case for_up 0 m (\<lambda>j (mx, ind). if w 0 j \<le> b \<and> mx < dem j then (dem j, j) else (mx, ind)) (- 1, - 1) of
        (mx, ind) \<Rightarrow>
        let row = row(b := (row b)\<lparr>dyna_f := (if 0 < b \<and> mx < dyna_f (row (b - 1)) then dyna_f (row (b - 1)) else mx)\<rparr>)
        in if 0 < mx then row(b := (row b)\<lparr>dyna_sol := ind\<rparr>) else row)"

definition proto_demand1 :: "int arr arr \<Rightarrow> int \<Rightarrow> struct_f arr \<Rightarrow> int \<Rightarrow> int \<Rightarrow> int" where
  "proto_demand1 w k prev b j = (if 0 \<le> b - w (k - 1) j then dyna_f (prev (b - w (k - 1) j)) else 0)"

definition proto_cell ::
    "int \<Rightarrow> int arr arr \<Rightarrow> int arr \<Rightarrow> int \<Rightarrow> struct_f arr \<Rightarrow> int \<Rightarrow> struct_f arr \<Rightarrow> struct_f arr" where
  "proto_cell m w dem k prev b row =
     (case for_up 0 m
        (\<lambda>j (mx, ind).
           let demand1 = proto_demand1 w k prev b j;
               demand2 = demand1 + dem j
           in if w (k - 1) j \<le> b \<and> 0 < demand1 \<and> mx < demand2 then (demand2, j) else (mx, ind)) (- 1, - 1) of
        (mx, ind) \<Rightarrow>
        if mx < dyna_f (row (b - 1)) then row(b := (row b)\<lparr>dyna_f := dyna_f (row (b - 1))\<rparr>)
        else if 0 < mx then row(b := \<lparr>dyna_f = mx, dyna_sol = ind\<rparr>)
        else row)"

definition proto_table :: "int \<Rightarrow> int \<Rightarrow> int \<Rightarrow> int arr arr \<Rightarrow> int arr \<Rightarrow> struct_f arr arr \<Rightarrow> struct_f arr arr" where
  "proto_table n m w wts dem t =
     (let t = proto_clear n w t;
          t = t(1 := for_up 0 (w + 1) (proto_first_cell m wts dem) (t 1))
      in for_up 2 (n + 1) (\<lambda>k t. t(k := for_up 0 (w + 1) (proto_cell m wts dem k (t (k - 1))) (t k))) t)"

definition proto_backtrack :: "int \<Rightarrow> int \<Rightarrow> int arr arr \<Rightarrow> struct_f arr arr \<Rightarrow> int arr \<Rightarrow> int arr" where
  "proto_backtrack n w wts t new =
     snd (for_up 0 n
       (\<lambda>i (b, new).
          let k = n - i; b = first_down (\<lambda>b. 0 \<le> dyna_sol (t k b)) b
          in if 0 \<le> b then (b - wts (k - 1) (dyna_sol (t k b)), new(k - 1 := dyna_sol (t k b))) else (b, new))
       (w, new))"

definition proto_mck :: "int \<Rightarrow> int \<Rightarrow> int \<Rightarrow> proto_st \<Rightarrow> proto_st" where
  "proto_mck n m w s =
     (let s = s\<lparr>proto_wt := proto_weights n m (proto_cur s) (proto_wt s)\<rparr>;
          s = s\<lparr>proto_dyna := proto_table n m w (proto_wt s) (proto_demand s) (proto_dyna s)\<rparr>
      in s\<lparr>proto_new := proto_backtrack n w (proto_wt s) (proto_dyna s) (proto_new s)\<rparr>)"

text \<open>What \<open>mck\<close> prints.\<close>

definition print_table :: "int \<Rightarrow> int \<Rightarrow> struct_f arr arr \<Rightarrow> string" where
  "print_table n w t =
     for_up 0 (n + 1) (\<lambda>k out.
       for_up 0 (w + 1) (\<lambda>b out. out @ dec_int (dyna_f (t k b)) @ '':'' @ dec_int (dyna_sol (t k b)) @ [CHR 0x09]) out
       @ newline) []"

definition proto_static :: proto_st where
  "proto_static =
     \<lparr>proto_cur = (\<lambda>_. 0)(0 := 1, 1 := 1), proto_new = (\<lambda>_. 0),
      proto_demand = (\<lambda>_. 0)(0 := 1, 1 := 1, 2 := 5, 3 := 1, 4 := 1),
      proto_dyna = (\<lambda>_ _. \<lparr>dyna_f = 0, dyna_sol = 0\<rparr>), proto_wt = (\<lambda>_ _. 0)\<rparr>"

definition proto_main :: "proto_st \<Rightarrow> string \<times> proto_st" where
  "proto_main s =
     (let n = 4; m = 5; w = 2;
          cur = proto_cur s;
          s = proto_mck n m w s;
          out = print_table n w (proto_dyna s) @ ''Old Layout: '' @
                for_up 0 n (\<lambda>i out. out @ dec_int (cur i) @ '' '') [] @ newline @ '' State Demand: '' @
                for_up 0 m (\<lambda>j out. out @ dec_int (proto_demand s j - 1) @ '' '') [] @ newline @ ''New Layout: '' @
                for_up 0 n (\<lambda>i out. out @ dec_int (proto_new s i) @ '' '') [] @ newline
      in (out, s\<lparr>proto_cur := for_up 0 n (\<lambda>i c. c(i := proto_new s i)) (proto_cur s)\<rparr>))"

subsection \<open>The prototype and the mutator\<close>

lemma proto_weights_eq: "proto_weights n m cur w = mck_weights n m cur (\<lambda>i. i) w"
proof -
  have "PROTO_ABS = ABS" by (auto simp: fun_eq_iff PROTO_ABS_def ABS_def)
  then show ?thesis by (simp only: proto_weights_def mck_weights_def)
qed

lemma proto_clear_eq: "proto_clear n w t = mck_clear n w t"
proof -
  have "r\<lparr>dyna_f := 0, dyna_sol := - 1\<rparr> = \<lparr>dyna_f = 0, dyna_sol = - 1\<rparr>" for r :: struct_f by (cases r) simp
  then show ?thesis by (simp only: proto_clear_def mck_clear_def)
qed

lemma best_step_prod: "best_step ok val = (\<lambda>j (mx, ind). if ok j \<and> mx < val j then (val j, j) else (mx, ind))"
  by (auto simp: best_step_def fun_eq_iff)

lemma proto_first_cell_eq: "proto_first_cell m w dem = mck_first_cell m w dem"
  by (auto simp: fun_eq_iff proto_first_cell_def mck_first_cell_def best_step_prod set_f_def set_sol_def Let_def
      split: prod.splits)

text \<open>The two cells differ only in the read in front of the row.\<close>

lemma proto_cell_eq:
  assumes "0 \<le> b" and "b = 0 \<Longrightarrow> dyna_f (row (- 1)) \<le> 0 \<and> dyna_f (row 0) = 0"
  shows "proto_cell m w dem k prev b row = mck_cell m w dem k prev b row"
proof -
  define r where "r = for_up 0 m (best_step (\<lambda>j. w (k - 1) j \<le> b \<and> 0 < demand1 w k prev b j)
    (\<lambda>j. demand1 w k prev b j + dem j)) (- 1, - 1)"
  have lo: "- 1 \<le> fst r"
    unfolding r_def by (rule for_up_preserves) (auto simp: best_step_def split: prod.splits)
  have "proto_demand1 w k prev b = demand1 w k prev b"
    by (simp add: fun_eq_iff proto_demand1_def demand1_def)
  then have p: "proto_cell m w dem k prev b row = (case r of (mx, ind) \<Rightarrow>
        if mx < dyna_f (row (b - 1)) then row(b := (row b)\<lparr>dyna_f := dyna_f (row (b - 1))\<rparr>)
        else if 0 < mx then row(b := \<lparr>dyna_f = mx, dyna_sol = ind\<rparr>) else row)"
    by (simp only: proto_cell_def r_def best_step_prod Let_def conj_assoc)
  have q: "mck_cell m w dem k prev b row = (case r of (mx, ind) \<Rightarrow>
        if 0 < b \<and> mx < dyna_f (row (b - 1)) then set_f b (dyna_f (row (b - 1))) row
        else if 0 < mx then set_sol b ind (set_f b mx row) else row)"
    by (simp only: mck_cell_def r_def)
  have one: "\<lparr>dyna_f = mx, dyna_sol = ind\<rparr> = (row b)\<lparr>dyna_f := mx, dyna_sol := ind\<rparr>" for mx ind
    by (cases "row b") simp
  obtain mx ind where r: "r = (mx, ind)" by (cases r)
  show ?thesis
  proof (cases "0 < b \<or> dyna_f (row (b - 1)) \<le> mx")
    case True
    then show ?thesis by (auto simp: p q r one set_f_def set_sol_def)
  next
    case False
    with assms lo r have f: "b = 0" "mx = - 1" "dyna_f (row (- 1)) = 0" "dyna_f (row 0) = 0" by auto
    have "row(0 := (row 0)\<lparr>dyna_f := 0\<rparr>) = row"
      using f(4) by (cases "row 0") (auto simp: fun_eq_iff)
    then show ?thesis unfolding p q r prod.case using f by simp
  qed
qed

lemma for_up_cong_inv:
  assumes "P i s"
    and "\<And>j t. \<lbrakk>i \<le> j; j < n; P j t\<rbrakk> \<Longrightarrow> f j t = g j t \<and> P (j + 1) (g j t)"
  shows "for_up i n f s = for_up i n g s"
  using assms
proof (induction i n f s rule: for_up.induct)
  case (1 i n f s)
  show ?case
  proof (cases "i < n")
    case True
    then have "f i s = g i s" "P (i + 1) (f i s)" using "1.prems"(2) [of i s] "1.prems"(1) by auto
    then show ?thesis
      using "1.IH" [OF True] "1.prems"(2) True by (simp add: for_up_step)
  qed simp
qed

lemma mck_cell_other: "c \<noteq> b \<Longrightarrow> mck_cell m w dem k prev b row c = row c"
  by (auto simp: mck_cell_def set_f_def set_sol_def split: prod.split)

lemma proto_row_eq:
  assumes "dyna_f (row (- 1)) \<le> 0" and "dyna_f (row 0) = 0"
  shows "for_up 0 (w + 1) (proto_cell m wts dem k prev) row = for_up 0 (w + 1) (mck_cell m wts dem k prev) row"
  by (rule for_up_cong_inv [where P = "\<lambda>j t. dyna_f (t (- 1)) \<le> 0 \<and> (j = 0 \<longrightarrow> dyna_f (t 0) = 0)"])
     (use assms proto_cell_eq in \<open>auto simp: mck_cell_other\<close>)

lemma clear_cells:
  assumes "0 \<le> w" and "2 \<le> k" and "k \<le> n"
  shows "dyna_f (mck_clear n w t k 0) = 0 \<and> mck_clear n w t k (- 1) = t k (- 1)"
proof -
  have row: "dyna_f (for_up 0 (w + 1) (\<lambda>j r. r(j := (r j)\<lparr>dyna_f := 0, dyna_sol := - 1\<rparr>)) r 0) = 0 \<and>
      for_up 0 (w + 1) (\<lambda>j r. r(j := (r j)\<lparr>dyna_f := 0, dyna_sol := - 1\<rparr>)) r (- 1) = r (- 1)"
    for r :: "struct_f arr"
  proof -
    have "(0 < w + 1 \<longrightarrow> dyna_f (for_up 0 (w + 1) (\<lambda>j r. r(j := (r j)\<lparr>dyna_f := 0, dyna_sol := - 1\<rparr>)) r 0) = 0) \<and>
        for_up 0 (w + 1) (\<lambda>j r. r(j := (r j)\<lparr>dyna_f := 0, dyna_sol := - 1\<rparr>)) r (- 1) = r (- 1)"
      by (rule for_up_inv [where P = "\<lambda>i s. (0 < i \<longrightarrow> dyna_f (s 0) = 0) \<and> s (- 1) = r (- 1)"])
         (use assms(1) in auto)
    then show ?thesis using assms(1) by simp
  qed
  define clr :: "struct_f arr \<Rightarrow> struct_f arr" where
    "clr = for_up 0 (w + 1) (\<lambda>j r. r(j := (r j)\<lparr>dyna_f := 0, dyna_sol := - 1\<rparr>))"
  have "(k < n + 1 \<longrightarrow> mck_clear n w t k = clr (t k))"
    unfolding mck_clear_def clr_def [symmetric]
    by (rule for_up_inv [where P = "\<lambda>i s. (k < i \<longrightarrow> s k = clr (t k)) \<and> (i \<le> k \<longrightarrow> s k = t k)", THEN conjunct1])
       (use assms in auto)
  with assms(3) row [of "t k"] show ?thesis by (simp add: clr_def)
qed

lemma proto_table_eq:
  assumes "0 \<le> w" and "\<And>k. \<lbrakk>2 \<le> k; k \<le> n\<rbrakk> \<Longrightarrow> dyna_f (t k (- 1)) \<le> 0"
  shows "proto_table n m w wts dem t = mck_table n m w wts dem t"
proof -
  define u where "u = mck_clear n w t"
  define v where "v = u(1 := for_up 0 (w + 1) (mck_first_cell m wts dem) (u 1))"
  have v: "dyna_f (v k 0) = 0" "dyna_f (v k (- 1)) \<le> 0" if "2 \<le> k" "k \<le> n" for k
    using clear_cells [OF assms(1) that, of t] assms(2) [OF that] that by (simp_all add: u_def v_def)
  have "for_up 2 (n + 1) (\<lambda>k t. t(k := for_up 0 (w + 1) (proto_cell m wts dem k (t (k - 1))) (t k))) v =
      for_up 2 (n + 1) (\<lambda>k t. t(k := for_up 0 (w + 1) (mck_cell m wts dem k (t (k - 1))) (t k))) v"
    by (rule for_up_cong_inv
        [where P = "\<lambda>j s. \<forall>k. j \<le> k \<and> 2 \<le> k \<and> k \<le> n \<longrightarrow> dyna_f (s k 0) = 0 \<and> dyna_f (s k (- 1)) \<le> 0"])
       (use v proto_row_eq in auto)
  then show ?thesis
    by (simp only: proto_table_def mck_table_def proto_clear_eq proto_first_cell_eq Let_def u_def v_def)
qed

lemma proto_backtrack_eq: "proto_backtrack n w wts t new = mck_backtrack n w wts (\<lambda>i. i) t new"
proof -
  have "(\<lambda>i (b, new). let k = n - i; b = first_down (\<lambda>b. 0 \<le> dyna_sol (t k b)) b
          in if 0 \<le> b then (b - wts (k - 1) (dyna_sol (t k b)), new(k - 1 := dyna_sol (t k b))) else (b, new)) =
      backtrack_step n wts (\<lambda>i. i) t"
    by (auto simp: fun_eq_iff backtrack_step_def Let_def)
  then show ?thesis by (simp only: proto_backtrack_def mck_backtrack_def)
qed

lemma proto_new_eq:
  assumes "0 \<le> w" and "\<And>k. \<lbrakk>2 \<le> k; k \<le> n\<rbrakk> \<Longrightarrow> dyna_f (proto_dyna s k (- 1)) \<le> 0"
  shows "proto_new (proto_mck n m w s) = dyn_new_cpu_state (mck n m w (proto_cur s)
    \<lparr>dyn_new_states = ns, cpu_awake_proxy = (\<lambda>i. i), put_to_sleep = ps, dyn_new_cpu_state = proto_new s,
      dyn_demand = proto_demand s, dyna = proto_dyna s, wt = proto_wt s\<rparr>)"
  by (simp add: proto_mck_def mck_def Let_def proto_weights_eq
      proto_table_eq [of w n "proto_dyna s", OF assms(1,2)] proto_backtrack_eq)

text \<open>
  C32: the prototype chooses the same states as the knapsack of the mutator, from the same weights,
  demands and current states, whenever no cell in front of a row, which the prototype reads for the
  budget -1, holds a positive value.
\<close>
theorem prototype_agrees:
  fixes d :: dyn_vars
  assumes "0 \<le> w" and "\<And>k. \<lbrakk>2 \<le> k; k \<le> n\<rbrakk> \<Longrightarrow> dyna_f (proto_dyna s k (- 1)) \<le> 0"
    and "d = \<lparr>dyn_new_states = ns, cpu_awake_proxy = (\<lambda>i. i), put_to_sleep = ps, dyn_new_cpu_state = proto_new s,
      dyn_demand = proto_demand s, dyna = proto_dyna s, wt = proto_wt s\<rparr>"
  shows "proto_new (proto_mck n m w s) = dyn_new_cpu_state (mck n m w (proto_cur s) d)"
  unfolding assms(3) by (rule proto_new_eq) (use assms(1,2) in auto)

lemma static_cells: "dyna_f (proto_dyna proto_static k b) = 0"
  by (simp add: proto_static_def)

lemma prototype_agrees_witness:
  "proto_new (proto_mck 4 5 2 proto_static) =
     dyn_new_cpu_state (mck 4 5 2 (proto_cur proto_static)
       \<lparr>dyn_new_states = (\<lambda>_. undefined), cpu_awake_proxy = (\<lambda>i. i), put_to_sleep = (\<lambda>_. 0),
        dyn_new_cpu_state = proto_new proto_static, dyn_demand = proto_demand proto_static,
        dyna = proto_dyna proto_static, wt = proto_wt proto_static\<rparr>)"
  by (rule prototype_agrees) (simp_all add: static_cells)

text \<open>On its built-in data \<open>main\<close> moves the CPUs by two states in total and serves a demand of twelve.\<close>

lemma proto_main_optimal:
  defines "new \<equiv> proto_cur (snd (proto_main proto_static))"
  shows "choice_ok 4 5 new \<and> (\<Sum>c\<in>{0..<4}. \<bar>new c - proto_cur proto_static c\<bar>) \<le> 2 \<and>
    12 \<le> (\<Sum>c\<in>{0..<4}. proto_demand proto_static (new c))"
proof -
  let ?d = "\<lparr>dyn_new_states = (\<lambda>_. undefined), cpu_awake_proxy = (\<lambda>i. i), put_to_sleep = (\<lambda>_. 0),
    dyn_new_cpu_state = proto_new proto_static, dyn_demand = proto_demand proto_static,
    dyna = proto_dyna proto_static, wt = proto_wt proto_static\<rparr>"
  define m where "m = dyn_new_cpu_state (mck 4 5 2 (proto_cur proto_static) ?d)"
  have four: "{0..<4} = {0, 1, 2, 3 :: int}" by auto
  have "new c = proto_new (proto_mck 4 5 2 proto_static) c" if "0 \<le> c" "c < 4" for c
  proof -
    have "c = 0 \<or> c = 1 \<or> c = 2 \<or> c = 3" using that by auto
    then show ?thesis by (auto simp: new_def proto_main_def Let_def for_up_step)
  qed
  moreover have "proto_new (proto_mck 4 5 2 proto_static) = m"
    unfolding m_def by (rule proto_new_eq) (simp_all add: static_cells)
  ultimately have new: "new c = m c" if "0 \<le> c" "c < 4" for c using that by simp
  have "choice_ok 4 5 m \<and> (\<Sum>c\<in>{0..<4}. \<bar>m c - proto_cur proto_static c\<bar>) \<le> 2 \<and>
      (\<forall>a. choice_ok 4 5 a \<and> (\<Sum>c\<in>{0..<4}. \<bar>a c - proto_cur proto_static c\<bar>) \<le> 2 \<longrightarrow>
        (\<Sum>c\<in>{0..<4}. proto_demand proto_static (a c)) \<le> (\<Sum>c\<in>{0..<4}. proto_demand proto_static (m c)))"
    using mck_result [of 4 2 5 ?d "proto_cur proto_static"] by (simp add: m_def inj_on_def proto_static_def)
  moreover have "choice_ok 4 5 ((\<lambda>_. 0)(0 := 2, 1 := 2))" by (auto simp: choice_ok_def)
  moreover have "(\<Sum>c\<in>{0..<4}. \<bar>((\<lambda>_. 0)(0 := 2, 1 := 2)) c - proto_cur proto_static c\<bar>) = 2"
    "(\<Sum>c\<in>{0..<4::int}. proto_demand proto_static (((\<lambda>_. 0)(0 := 2, 1 := 2)) c)) = 12"
    unfolding four by (simp_all add: proto_static_def)
  ultimately have "choice_ok 4 5 m" "(\<Sum>c\<in>{0..<4}. \<bar>m c - proto_cur proto_static c\<bar>) \<le> 2"
      "12 \<le> (\<Sum>c\<in>{0..<4}. proto_demand proto_static (m c))"
    by (auto dest!: spec [of _ "(\<lambda>_. 0)(0 := 2, 1 := 2)"])
  then show ?thesis using new by (auto simp: choice_ok_def)
qed

text \<open>A stray cell in front of a row can change the choice.\<close>

lemma stray_cell:
  "map (proto_new (proto_mck 2 2 1
     (proto_static\<lparr>proto_dyna := (\<lambda>k b. if k = 2 \<and> b = - 1 then \<lparr>dyna_f = 100, dyna_sol = 0\<rparr> else \<lparr>dyna_f = 0, dyna_sol = 0\<rparr>)\<rparr>)))
     [0, 1] = [0, 0]"
  by code_simp

end
