(* ===== verification/Data_Tools.thy ===== *)
theory Data_Tools
  imports Complex_Main Script_Array
begin

text \<open>
  What the three analysis tools of \<open>Scripts\<close> share: the array template at the element type \<open>double\<close>, and
  the reading and writing of rows of text. Floating-point arithmetic is a parameter of the tools, the
  record \<open>arith\<close>; so are \<open>atof\<close> and the formatting of a number on a stream. \<open>exact R\<close> says that the
  arithmetic of \<open>R\<close> is that of an ordered field, which is what the formulas of the tools are about.
\<close>

subsection \<open>Arithmetic\<close>

record 'f arith =
  dzero :: 'f
  dint :: "int \<Rightarrow> 'f"
  dadd :: "'f \<Rightarrow> 'f \<Rightarrow> 'f"
  dsub :: "'f \<Rightarrow> 'f \<Rightarrow> 'f"
  dmul :: "'f \<Rightarrow> 'f \<Rightarrow> 'f"
  dquo :: "'f \<Rightarrow> 'f \<Rightarrow> 'f"
  dpow :: "'f \<Rightarrow> 'f \<Rightarrow> 'f"
  dless :: "'f \<Rightarrow> 'f \<Rightarrow> bool"
  dleq :: "'f \<Rightarrow> 'f \<Rightarrow> bool"
  deq :: "'f \<Rightarrow> 'f \<Rightarrow> bool"
  dread :: "string \<Rightarrow> 'f"
  dshow :: "'f \<Rightarrow> string"

definition exact :: "'f :: linordered_field arith \<Rightarrow> bool" where
  "exact R \<longleftrightarrow> dzero R = 0 \<and> dint R = of_int \<and> dadd R = (+) \<and> dsub R = (-) \<and> dmul R = (*) \<and>
     dquo R = (/) \<and> dless R = (<) \<and> dleq R = (\<le>) \<and> deq R = (=)"

lemma exact_simps:
  assumes "exact R"
  shows "dzero R = 0" "dint R = of_int" "dadd R = (+)" "dsub R = (-)" "dmul R = (*)" "dquo R = (/)"
    "dless R = (<)" "dleq R = (\<le>)" "deq R = (=)"
  using assms by (simp_all add: exact_def)

definition rat_arith :: "rat arith" where
  "rat_arith = \<lparr>dzero = 0, dint = of_int, dadd = (+), dsub = (-), dmul = (*), dquo = (/), dpow = (\<lambda>x _. x),
     dless = (<), dleq = (\<le>), deq = (=), dread = (\<lambda>s. of_int (atoi s)), dshow = (\<lambda>x. dec_int \<lfloor>x\<rfloor>)\<rparr>"

lemma exact_rat: "exact rat_arith"
  by (simp add: exact_def rat_arith_def)

subsection \<open>Arrays\<close>

text \<open>\<open>a = b\<close> keeps the rest of a longer \<open>a\<close>.\<close>

definition darr_assign :: "'f list \<Rightarrow> 'f list \<Rightarrow> 'f list" where
  "darr_assign xs N = N @ drop (length N) xs"

definition darr_new :: "'f arith \<Rightarrow> nat \<Rightarrow> 'f list" where
  "darr_new R num = replicate num (dzero R)"

definition darr_data :: "'f list \<Rightarrow> int \<Rightarrow> 'f option" where
  "darr_data xs index =
     (let n = int (length xs) in
      if 0 \<le> index \<and> index < n then Some (xs ! nat index)
      else if index < 0 \<and> 0 \<le> index + n then Some (xs ! nat (index + n))
      else None)"

text \<open>
  The binary operators combine the common part; with a longer argument its rest is lost (the cells
  are zero, \<open>Script_Array\<close>), otherwise the rest of the left operand is kept.
\<close>

definition darr_rest :: "'f arith \<Rightarrow> 'f list \<Rightarrow> 'f list \<Rightarrow> 'f list" where
  "darr_rest R xs A =
     (if length A \<le> length xs then drop (length A) xs else replicate (length A - length xs) (dzero R))"

definition darr_add :: "'f arith \<Rightarrow> 'f list \<Rightarrow> 'f list \<Rightarrow> 'f list" where
  "darr_add R xs A = map2 (dadd R) xs A @ darr_rest R xs A"

definition darr_sub :: "'f arith \<Rightarrow> 'f list \<Rightarrow> 'f list \<Rightarrow> 'f list" where
  "darr_sub R xs A = map2 (dsub R) xs A @ darr_rest R xs A"

definition darr_sub_scalar :: "'f arith \<Rightarrow> 'f list \<Rightarrow> 'f \<Rightarrow> 'f list" where
  "darr_sub_scalar R xs B = map (\<lambda>x. dsub R x B) xs"

definition darr_scale :: "'f arith \<Rightarrow> 'f list \<Rightarrow> 'f \<Rightarrow> 'f list" where
  "darr_scale R xs B = map (\<lambda>x. dmul R x B) xs"

definition darr_div_scalar :: "'f arith \<Rightarrow> 'f list \<Rightarrow> 'f \<Rightarrow> 'f list" where
  "darr_div_scalar R xs B = map (\<lambda>x. if \<not> deq R B (dzero R) then dquo R x B else dzero R) xs"

text \<open>\<open>+=\<close> takes over the rest of a longer argument; \<open>/=\<close> with zero does nothing.\<close>

definition darr_plus_eq :: "'f arith \<Rightarrow> 'f list \<Rightarrow> 'f list \<Rightarrow> 'f list" where
  "darr_plus_eq R xs A = map2 (dadd R) xs A @ drop (length A) xs @ drop (length xs) A"

definition darr_div_eq :: "'f arith \<Rightarrow> 'f list \<Rightarrow> 'f \<Rightarrow> 'f list" where
  "darr_div_eq R xs A = map (\<lambda>x. if \<not> deq R A (dzero R) then dquo R x A else x) xs"

definition darr_max :: "'f arith \<Rightarrow> 'f list \<Rightarrow> 'f list \<Rightarrow> 'f list" where
  "darr_max R A B = map2 (\<lambda>a b. if dless R b a then a else b) A B @ drop (length B) A @ drop (length A) B"

definition darr_min :: "'f arith \<Rightarrow> 'f list \<Rightarrow> 'f list \<Rightarrow> 'f list" where
  "darr_min R A B = map2 (\<lambda>a b. if dless R a b then a else b) A B @ drop (length B) A @ drop (length A) B"

subsection \<open>Rows of text\<close>

definition split_double :: "'f arith \<Rightarrow> string \<Rightarrow> string \<Rightarrow> 'f list" where
  "split_double R sep str = map (dread R) (tokens sep str)"

definition darr_fprint :: "'f arith \<Rightarrow> string \<Rightarrow> 'f list \<Rightarrow> string" where
  "darr_fprint R sep xs = (if xs = [] then [] else join sep (map (dshow R) xs) @ newline)"

text \<open>Data whose rows all have \<open>L\<close> columns.\<close>

definition rectangular :: "nat \<Rightarrow> 'f list list \<Rightarrow> bool" where
  "rectangular L data \<longleftrightarrow> (\<forall>r \<in> set data. length r = L)"

subsection \<open>Cells\<close>

lemma length_darr [simp]:
  "length (darr_add R xs A) = max (length xs) (length A)" "length (darr_sub R xs A) = max (length xs) (length A)"
  "length (darr_sub_scalar R xs B) = length xs" "length (darr_scale R xs B) = length xs"
  "length (darr_div_scalar R xs B) = length xs" "length (darr_plus_eq R xs A) = max (length xs) (length A)"
  "length (darr_div_eq R xs B) = length xs" "length (darr_new R n) = n"
  "length (darr_max R xs A) = max (length xs) (length A)" "length (darr_min R xs A) = max (length xs) (length A)"
  "length (darr_assign xs A) = max (length xs) (length A)"
  by (auto simp: darr_add_def darr_sub_def darr_sub_scalar_def darr_scale_def darr_div_scalar_def darr_plus_eq_def
      darr_div_eq_def darr_new_def darr_max_def darr_min_def darr_assign_def darr_rest_def)

lemma nth_darr:
  assumes "j < length xs" and "length A = length xs"
  shows "darr_add R xs A ! j = dadd R (xs ! j) (A ! j)" "darr_sub R xs A ! j = dsub R (xs ! j) (A ! j)"
    "darr_plus_eq R xs A ! j = dadd R (xs ! j) (A ! j)"
    "darr_max R xs A ! j = (if dless R (A ! j) (xs ! j) then xs ! j else A ! j)"
    "darr_min R xs A ! j = (if dless R (xs ! j) (A ! j) then xs ! j else A ! j)"
  using assms
  by (simp_all add: darr_add_def darr_sub_def darr_plus_eq_def darr_max_def darr_min_def nth_append)

lemma nth_darr_scalar:
  assumes "j < length xs"
  shows "darr_sub_scalar R xs B ! j = dsub R (xs ! j) B" "darr_scale R xs B ! j = dmul R (xs ! j) B"
    "darr_div_scalar R xs B ! j = (if \<not> deq R B (dzero R) then dquo R (xs ! j) B else dzero R)"
    "darr_div_eq R xs B ! j = (if \<not> deq R B (dzero R) then dquo R (xs ! j) B else xs ! j)"
  using assms
  by (simp_all add: darr_sub_scalar_def darr_scale_def darr_div_scalar_def darr_div_eq_def)

lemma darr_assign_same [simp]: "length xs \<le> length N \<Longrightarrow> darr_assign xs N = N"
  by (simp add: darr_assign_def)

lemma nth_darr_new [simp]: "j < n \<Longrightarrow> darr_new R n ! j = dzero R"
  by (simp add: darr_new_def)

text \<open>The operators at \<open>int\<close> are those of \<open>Script_Array\<close>: the two instances of the template agree.\<close>

definition int_arith :: "int arith" where
  "int_arith = \<lparr>dzero = 0, dint = (\<lambda>i. i), dadd = (+), dsub = (-), dmul = (*), dquo = c_quot, dpow = (\<lambda>x _. x),
     dless = (<), dleq = (\<le>), deq = (=), dread = atoi, dshow = dec_int\<rparr>"

lemma int_arith_simps [simp]:
  "dzero int_arith = 0" "dadd int_arith = (+)" "dsub int_arith = (-)" "dmul int_arith = (*)" "dshow int_arith = dec_int"
  "dread int_arith = atoi" "dless int_arith = (<)"
  by (simp_all add: int_arith_def)

lemma cell_map2:
  "\<lbrakk>0 \<le> i; i < len xs; i < len A\<rbrakk> \<Longrightarrow> cell (map2 f xs A @ ys) i = f (cell xs i) (cell A i)"
  by (auto simp: cell_def len_def nth_append nat_less_iff)

lemma cell_rest:
  "\<lbrakk>0 \<le> i; min (len xs) (len A) \<le> i\<rbrakk> \<Longrightarrow> cell (map2 f xs A @ ys) i = cell ys (i - min (len xs) (len A))"
  by (auto simp: cell_def len_def nth_append nat_diff_distrib min_def)

lemma add_instances: "darr_add int_arith xs A = add_array xs A"
proof (rule array_eqI)
  show "len (darr_add int_arith xs A) = len (add_array xs A)"
    by (auto simp: add_array_def both_len_def) (auto simp: len_def)
next
  fix i assume i: "0 \<le> i" "i < len (add_array xs A)"
  then have l: "i < max (len xs) (len A)" by (auto simp: add_array_def both_len_def split: if_splits)
  show "cell (darr_add int_arith xs A) i = cell (add_array xs A) i"
  proof (cases "i < min (len xs) (len A)")
    case True
    then have "cell (darr_add int_arith xs A) i = cell xs i + cell A i"
      using i(1) by (simp add: darr_add_def cell_map2)
    then show ?thesis using True i(1) by (auto simp: add_array_def both_len_def)
  next
    case False
    then have c: "cell (darr_add int_arith xs A) i = cell (darr_rest int_arith xs A) (i - min (len xs) (len A))"
      unfolding darr_add_def by (intro cell_rest i(1)) linarith
    have rest: "darr_rest int_arith xs A =
        (if len A \<le> len xs then drop (length A) xs else replicate (length A - length xs) 0)"
      by (simp add: darr_rest_def len_def)
    show ?thesis
    proof (cases "len A \<le> len xs")
      case True
      then have "cell (drop (length A) xs) (i - len A) = cell xs i"
        using False l cell_drop [of "i - len A" "length A" xs] by (simp add: len_def)
      then show ?thesis
        using c True False i(1) l by (auto simp: rest add_array_def both_len_def)
    next
      case shorter: False
      then have "cell (replicate (length A - length xs) 0) (i - len xs) = 0"
        using False l by (simp add: cell_def len_def nat_less_iff)
      then show ?thesis
        using c shorter False i(1) l by (auto simp: rest add_array_def both_len_def)
    qed
  qed
qed

lemma assign_instances: "darr_assign xs A = assign xs A"
  by (simp add: darr_assign_def assign_keeps_tail)

lemma split_instances: "split_double int_arith sep s = split_int sep s"
  by (simp add: split_double_def split_int_map)

lemma join_last: "join sep (us @ [v @ r]) = join sep (us @ [v]) @ r"
proof (induction us)
  case (Cons u us)
  then show ?case by (cases us) auto
qed simp

lemma fprint_instances: "darr_fprint int_arith sep xs = fprint_sep xs sep"
proof (cases xs rule: rev_cases)
  case (snoc ys y)
  then show ?thesis by (simp add: darr_fprint_def fprint_sep_join join_last)
qed (simp add: darr_fprint_def fprint_sep_join)

end
