(* ===== verification/Smooth.thy ===== *)
theory Smooth
  imports Data_Tools
begin

text \<open>
  The smoothing of time series (\<open>Scripts/smooth.cpp\<close>): every row becomes a weighted average of the rows
  around it. A file is the list of its complete lines, each short enough for the buffer it is read
  into; a longer line, or a file that cannot be opened, makes \<open>getline\<close> fail without reaching the end
  of the file, and the loop never ends.
\<close>

subsection \<open>The moving average\<close>

text \<open>A row outside the data is a row of zeroes.\<close>

definition row_index :: "'f arith \<Rightarrow> 'f list list \<Rightarrow> int \<Rightarrow> 'f list" where
  "row_index R data ind =
     (if ind < 0 \<or> int (length data) \<le> ind then darr_new R (length (data ! 0)) else data ! nat ind)"

definition mva :: "'f arith \<Rightarrow> 'f list list \<Rightarrow> int \<Rightarrow> int \<Rightarrow> 'f list" where
  "mva R data ind window =
     (let ret = darr_new R (length (data ! 0));
          n = dint R (window + 1);
          ret = darr_assign ret (darr_scale R (data ! nat ind) n);
          ret = for_up 1 (window + 1)
            (\<lambda>i ret. darr_plus_eq R ret
               (darr_scale R (darr_add R (row_index R data (ind - i)) (row_index R data (ind + i))) (dsub R n (dint R i)))) ret
      in darr_div_eq R ret (dmul R n n))"

text \<open>\<open>main\<close> after the arguments are checked: the text of the output file.\<close>

definition smooth_data :: "'f arith \<Rightarrow> string list \<Rightarrow> 'f list list" where
  "smooth_data R lines = map (split_double R '','') (tl lines)"

definition smooth :: "'f arith \<Rightarrow> string list \<Rightarrow> int \<Rightarrow> string" where
  "smooth R lines window_length =
     (let header = (if lines = [] then [] else hd lines);
          data = smooth_data R lines
      in snd (for_up 0 (int (length data))
           (\<lambda>i (out, text). let out = darr_assign out (mva R data i window_length)
              in (out, text @ darr_fprint R '','' out))
           ([], header @ newline)))"

definition smooth_main :: "'f arith \<Rightarrow> (string \<Rightarrow> string list) \<Rightarrow> string list \<Rightarrow> (string \<times> string) option" where
  "smooth_main R file argv =
     (if length argv \<noteq> 4 then None else Some (argv ! 2, smooth R (file (argv ! 1)) (atoi (argv ! 3))))"

subsection \<open>The window\<close>

text \<open>The value of column \<open>j\<close> in row \<open>i\<close>, zero outside the data.\<close>

definition value_at :: "'f :: linordered_field list list \<Rightarrow> int \<Rightarrow> nat \<Rightarrow> 'f" where
  "value_at data i j = (if 0 \<le> i \<and> i < int (length data) then data ! nat i ! j else 0)"

lemma row_index_value:
  assumes "exact R" and "rectangular L data" and "data \<noteq> []"
  shows "length (row_index R data i) = L" "j < L \<Longrightarrow> row_index R data i ! j = value_at data i j"
proof -
  have "length (data ! 0) = L" using assms(2,3) by (simp add: rectangular_def)
  moreover have "length (data ! nat i) = L" if "0 \<le> i" "i < int (length data)"
    using assms(2) that by (simp add: rectangular_def nat_less_iff)
  ultimately show "length (row_index R data i) = L" "j < L \<Longrightarrow> row_index R data i ! j = value_at data i j"
    by (auto simp: row_index_def value_at_def exact_simps [OF assms(1)])
qed

lemma mva_loop:
  fixes data :: "'f :: linordered_field list list"
  assumes R: "exact R" and rect: "rectangular L data" and ind: "0 \<le> ind" "ind < int (length data)" and w: "0 \<le> w"
    and n: "n = of_int (w + 1)"
  shows "length (for_up 1 (w + 1) (\<lambda>i ret. darr_plus_eq R ret
             (darr_scale R (darr_add R (row_index R data (ind - i)) (row_index R data (ind + i))) (dsub R n (dint R i))))
             (darr_scale R (data ! nat ind) n)) = L \<and>
    (\<forall>j < L. for_up 1 (w + 1) (\<lambda>i ret. darr_plus_eq R ret
             (darr_scale R (darr_add R (row_index R data (ind - i)) (row_index R data (ind + i))) (dsub R n (dint R i))))
             (darr_scale R (data ! nat ind) n) ! j =
       value_at data ind j * n + (\<Sum>i\<in>{1..<w + 1}. (value_at data (ind - i) j + value_at data (ind + i) j) * (n - of_int i)))"
proof (rule for_up_inv [where P = "\<lambda>m ret. length ret = L \<and> (\<forall>j < L. ret ! j =
    value_at data ind j * n + (\<Sum>i\<in>{1..<m}. (value_at data (ind - i) j + value_at data (ind + i) j) * (n - of_int i)))"])
  have ne: "data \<noteq> []" using ind by auto
  note row = row_index_value [OF R rect ne]
  have "length (data ! nat ind) = L" using rect ind by (simp add: rectangular_def nat_less_iff)
  then show "length (darr_scale R (data ! nat ind) n) = L \<and> (\<forall>j < L. darr_scale R (data ! nat ind) n ! j =
      value_at data ind j * n + (\<Sum>i\<in>{1..<1}. (value_at data (ind - i) j + value_at data (ind + i) j) * (n - of_int i)))"
    using ind by (simp add: nth_darr_scalar exact_simps [OF R] value_at_def)
  fix i ret
  assume i: "1 \<le> i" "i < w + 1" and inv: "length ret = L \<and> (\<forall>j < L. ret ! j =
    value_at data ind j * n + (\<Sum>i\<in>{1..<i}. (value_at data (ind - i) j + value_at data (ind + i) j) * (n - of_int i)))"
  have s: "{1..<i + 1} = insert i {1..<i}" using i(1) by auto
  show "length (darr_plus_eq R ret (darr_scale R (darr_add R (row_index R data (ind - i)) (row_index R data (ind + i)))
        (dsub R n (dint R i)))) = L \<and>
    (\<forall>j < L. darr_plus_eq R ret (darr_scale R (darr_add R (row_index R data (ind - i)) (row_index R data (ind + i)))
        (dsub R n (dint R i))) ! j =
      value_at data ind j * n + (\<Sum>i\<in>{1..<i + 1}. (value_at data (ind - i) j + value_at data (ind + i) j) * (n - of_int i)))"
    using inv row by (simp add: nth_darr nth_darr_scalar exact_simps [OF R] s)
qed (use w in simp)

lemma mva_length:
  assumes "exact R" and "rectangular L data" and "0 \<le> ind" and "ind < int (length data)" and "0 \<le> w"
  shows "length (mva R data ind w) = L"
proof -
  have "0 < length data" using assms(3,4) by linarith
  then have "length (data ! nat ind) = L" "length (data ! 0) = L"
    using assms(2-4) by (simp_all add: rectangular_def nat_less_iff)
  then show ?thesis
    using mva_loop [OF assms refl] by (simp add: mva_def Let_def exact_simps [OF assms(1)])
qed

text \<open>The output has the header and one line for every row.\<close>

lemma smooth_lines:
  fixes R :: "'f :: linordered_field arith"
  assumes "exact R" and "rectangular L (smooth_data R lines)" and "0 \<le> w"
  shows "smooth R lines w = (if lines = [] then [] else hd lines) @ newline @
    concat (map (\<lambda>i. darr_fprint R '','' (mva R (smooth_data R lines) (int i) w)) [0..<length (smooth_data R lines)])"
proof -
  let ?d = "smooth_data R lines" and ?h = "(if lines = [] then [] else hd lines) @ newline"
  let ?body = "\<lambda>i (out, text). let out = darr_assign out (mva R ?d i w) in (out, text @ darr_fprint R '','' out)"
  have "length (fst (for_up 0 (int (length ?d)) ?body ([], ?h))) \<le> L \<and>
    snd (for_up 0 (int (length ?d)) ?body ([], ?h)) =
      ?h @ concat (map (\<lambda>i. darr_fprint R '','' (mva R ?d (int i) w)) [0..<nat (int (length ?d))])"
  proof (rule for_up_inv [where P = "\<lambda>m st. length (fst st) \<le> L \<and> snd st =
      ?h @ concat (map (\<lambda>i. darr_fprint R '','' (mva R ?d (int i) w)) [0..<nat m])"])
    fix i and st :: "'f list \<times> string" assume i: "0 \<le> i" "i < int (length ?d)" and inv: "length (fst st) \<le> L \<and> snd st =
      ?h @ concat (map (\<lambda>i. darr_fprint R '','' (mva R ?d (int i) w)) [0..<nat i])"
    have "length (mva R ?d i w) = L" using mva_length [OF assms(1,2) i assms(3)] .
    moreover have "nat (i + 1) = Suc (nat i)" using i(1) by simp
    ultimately show "length (fst (?body i st)) \<le> L \<and> snd (?body i st) =
      ?h @ concat (map (\<lambda>i. darr_fprint R '','' (mva R ?d (int i) w)) [0..<nat (i + 1)])"
      using inv i(1) by (cases st) (simp add: Let_def)
  qed simp_all
  then show ?thesis by (simp add: smooth_def Let_def)
qed

text \<open>The window folded at its middle.\<close>

lemma sum_symmetric:
  fixes f :: "int \<Rightarrow> 'b :: ab_group_add"
  assumes "0 \<le> w"
  shows "(\<Sum>k\<in>{- w..w}. f k) = f 0 + (\<Sum>i\<in>{1..<w + 1}. f (- i) + f i)"
proof -
  have "{- w..w} = {0} \<union> (uminus ` {1..<w + 1} \<union> {1..<w + 1})" using assms by (auto simp: image_iff)
  moreover have "{0 :: int} \<inter> (uminus ` {1..<w + 1} \<union> {1..<w + 1}) = {}" "uminus ` {1..<w + 1} \<inter> {1..<w + 1} = {}" by auto
  ultimately have "(\<Sum>k\<in>{- w..w}. f k) = f 0 + ((\<Sum>k\<in>uminus ` {1..<w + 1}. f k) + (\<Sum>k\<in>{1..<w + 1}. f k))"
    by (simp add: sum.union_disjoint)
  moreover have "(\<Sum>k\<in>uminus ` {1..<w + 1}. f k) = (\<Sum>i\<in>{1..<w + 1}. f (- i))"
    by (rule trans [OF sum.reindex]) (simp_all add: inj_on_def)
  ultimately show ?thesis by (simp add: sum.distrib)
qed

lemma window_weights:
  "0 \<le> w \<Longrightarrow> (\<Sum>k\<in>{- w..w}. w + 1 - \<bar>k\<bar>) = (w + 1) * (w + 1)" for w :: int
proof (induction w rule: int_ge_induct)
  case (step w)
  have "{- (w + 1)..w + 1} = {- w..w} \<union> {- (w + 1), w + 1}" "{- w..w} \<inter> {- (w + 1), w + 1} = {}" "- (w + 1) \<noteq> w + 1"
    using step.hyps by auto
  then have "(\<Sum>k\<in>{- (w + 1)..w + 1}. w + 1 + 1 - \<bar>k\<bar>) = (\<Sum>k\<in>{- w..w}. (w + 1 - \<bar>k\<bar>) + 1) + 2"
    using step.hyps by (simp add: sum.union_disjoint algebra_simps)
  also have "(\<Sum>k\<in>{- w..w}. (w + 1 - \<bar>k\<bar>) + 1) = (w + 1) * (w + 1) + (2 * w + 1)"
    unfolding sum.distrib step.IH using step.hyps by simp
  finally show ?case by (simp add: algebra_simps)
qed simp

text \<open>
  C34: in exact arithmetic the smoothed row is the average of the rows in a window of twice the length
  and one, with weights that fall off linearly from the middle and add up to one; rows beyond the
  ends count as zero, and what is constant over the whole window stays as it is.
\<close>
theorem smooth_window:
  fixes data :: "'f :: linordered_field list list"
  assumes "exact R" and "rectangular L data" and "0 \<le> ind" and "ind < int (length data)" and "0 \<le> w" and "j < L"
  shows "length (mva R data ind w) = L \<and>
    mva R data ind w ! j = (\<Sum>k\<in>{- w..w}. of_int (w + 1 - \<bar>k\<bar>) / of_int ((w + 1) * (w + 1)) * value_at data (ind + k) j) \<and>
    ((\<forall>k\<in>{- w..w}. value_at data (ind + k) j = c) \<longrightarrow> mva R data ind w ! j = c)"
proof -
  let ?n = "of_int (w + 1) :: 'f"
  have "0 < length data" using assms(3,4) by linarith
  then have len: "length (data ! nat ind) = L" "length (data ! 0) = L"
    using assms(2-4) by (simp_all add: rectangular_def nat_less_iff)
  note loop = mva_loop [OF assms(1-5) refl]
  have "0 < ?n" unfolding of_int_0_less_iff using assms(5) by simp
  then have pos: "?n * ?n \<noteq> 0" by (metis less_irrefl mult_eq_0_iff)
  have "mva R data ind w ! j =
      (value_at data ind j * ?n + (\<Sum>i\<in>{1..<w + 1}. (value_at data (ind - i) j + value_at data (ind + i) j) * (?n - of_int i))) / (?n * ?n)"
    using loop assms(6) pos len by (simp add: mva_def Let_def nth_darr_scalar exact_simps [OF assms(1)])
  also have "value_at data ind j * ?n + (\<Sum>i\<in>{1..<w + 1}. (value_at data (ind - i) j + value_at data (ind + i) j) * (?n - of_int i)) =
      (\<Sum>k\<in>{- w..w}. of_int (w + 1 - \<bar>k\<bar>) * value_at data (ind + k) j)"
    unfolding sum_symmetric [OF assms(5)] by (intro arg_cong2 [where f = "(+)"] sum.cong) (simp_all add: algebra_simps)
  finally have m: "mva R data ind w ! j =
      (\<Sum>k\<in>{- w..w}. of_int (w + 1 - \<bar>k\<bar>) / of_int ((w + 1) * (w + 1)) * value_at data (ind + k) j)"
    by (simp add: sum_divide_distrib)
  have one: "(\<Sum>k\<in>{- w..w}. of_int (w + 1 - \<bar>k\<bar>) / of_int ((w + 1) * (w + 1))) = (1 :: 'f)"
  proof -
    have "(\<Sum>k\<in>{- w..w}. of_int (w + 1 - \<bar>k\<bar>) :: 'f) = of_int ((w + 1) * (w + 1))"
      using window_weights [OF assms(5)] by (metis of_int_sum)
    then show ?thesis using pos by (simp add: sum_divide_distrib [symmetric])
  qed
  have "mva R data ind w ! j = c" if "\<forall>k\<in>{- w..w}. value_at data (ind + k) j = c"
  proof -
    have "mva R data ind w ! j = (\<Sum>k\<in>{- w..w}. of_int (w + 1 - \<bar>k\<bar>) / of_int ((w + 1) * (w + 1))) * c"
      unfolding m sum_distrib_right by (rule sum.cong) (simp_all add: that)
    then show ?thesis using one by simp
  qed
  then show ?thesis using m mva_length [OF assms(1-5)] by blast
qed

lemma smooth_window_witness:
  "mva rat_arith [[2], [2], [2]] 1 1 ! 0 = 2 \<and> mva rat_arith [[2], [2], [2]] 0 1 ! 0 = 3 / 2"
proof -
  let ?d = "[[2], [2], [2 :: rat]]"
  have w: "{- 1..1 :: int} = {- 1, 0, 1}" by auto
  have r: "rectangular 1 ?d" by (simp add: rectangular_def)
  have "mva rat_arith ?d 1 1 ! 0 = 2"
    using smooth_window [OF exact_rat r, of 1 1 0 2] by (simp add: w value_at_def)
  moreover have "mva rat_arith ?d 0 1 ! 0 = 3 / 2"
    using smooth_window [OF exact_rat r, of 0 1 0] by (simp add: w value_at_def)
  ultimately show ?thesis by simp
qed

end
