(* ===== verification/Max_Min.thy ===== *)
theory Max_Min
  imports Data_Tools
begin

text \<open>
  The envelope of several time series (\<open>Scripts/maxmin.cpp\<close>): one file with the maxima, one with the
  minima. As for the other tools a file is the list of its complete lines, each short enough for its
  buffer; \<open>open\<close> clears the state of the stream.
\<close>

subsection \<open>Reading the files\<close>

definition BUFFER_ROWS :: nat where "BUFFER_ROWS = 100000"

definition rows_resize :: "'f list list \<Rightarrow> nat \<Rightarrow> 'f list list" where
  "rows_resize xs nsize = take nsize xs @ replicate (nsize - length xs) []"

record 'f maxmin_st =
  mm_header :: string
  mm_Max :: "'f list list"
  mm_Min :: "'f list list"
  mm_k :: nat
  mm_first :: bool

definition mm_init :: "'f maxmin_st" where
  "mm_init = \<lparr>mm_header = [], mm_Max = replicate BUFFER_ROWS [], mm_Min = replicate BUFFER_ROWS [], mm_k = 0,
     mm_first = True\<rparr>"

definition mm_line :: "'f arith \<Rightarrow> string \<Rightarrow> 'f maxmin_st \<Rightarrow> 'f maxmin_st" where
  "mm_line R Line s =
     (let k = mm_k s;
          s = (if mm_first s then
                 let s = s\<lparr>mm_Max := (mm_Max s)[k := darr_assign (mm_Max s ! k) (split_double R '','' Line)]\<rparr>
                 in s\<lparr>mm_Min := (mm_Min s)[k := darr_assign (mm_Min s ! k) (mm_Max s ! k)]\<rparr>
               else
                 let s = s\<lparr>mm_Max := (mm_Max s)[k := darr_assign (mm_Max s ! k)
                       (darr_max R (mm_Max s ! k) (split_double R '','' Line))]\<rparr>
                 in s\<lparr>mm_Min := (mm_Min s)[k := darr_assign (mm_Min s ! k)
                       (darr_min R (mm_Min s ! k) (split_double R '','' Line))]\<rparr>);
          s = s\<lparr>mm_k := mm_k s + 1\<rparr>;
          s = (if mm_k s = length (mm_Max s)
               then s\<lparr>mm_Max := rows_resize (mm_Max s) (length (mm_Max s) + BUFFER_ROWS)\<rparr> else s)
      in if mm_k s = length (mm_Min s)
         then s\<lparr>mm_Min := rows_resize (mm_Min s) (length (mm_Min s) + BUFFER_ROWS)\<rparr> else s)"

definition mm_file :: "'f arith \<Rightarrow> string list \<Rightarrow> 'f maxmin_st \<Rightarrow> 'f maxmin_st" where
  "mm_file R lines s =
     (let s = s\<lparr>mm_k := 0\<rparr>;
          s = (if mm_header s = [] then s\<lparr>mm_header := (if lines = [] then [] else hd lines)\<rparr> else s);
          s = fold (mm_line R) (tl lines) s
      in s\<lparr>mm_first := False\<rparr>)"

definition maxmin_rows :: "'f arith \<Rightarrow> string list list \<Rightarrow> 'f maxmin_st" where
  "maxmin_rows R files =
     (let s = fold (mm_file R) files mm_init;
          s = s\<lparr>mm_Max := rows_resize (mm_Max s) (mm_k s)\<rparr>
      in s\<lparr>mm_Min := rows_resize (mm_Min s) (mm_k s)\<rparr>)"

text \<open>The names of the two files with their text.\<close>

definition maxmin_main :: "'f arith \<Rightarrow> (string \<Rightarrow> string list) \<Rightarrow> string list \<Rightarrow> ((string \<times> string) \<times> string \<times> string) option" where
  "maxmin_main R file argv =
     (if length argv < 4 then None
      else let s = maxmin_rows R (map file (drop 2 argv));
               heading = mm_header s @ newline;
               output = foldl (\<lambda>(t1, t2) i. (t1 @ darr_fprint R '','' (mm_Max s ! i), t2 @ darr_fprint R '','' (mm_Min s ! i)))
                 (heading, heading) [0..<length (mm_Max s)]
           in Some ((argv ! 1 @ ''.max'', fst output), (argv ! 1 @ ''.min'', snd output)))"

subsection \<open>One row through all files\<close>

definition rows_of :: "'f arith \<Rightarrow> string list \<Rightarrow> 'f list list" where
  "rows_of R lines = map (split_double R '','') (tl lines)"

definition row_at :: "'f list list \<Rightarrow> nat \<Rightarrow> 'f list" where
  "row_at xs i = (if i < length xs then xs ! i else [])"

text \<open>What the files make of row \<open>i\<close> with the operator \<open>f\<close>.\<close>

definition fold_row :: "('f list \<Rightarrow> 'f list \<Rightarrow> 'f list) \<Rightarrow> 'f list list list \<Rightarrow> nat \<Rightarrow> 'f list" where
  "fold_row f ds i = foldl (\<lambda>acc d. if i < length d then f acc (d ! i) else acc) [] ds"

lemma row_at_resize [simp]: "length xs \<le> n \<Longrightarrow> row_at (rows_resize xs n) i = row_at xs i"
  by (auto simp: row_at_def rows_resize_def nth_append)

lemma length_rows_resize [simp]: "length (rows_resize xs n) = n"
  by (simp add: rows_resize_def)

lemma row_at_update: "k < length xs \<Longrightarrow> row_at (xs[k := v]) i = (if i = k then v else row_at xs i)"
  by (auto simp: row_at_def)

lemma row_at_nth: "k < length xs \<Longrightarrow> xs ! k = row_at xs k"
  by (simp add: row_at_def)

lemma darr_empty [simp]:
  "darr_max R [] A = A" "darr_min R [] A = A" "darr_assign [] A = A" "darr_assign A (darr_max R A B) = darr_max R A B"
  "darr_assign A (darr_min R A B) = darr_min R A B"
  by (simp_all add: darr_max_def darr_min_def darr_assign_def)

definition mm_room :: "'f maxmin_st \<Rightarrow> bool" where
  "mm_room s \<longleftrightarrow> mm_k s < length (mm_Max s) \<and> mm_k s < length (mm_Min s)"

lemma BUFFER_pos [simp]: "0 < BUFFER_ROWS" by (simp add: BUFFER_ROWS_def)

text \<open>One line changes one row of each array; in the first file the rows are still empty.\<close>

lemma mm_line_rows:
  assumes "mm_room s" and "mm_first s \<Longrightarrow> row_at (mm_Max s) (mm_k s) = [] \<and> row_at (mm_Min s) (mm_k s) = []"
  shows "mm_room (mm_line R Line s)" "mm_k (mm_line R Line s) = mm_k s + 1" "mm_first (mm_line R Line s) = mm_first s"
    "length (mm_Max s) \<le> length (mm_Max (mm_line R Line s))" "length (mm_Min s) \<le> length (mm_Min (mm_line R Line s))"
    "row_at (mm_Max (mm_line R Line s)) i =
       (if i = mm_k s then darr_max R (row_at (mm_Max s) i) (split_double R '','' Line) else row_at (mm_Max s) i)"
    "row_at (mm_Min (mm_line R Line s)) i =
       (if i = mm_k s then darr_min R (row_at (mm_Min s) i) (split_double R '','' Line) else row_at (mm_Min s) i)"
  using assms by (auto simp: mm_room_def mm_line_def Let_def row_at_update row_at_nth)

lemma mm_lines_rows:
  assumes "mm_room s"
    and "mm_first s \<Longrightarrow> \<forall>i \<ge> mm_k s. row_at (mm_Max s) i = [] \<and> row_at (mm_Min s) i = []"
  shows "mm_room (fold (mm_line R) ls s) \<and> mm_k (fold (mm_line R) ls s) = mm_k s + length ls \<and>
    (\<forall>i. row_at (mm_Max (fold (mm_line R) ls s)) i =
       (if mm_k s \<le> i \<and> i < mm_k s + length ls
        then darr_max R (row_at (mm_Max s) i) (split_double R '','' (ls ! (i - mm_k s))) else row_at (mm_Max s) i) \<and>
     row_at (mm_Min (fold (mm_line R) ls s)) i =
       (if mm_k s \<le> i \<and> i < mm_k s + length ls
        then darr_min R (row_at (mm_Min s) i) (split_double R '','' (ls ! (i - mm_k s))) else row_at (mm_Min s) i))"
  using assms
proof (induction ls arbitrary: s)
  case (Cons l ls)
  let ?s = "mm_line R l s"
  have here: "mm_first s \<Longrightarrow> row_at (mm_Max s) (mm_k s) = [] \<and> row_at (mm_Min s) (mm_k s) = []"
    using Cons.prems(2) by blast
  note line = mm_line_rows [OF Cons.prems(1) here]
  have "mm_first ?s \<Longrightarrow> \<forall>i \<ge> mm_k ?s. row_at (mm_Max ?s) i = [] \<and> row_at (mm_Min ?s) i = []"
    using Cons.prems(2) by (simp add: line)
  note IH = Cons.IH [OF line(1) this]
  have "(l # ls) ! (i - mm_k s) = (if i = mm_k s then l else ls ! (i - mm_k ?s))"
    if "mm_k s \<le> i" for i using that by (auto simp: nth_Cons' line)
  then show ?case using IH by (auto simp: line)
qed auto

lemma mm_file_rows:
  assumes "0 < length (mm_Max s)" "0 < length (mm_Min s)"
    and "mm_first s \<Longrightarrow> \<forall>i. row_at (mm_Max s) i = [] \<and> row_at (mm_Min s) i = []"
  shows "mm_room (mm_file R lines s) \<and> mm_k (mm_file R lines s) = length (rows_of R lines) \<and> \<not> mm_first (mm_file R lines s) \<and>
    (\<forall>i. row_at (mm_Max (mm_file R lines s)) i =
       (if i < length (rows_of R lines) then darr_max R (row_at (mm_Max s) i) (rows_of R lines ! i) else row_at (mm_Max s) i) \<and>
     row_at (mm_Min (mm_file R lines s)) i =
       (if i < length (rows_of R lines) then darr_min R (row_at (mm_Min s) i) (rows_of R lines ! i) else row_at (mm_Min s) i))"
proof -
  define s' where "s' = (if mm_header s = [] then s\<lparr>mm_k := 0, mm_header := (if lines = [] then [] else hd lines)\<rparr>
    else s\<lparr>mm_k := 0\<rparr>)"
  have whole: "mm_file R lines s = (fold (mm_line R) (tl lines) s')\<lparr>mm_first := False\<rparr>"
    by (simp add: mm_file_def s'_def Let_def)
  have s': "mm_k s' = 0" "mm_Max s' = mm_Max s" "mm_Min s' = mm_Min s" "mm_first s' = mm_first s"
    by (simp_all add: s'_def)
  have "mm_room s'" using assms(1,2) by (simp add: mm_room_def s')
  moreover have "mm_first s' \<Longrightarrow> \<forall>i \<ge> mm_k s'. row_at (mm_Max s') i = [] \<and> row_at (mm_Min s') i = []"
    using assms(3) by (simp add: s')
  ultimately show ?thesis
    using mm_lines_rows [of s' R "tl lines"] by (auto simp: whole s' rows_of_def mm_room_def)
qed

lemma mm_files_rows:
  assumes "0 < length (mm_Max s)" "0 < length (mm_Min s)"
    and "mm_first s \<Longrightarrow> \<forall>i. row_at (mm_Max s) i = [] \<and> row_at (mm_Min s) i = []" and "fs \<noteq> []"
  shows "mm_room (fold (mm_file R) fs s) \<and> mm_k (fold (mm_file R) fs s) = length (rows_of R (last fs)) \<and>
    (\<forall>i. row_at (mm_Max (fold (mm_file R) fs s)) i =
       foldl (\<lambda>acc d. if i < length d then darr_max R acc (d ! i) else acc) (row_at (mm_Max s) i) (map (rows_of R) fs) \<and>
     row_at (mm_Min (fold (mm_file R) fs s)) i =
       foldl (\<lambda>acc d. if i < length d then darr_min R acc (d ! i) else acc) (row_at (mm_Min s) i) (map (rows_of R) fs))"
  using assms
proof (induction fs arbitrary: s)
  case (Cons f fs)
  note one = mm_file_rows [OF Cons.prems(1-3), of R f]
  show ?case
  proof (cases "fs = []")
    case True
    then show ?thesis using one by simp
  next
    case False
    have "0 < length (mm_Max (mm_file R f s))" "0 < length (mm_Min (mm_file R f s))"
      using one by (auto simp: mm_room_def)
    moreover have "mm_first (mm_file R f s) \<Longrightarrow> P" for P using one by simp
    ultimately show ?thesis
      using Cons.IH [of "mm_file R f s"] False one by simp
  qed
qed simp

text \<open>The two arrays that are written are the rows folded with maximum and minimum.\<close>

lemma maxmin_folds:
  assumes "fs \<noteq> []"
  shows "length (mm_Max (maxmin_rows R fs)) = length (rows_of R (last fs))"
    "length (mm_Min (maxmin_rows R fs)) = length (rows_of R (last fs))"
    "i < length (rows_of R (last fs)) \<Longrightarrow> mm_Max (maxmin_rows R fs) ! i = fold_row (darr_max R) (map (rows_of R) fs) i"
    "i < length (rows_of R (last fs)) \<Longrightarrow> mm_Min (maxmin_rows R fs) ! i = fold_row (darr_min R) (map (rows_of R) fs) i"
proof -
  have init: "0 < length (mm_Max mm_init)" "0 < length (mm_Min mm_init)" "row_at (mm_Max mm_init) i = []"
      "row_at (mm_Min mm_init) i = []" for i
    by (simp_all add: mm_init_def row_at_def)
  let ?s = "fold (mm_file R) fs mm_init"
  note files = mm_files_rows [OF init(1,2) _ assms, of R, unfolded init, simplified]
  have "take (mm_k ?s) xs ! i = row_at xs i" if "i < mm_k ?s" "mm_k ?s < length xs" for xs :: "'a list list"
    using that by (simp add: row_at_def)
  then show "length (mm_Max (maxmin_rows R fs)) = length (rows_of R (last fs))"
    "length (mm_Min (maxmin_rows R fs)) = length (rows_of R (last fs))"
    "i < length (rows_of R (last fs)) \<Longrightarrow> mm_Max (maxmin_rows R fs) ! i = fold_row (darr_max R) (map (rows_of R) fs) i"
    "i < length (rows_of R (last fs)) \<Longrightarrow> mm_Min (maxmin_rows R fs) ! i = fold_row (darr_min R) (map (rows_of R) fs) i"
    using files by (auto simp: maxmin_rows_def Let_def rows_resize_def mm_room_def nth_append fold_row_def)
qed

subsection \<open>The envelope\<close>

text \<open>The values the files have at row \<open>i\<close> and column \<open>j\<close>.\<close>

definition cells_at :: "'f list list list \<Rightarrow> nat \<Rightarrow> nat \<Rightarrow> 'f set" where
  "cells_at ds i j = (\<lambda>d. d ! i ! j) ` {d \<in> set ds. i < length d}"

lemma fold_row_cells:
  fixes ds :: "'f :: linordered_field list list list"
  assumes R: "exact R" and "\<forall>d \<in> set ds. rectangular L d"
  shows "if \<exists>d \<in> set ds. i < length d
    then length (fold_row (darr_max R) ds i) = L \<and> length (fold_row (darr_min R) ds i) = L \<and>
      (\<forall>j < L. fold_row (darr_max R) ds i ! j = Max (cells_at ds i j) \<and> fold_row (darr_min R) ds i ! j = Min (cells_at ds i j))
    else fold_row (darr_max R) ds i = [] \<and> fold_row (darr_min R) ds i = []"
  using assms(2)
proof (induction ds rule: rev_induct)
  case (snoc d ds)
  then have IH: "if \<exists>d \<in> set ds. i < length d
    then length (fold_row (darr_max R) ds i) = L \<and> length (fold_row (darr_min R) ds i) = L \<and>
      (\<forall>j < L. fold_row (darr_max R) ds i ! j = Max (cells_at ds i j) \<and> fold_row (darr_min R) ds i ! j = Min (cells_at ds i j))
    else fold_row (darr_max R) ds i = [] \<and> fold_row (darr_min R) ds i = []" and d: "rectangular L d"
    by simp_all
  have fr: "fold_row f (ds @ [d]) i = (if i < length d then f (fold_row f ds i) (d ! i) else fold_row f ds i)" for f
    by (simp add: fold_row_def)
  show ?case
  proof (cases "i < length d")
    case False
    then have "cells_at (ds @ [d]) i j = cells_at ds i j" for j by (auto simp: cells_at_def)
    then show ?thesis using IH False by (simp add: fr)
  next
    case here: True
    then have L: "length (d ! i) = L" using d by (simp add: rectangular_def)
    have cells: "cells_at (ds @ [d]) i j = insert (d ! i ! j) (cells_at ds i j)" for j
      using here by (auto simp: cells_at_def)
    show ?thesis
    proof (cases "\<exists>d \<in> set ds. i < length d")
      case False
      then have "cells_at ds i j = {}" for j by (auto simp: cells_at_def)
      then show ?thesis using IH here False by (simp add: fr L cells)
    next
      case True
      then have ne: "cells_at ds i j \<noteq> {}" "finite (cells_at ds i j)" for j by (auto simp: cells_at_def)
      have "darr_max R (fold_row (darr_max R) ds i) (d ! i) ! j = Max (cells_at (ds @ [d]) i j)"
          "darr_min R (fold_row (darr_min R) ds i) (d ! i) ! j = Min (cells_at (ds @ [d]) i j)" if "j < L" for j
        using IH True that L ne [of j]
        by (simp_all add: nth_darr exact_simps [OF R] cells max_def min_def not_le [symmetric]
            del: Max_le_iff Min_ge_iff Max_less_iff Min_gr_iff not_le)
      then show ?thesis using IH here True L by (simp add: fr)
    qed
  qed
qed (simp add: fold_row_def)

text \<open>
  C33: in exact arithmetic every cell of the two files is the largest and the smallest value that the
  given files have there, files that are too short for the row left out; the result has as many rows
  as the last file, whatever the others have.
\<close>
theorem maxmin_envelope:
  fixes R :: "'f :: linordered_field arith"
  assumes "exact R" and "\<forall>f \<in> set files. rectangular L (rows_of R f)" and "files \<noteq> []"
    and "i < length (rows_of R (last files))" and "j < L"
  shows "length (mm_Max (maxmin_rows R files)) = length (rows_of R (last files)) \<and>
    length (mm_Min (maxmin_rows R files)) = length (rows_of R (last files)) \<and>
    mm_Max (maxmin_rows R files) ! i ! j = Max (cells_at (map (rows_of R) files) i j) \<and>
    mm_Min (maxmin_rows R files) ! i ! j = Min (cells_at (map (rows_of R) files) i j)"
proof -
  have "\<exists>d \<in> set (map (rows_of R) files). i < length d" using assms(3,4) by (auto intro: last_in_set)
  moreover have "\<forall>d \<in> set (map (rows_of R) files). rectangular L d" using assms(2) by simp
  ultimately show ?thesis
    using fold_row_cells [OF assms(1), of "map (rows_of R) files" L i] assms(5)
    by (simp add: maxmin_folds [OF assms(3)] assms(4))
qed

lemma maxmin_envelope_witness:
  "mm_Max (maxmin_rows rat_arith [[''h'', ''1,5'', ''7,7''], [''h'', ''3,2'']]) ! 0 ! 0 = 3 \<and>
   mm_Min (maxmin_rows rat_arith [[''h'', ''1,5'', ''7,7''], [''h'', ''3,2'']]) ! 0 ! 1 = 2 \<and>
   length (mm_Max (maxmin_rows rat_arith [[''h'', ''1,5'', ''7,7''], [''h'', ''3,2'']])) = 1"
proof -
  let ?f = "[[''h'', ''1,5'', ''7,7''], [''h'', ''3,2'']]"
  have rows: "map (rows_of rat_arith) ?f = [[[1, 5], [7, 7]], [[3, 2]]]"
    by code_simp
  then have rect: "\<forall>f \<in> set ?f. rectangular 2 (rows_of rat_arith f)" by (auto simp: rectangular_def)
  have both: "{d. (d = [[1, 5], [7, 7 :: rat]] \<or> d = [[3, 2]]) \<and> d \<noteq> []} = {[[1, 5], [7, 7]], [[3, 2]]}"
    by auto
  have "cells_at (map (rows_of rat_arith) ?f) 0 0 = {1, 3}" "cells_at (map (rows_of rat_arith) ?f) 0 1 = {5, 2}"
    unfolding rows by (simp_all add: cells_at_def both)
  then show ?thesis
    using maxmin_envelope [OF exact_rat rect, of 0 0] maxmin_envelope [OF exact_rat rect, of 0 1] rows by simp
qed

end
