(* ===== verification/Interp.thy ===== *)
theory Interp
  imports Data_Tools
begin

text \<open>
  Resampling of a log at regular intervals of the instructions retired (\<open>Scripts/interp.cpp\<close>, the linear
  splines of \<open>interp.h\<close>, the configuration of \<open>iconfig.h\<close>). A file is the list of its complete lines,
  each short enough for its buffer. \<open>None\<close> is a failed \<open>assert\<close> or a spline read past the end of the
  array; not returning is \<open>None\<close> as well.
\<close>

subsection \<open>The configuration\<close>

record operation =
  op_A :: int
  op_oper :: char
  op_B :: int

definition TOTAL_COLUMNS :: nat where "TOTAL_COLUMNS = 3"
definition PRIMARY :: int where "PRIMARY = 3"
definition INSEP :: string where "INSEP = '' ''"
definition OUTSEP :: string where "OUTSEP = '' ''"
definition interp_header :: string where "interp_header = ''INSTR,RE_IPC,RF_IPC,STATE''"

definition operations :: "operation list" where
  "operations =
     [\<lparr>op_A = 6, op_oper = CHR '' '', op_B = 0\<rparr>,
      \<lparr>op_A = 3, op_oper = CHR ''/'', op_B = 4\<rparr>,
      \<lparr>op_A = 7, op_oper = CHR '' '', op_B = 0\<rparr>]"

definition oper :: "'f arith \<Rightarrow> 'f \<Rightarrow> 'f \<Rightarrow> char \<Rightarrow> 'f" where
  "oper R A B c =
     (if c = CHR ''+'' then dadd R A B
      else if c = CHR ''-'' then dsub R A B
      else if c = CHR ''*'' then dmul R A B
      else if c = CHR ''/'' then dquo R A B
      else if c = CHR ''^'' then dpow R A B
      else A)"

text \<open>
  Both operands are read, whether the operator needs them or not. In exact arithmetic a quotient by 0
  is 0; a machine with IEEE arithmetic gives an infinity or no number.
\<close>

definition do_oper :: "'f arith \<Rightarrow> 'f list \<Rightarrow> 'f list option" where
  "do_oper R A = those (map (\<lambda>i. case (darr_data A (op_A (operations ! i)), darr_data A (op_B (operations ! i))) of
       (Some a, Some b) \<Rightarrow> Some (oper R a b (op_oper (operations ! i)))
     | _ \<Rightarrow> None) [0..<TOTAL_COLUMNS])"

subsection \<open>Splines\<close>

record 'f spline =
  slope :: "'f list"
  Yint :: "'f list"
  low :: 'f
  high :: 'f

definition construct :: "'f arith \<Rightarrow> 'f \<Rightarrow> 'f \<Rightarrow> 'f list \<Rightarrow> 'f list \<Rightarrow> 'f spline" where
  "construct R from to Y_from Y_to =
     (let m = darr_div_scalar R (darr_sub R Y_to Y_from) (dsub R to from)
      in \<lparr>slope = m, Yint = darr_sub R Y_from (darr_scale R m from), low = from, high = to\<rparr>)"

text \<open>The overload with a number as the first value.\<close>

definition construct_scalar :: "'f arith \<Rightarrow> 'f \<Rightarrow> 'f \<Rightarrow> 'f \<Rightarrow> 'f list \<Rightarrow> 'f spline" where
  "construct_scalar R from to Y_from Y_to =
     (let m = darr_div_scalar R (darr_sub_scalar R Y_to Y_from) (dsub R to from)
      in \<lparr>slope = m, Yint = darr_scale R (darr_sub_scalar R (darr_scale R m from) Y_from) (dint R (- 1)),
          low = from, high = to\<rparr>)"

definition within_spline :: "'f arith \<Rightarrow> 'f spline \<Rightarrow> 'f \<Rightarrow> bool" where
  "within_spline R s X \<longleftrightarrow> dless R (low s) X \<and> dleq R X (high s)"

definition predict :: "'f arith \<Rightarrow> 'f spline \<Rightarrow> 'f \<Rightarrow> 'f list" where
  "predict R s X = darr_add R (Yint s) (darr_scale R (slope s) X)"

subsection \<open>The program\<close>

text \<open>The first stage: the primary column is summed up, the others are put together per row.\<close>

definition interp_line :: "'f arith \<Rightarrow> string \<Rightarrow> 'f list \<times> 'f list list \<Rightarrow> ('f list \<times> 'f list list) option" where
  "interp_line R Sline xy =
     (let X = fst xy; Sample = split_double R INSEP Sline in
      case darr_data Sample PRIMARY of
        None \<Rightarrow> None
      | Some p \<Rightarrow>
          (let x = (if X = [] then p else dadd R (last X) p) in
           case do_oper R Sample of None \<Rightarrow> None | Some y \<Rightarrow> Some (X @ [x], snd xy @ [y])))"

primrec interp_read :: "'f arith \<Rightarrow> string list \<Rightarrow> 'f list \<times> 'f list list \<Rightarrow> ('f list \<times> 'f list list) option" where
  "interp_read R [] xy = Some xy"
| "interp_read R (l # ls) xy = (case interp_line R l xy of None \<Rightarrow> None | Some xy \<Rightarrow> interp_read R ls xy)"

text \<open>The second stage; an empty file fails at \<open>X[0]\<close>.\<close>

definition interp_splines :: "'f arith \<Rightarrow> 'f list \<Rightarrow> 'f list list \<Rightarrow> 'f spline list option" where
  "interp_splines R X Y =
     (if X = [] then None
      else Some (construct_scalar R (dint R 0) (X ! 0) (dint R 0) (Y ! 0) #
        map (\<lambda>i. construct R (X ! (i - 1)) (X ! i) (Y ! (i - 1)) (Y ! i)) [1..<length X]))"

text \<open>The third stage.\<close>

function find_spline :: "'f arith \<Rightarrow> 'f spline list \<Rightarrow> 'f \<Rightarrow> nat \<Rightarrow> nat option" where
  "find_spline R splines i last_index =
     (if length splines \<le> last_index then None
      else if within_spline R (splines ! last_index) i then Some last_index
      else find_spline R splines i (last_index + 1))"
  by pat_completeness auto
termination by (relation "measure (\<lambda>(R, splines, i, l). length splines - l)") auto

declare find_spline.simps [simp del]

definition interp_row :: "'f arith \<Rightarrow> 'f \<Rightarrow> 'f list \<Rightarrow> string" where
  "interp_row R i ys = darr_fprint R OUTSEP (dquo R i (dint R 1000000) # ys)"

partial_function (option) interp_loop ::
    "'f arith \<Rightarrow> 'f spline list \<Rightarrow> 'f \<Rightarrow> 'f \<Rightarrow> 'f \<Rightarrow> nat \<Rightarrow> string \<Rightarrow> string option" where
  "interp_loop R splines interval end_x i last_index out =
     (if dless R i end_x then
        (case find_spline R splines i last_index of
           None \<Rightarrow> None
         | Some l \<Rightarrow> interp_loop R splines interval end_x (dadd R i interval) l
             (out @ interp_row R i (predict R (splines ! l) i)))
      else Some out)"

definition interp :: "'f arith \<Rightarrow> string list \<Rightarrow> 'f \<Rightarrow> string option" where
  "interp R lines interval =
     (case interp_read R lines ([], []) of
        None \<Rightarrow> None
      | Some (X, Y) \<Rightarrow>
          (case interp_splines R X Y of
             None \<Rightarrow> None
           | Some splines \<Rightarrow> interp_loop R splines interval (last X) interval 0 (interp_header @ newline)))"

text \<open>The name of the output file with its text; \<open>Inl\<close> is the usage message.\<close>

definition interp_main :: "'f arith \<Rightarrow> (string \<Rightarrow> string list) \<Rightarrow> string list \<Rightarrow> unit + (string \<times> string) option" where
  "interp_main R file argv =
     (if length argv \<noteq> 4 then Inl ()
      else Inr (map_option (\<lambda>s. (argv ! 2, s))
        (interp R (file (argv ! 1)) (dmul R (dread R (argv ! 3)) (dint R 1000000)))))"

subsection \<open>What is read\<close>

definition read_ok :: "'f list \<times> 'f list list \<Rightarrow> bool" where
  "read_ok xy \<longleftrightarrow> length (fst xy) = length (snd xy) \<and> (\<forall>y \<in> set (snd xy). length y = TOTAL_COLUMNS)"

lemma those_length: "those os = Some ys \<Longrightarrow> length ys = length os"
  by (induction os arbitrary: ys) (auto split: option.splits)

lemma do_oper_length: "do_oper R A = Some y \<Longrightarrow> length y = TOTAL_COLUMNS"
  by (auto simp: do_oper_def dest!: those_length)

lemma interp_line_ok: "\<lbrakk>interp_line R l xy = Some xy'; read_ok xy\<rbrakk> \<Longrightarrow> read_ok xy'"
  by (auto simp: interp_line_def read_ok_def Let_def split: option.splits dest: do_oper_length)

lemma interp_read_ok: "\<lbrakk>interp_read R ls xy = Some xy'; read_ok xy\<rbrakk> \<Longrightarrow> read_ok xy'"
  by (induction ls arbitrary: xy) (auto split: option.splits dest: interp_line_ok)

subsection \<open>The piecewise linear function\<close>

text \<open>The points start at the origin; \<open>piece X x\<close> is the first point that is not left of \<open>x\<close>.\<close>

definition piece :: "'f :: linordered_field list \<Rightarrow> 'f \<Rightarrow> nat" where
  "piece X x = length (takeWhile (\<lambda>v. v < x) X)"

definition left_x :: "'f :: linordered_field list \<Rightarrow> nat \<Rightarrow> 'f" where
  "left_x X k = (if k = 0 then 0 else X ! (k - 1))"

definition left_y :: "'f :: linordered_field list list \<Rightarrow> nat \<Rightarrow> nat \<Rightarrow> 'f" where
  "left_y Y k j = (if k = 0 then 0 else Y ! (k - 1) ! j)"

definition linear :: "'f :: linordered_field list \<Rightarrow> 'f list list \<Rightarrow> 'f \<Rightarrow> nat \<Rightarrow> 'f" where
  "linear X Y x j =
     (let k = piece X x
      in left_y Y k j + (Y ! k ! j - left_y Y k j) * ((x - left_x X k) / (X ! k - left_x X k)))"

lemma piece_below: "l < piece X x \<Longrightarrow> X ! l < x"
  unfolding piece_def by (metis nth_mem set_takeWhileD takeWhile_nth)

lemma piece_here: "piece X x < length X \<Longrightarrow> x \<le> X ! piece X x"
  unfolding piece_def using nth_length_takeWhile [of "\<lambda>v. v < x" X] by (simp add: not_less)

lemma piece_in: "\<lbrakk>X \<noteq> []; x < last X\<rbrakk> \<Longrightarrow> piece X x < length X"
proof (rule ccontr)
  assume "X \<noteq> []" "x < last X" "\<not> piece X x < length X"
  then have "length X - 1 < piece X x" by (cases X) auto
  then have "last X < x" using piece_below [of "length X - 1" X x] \<open>X \<noteq> []\<close> by (simp add: last_conv_nth)
  with \<open>x < last X\<close> show False by simp
qed

lemma piece_mono: "x \<le> y \<Longrightarrow> piece X x \<le> piece X y"
  unfolding piece_def by (induction X) auto

lemma left_below: "0 < x \<Longrightarrow> left_x X (piece X x) < x"
  by (simp add: left_x_def piece_below)

subsection \<open>The splines are the function\<close>

lemma interp_splines_nth:
  assumes "exact R" and "interp_splines R X Y = Some splines"
  shows "X \<noteq> []" "length splines = length X"
    "k < length X \<Longrightarrow> low (splines ! k) = left_x X k \<and> high (splines ! k) = X ! k"
    "0 < k \<Longrightarrow> k < length X \<Longrightarrow> splines ! k = construct R (X ! (k - 1)) (X ! k) (Y ! (k - 1)) (Y ! k)"
    "splines ! 0 = construct_scalar R 0 (X ! 0) 0 (Y ! 0)"
proof -
  have s: "X \<noteq> []" "splines = construct_scalar R 0 (X ! 0) 0 (Y ! 0) #
      map (\<lambda>i. construct R (X ! (i - 1)) (X ! i) (Y ! (i - 1)) (Y ! i)) [1..<length X]"
    using assms(2) by (simp_all add: interp_splines_def exact_simps [OF assms(1)] split: if_splits)
  then show "X \<noteq> []" "length splines = length X" "splines ! 0 = construct_scalar R 0 (X ! 0) 0 (Y ! 0)"
    by simp_all
  show *: "splines ! k = construct R (X ! (k - 1)) (X ! k) (Y ! (k - 1)) (Y ! k)" if "0 < k" "k < length X" for k
    using that by (simp add: s(2) nth_Cons')
  show "low (splines ! k) = left_x X k \<and> high (splines ! k) = X ! k" if "k < length X"
  proof (cases "k = 0")
    case True
    then show ?thesis by (simp add: s(2) construct_scalar_def left_x_def Let_def)
  next
    case False
    then show ?thesis using * [of k] that by (simp add: construct_def left_x_def Let_def)
  qed
qed

lemma find_spline_piece:
  assumes "exact R" and "interp_splines R X Y = Some splines" and "0 < x" and "x < last X" and "l \<le> piece X x"
  shows "find_spline R splines x l = Some (piece X x)"
  using assms(5)
proof (induction "piece X x - l" arbitrary: l)
  case 0
  note s = interp_splines_nth [OF assms(1,2)]
  have "piece X x < length X" using piece_in s(1) assms(4) by blast
  moreover from this have "within_spline R (splines ! piece X x) x"
    using s(3) left_below [OF assms(3)] piece_here by (simp add: within_spline_def exact_simps [OF assms(1)])
  moreover have "l = piece X x" using 0 by simp
  ultimately show ?case by (simp add: find_spline.simps s(2))
next
  case (Suc n)
  note s = interp_splines_nth [OF assms(1,2)]
  have l: "l < piece X x" "l < length X" using Suc.hyps(2) piece_in [OF s(1) assms(4)] by linarith+
  then have "\<not> within_spline R (splines ! l) x"
    using s(3) piece_below [OF l(1)] by (simp add: within_spline_def exact_simps [OF assms(1)] not_le)
  then have "find_spline R splines x l = find_spline R splines x (l + 1)"
    using l by (subst find_spline.simps) (simp add: s(2))
  then show ?case using Suc l by simp
qed

lemma predict_linear:
  assumes R: "exact R" and "interp_splines R X Y = Some splines" and "read_ok (X, Y)" and "0 < x" and "x < last X"
  shows "predict R (splines ! piece X x) x = map (linear X Y x) [0..<TOTAL_COLUMNS]"
proof (rule nth_equalityI)
  let ?k = "piece X x"
  note s = interp_splines_nth [OF R assms(2)]
  have k: "?k < length X" using piece_in s(1) assms(5) by blast
  have Y: "length (Y ! l) = TOTAL_COLUMNS" if "l < length X" for l
    using assms(3) that by (simp add: read_ok_def)
  have d: "left_x X ?k < X ! ?k"
    using left_below [OF assms(4)] piece_here [OF k] by (rule less_le_trans)
  have pred: "length (predict R (splines ! ?k) x) = TOTAL_COLUMNS \<and>
      (\<forall>j < TOTAL_COLUMNS. predict R (splines ! ?k) x ! j = linear X Y x j)"
  proof (cases "?k = 0")
    case True
    then have "splines ! ?k = construct_scalar R 0 (X ! 0) 0 (Y ! 0)" "length (Y ! 0) = TOTAL_COLUMNS" "0 < X ! 0"
      using s(5) Y k d by (simp_all add: left_x_def)
    then show ?thesis
      using True by (simp add: predict_def construct_scalar_def linear_def left_x_def left_y_def Let_def nth_darr
          nth_darr_scalar exact_simps [OF R])
  next
    case False
    then have "splines ! ?k = construct R (X ! (?k - 1)) (X ! ?k) (Y ! (?k - 1)) (Y ! ?k)"
        "length (Y ! ?k) = TOTAL_COLUMNS" "length (Y ! (?k - 1)) = TOTAL_COLUMNS" "X ! (?k - 1) < X ! ?k"
      using s(4) [of ?k] Y k d by (simp_all add: left_x_def)
    then show ?thesis
      using False by (simp add: predict_def construct_def linear_def left_x_def left_y_def Let_def nth_darr
          nth_darr_scalar exact_simps [OF R]) (simp add: diff_divide_distrib right_diff_distrib)
  qed
  then show "length (predict R (splines ! ?k) x) = length (map (linear X Y x) [0..<TOTAL_COLUMNS])" by simp
  fix j assume "j < length (predict R (splines ! ?k) x)"
  then show "predict R (splines ! ?k) x ! j = map (linear X Y x) [0..<TOTAL_COLUMNS] ! j" using pred by simp
qed

subsection \<open>The samples\<close>

text \<open>How many multiples of the interval lie before the end.\<close>

lemma samples_before:
  fixes interval :: "'f :: archimedean_field"
  assumes "0 < interval"
  obtains M :: nat where "\<And>m. 0 < m \<Longrightarrow> of_nat m * interval < e \<longleftrightarrow> m \<le> M"
proof -
  obtain n where n: "e < of_nat n * interval" using ex_less_of_nat_mult [OF assms] by blast
  define M where "M = (LEAST m. e \<le> of_nat (Suc m) * interval)"
  have "e \<le> of_nat (Suc n) * interval" using n assms by (simp add: distrib_right)
  then have M: "e \<le> of_nat (Suc M) * interval" unfolding M_def by (rule LeastI)
  have "of_nat m * interval < e \<longleftrightarrow> m \<le> M" if m: "0 < m" for m
  proof
    assume "m \<le> M"
    then have "\<not> e \<le> of_nat (Suc (m - 1)) * interval" unfolding M_def using m by (intro not_less_Least) auto
    then show "of_nat m * interval < e" using m by (simp add: not_le)
  next
    assume less: "of_nat m * interval < e"
    show "m \<le> M"
    proof (rule ccontr)
      assume "\<not> m \<le> M"
      then have "of_nat (Suc M) * interval \<le> of_nat m * interval"
        using assms by (intro mult_right_mono) (simp_all only: of_nat_le_iff not_le Suc_le_eq less_imp_le)
      with M less show False by simp
    qed
  qed
  then show thesis by (rule that)
qed

definition sample_row :: "'f :: linordered_field arith \<Rightarrow> 'f list \<Rightarrow> 'f list list \<Rightarrow> 'f \<Rightarrow> string" where
  "sample_row R X Y x = interp_row R x (map (linear X Y x) [0..<TOTAL_COLUMNS])"

lemma interp_loop_samples:
  fixes R :: "'f :: archimedean_field arith"
  assumes R: "exact R" and splines: "interp_splines R X Y = Some splines" and "read_ok (X, Y)" and "0 < interval"
    and M: "\<And>m. 0 < m \<Longrightarrow> of_nat m * interval < last X \<longleftrightarrow> m \<le> M"
    and "0 < m" and "m \<le> M + 1" and "l \<le> piece X (of_nat m * interval)"
  shows "interp_loop R splines interval (last X) (of_nat m * interval) l out =
    Some (out @ concat (map (\<lambda>m. sample_row R X Y (of_nat m * interval)) [m..<M + 1]))"
  using assms(6-8)
proof (induction "M + 1 - m" arbitrary: m l out)
  case 0
  then have "m = M + 1" by simp
  then show ?case using M [of m] by (simp add: interp_loop.simps exact_simps [OF R])
next
  case (Suc n)
  let ?x = "of_nat m * interval"
  have x: "0 < ?x" "?x < last X" using Suc.hyps(2) Suc.prems(1) assms(4) M [OF Suc.prems(1)] by simp_all
  have next_x: "?x + interval = of_nat (m + 1) * interval" by (simp add: distrib_right)
  have "?x \<le> of_nat (m + 1) * interval" using assms(4) by (simp add: distrib_right)
  then have l: "piece X ?x \<le> piece X (of_nat (m + 1) * interval)" by (rule piece_mono)
  have "interp_loop R splines interval (last X) ?x l out =
      interp_loop R splines interval (last X) (of_nat (m + 1) * interval) (piece X ?x) (out @ sample_row R X Y ?x)"
    using x find_spline_piece [OF R splines x Suc.prems(3)] predict_linear [OF R splines assms(3) x]
    by (subst interp_loop.simps) (simp add: exact_simps [OF R] sample_row_def next_x del: of_nat_add)
  also have "\<dots> = Some ((out @ sample_row R X Y ?x) @
      concat (map (\<lambda>m. sample_row R X Y (of_nat m * interval)) [m + 1..<M + 1]))"
    using Suc.hyps(2) l by (intro Suc.hyps(1)) simp_all
  finally show ?case using Suc.hyps(2) by (simp add: upt_conv_Cons del: upt_Suc)
qed

text \<open>
  C26: in exact arithmetic (where a quotient by 0 is 0), when every line has the columns the configuration needs and the interval is
  positive, the program returns, no spline is missed, and the file has one line for each multiple of the interval
  before the last point: the multiple in millions and the value of the piecewise linear function
  through the origin and the points that were read.
\<close>
theorem interp_resamples:
  fixes R :: "'f :: archimedean_field arith"
  assumes "exact R" and "interp_read R lines ([], []) = Some (X, Y)" and "X \<noteq> []" and "0 < interval"
  shows "\<exists>M. (\<forall>m > 0. of_nat m * interval < last X \<longleftrightarrow> m \<le> M) \<and>
    interp R lines interval = Some (interp_header @ newline @
      concat (map (\<lambda>m. sample_row R X Y (of_nat m * interval)) [1..<M + 1]))"
proof -
  obtain M where M: "\<And>m. 0 < m \<Longrightarrow> of_nat m * interval < last X \<longleftrightarrow> m \<le> M"
    using samples_before [OF assms(4)] by blast
  obtain splines where splines: "interp_splines R X Y = Some splines" using assms(3) by (simp add: interp_splines_def)
  have "read_ok (X, Y)" using interp_read_ok [OF assms(2)] by (simp add: read_ok_def)
  then have "interp R lines interval = Some (interp_header @ newline @
      concat (map (\<lambda>m. sample_row R X Y (of_nat m * interval)) [1..<M + 1]))"
    using interp_loop_samples [OF assms(1) splines _ assms(4) M, of 1 0 "interp_header @ newline"]
    by (simp add: interp_def assms(2) splines)
  then show ?thesis using M by blast
qed

lemma interp_resamples_witness:
  "interp rat_arith [''0 0 0 2 1 0 4 0''] 1 = Some (interp_header @ newline @ ''0 2 1 0'' @ newline)"
proof -
  have read: "interp_read rat_arith [''0 0 0 2 1 0 4 0''] ([], []) = Some ([2], [[4, 2, 0]])"
    by code_simp
  obtain M where M: "\<And>m. 0 < m \<Longrightarrow> of_nat m * 1 < (2 :: rat) \<longleftrightarrow> m \<le> M"
      "interp rat_arith [''0 0 0 2 1 0 4 0''] 1 = Some (interp_header @ newline @
        concat (map (\<lambda>m. sample_row rat_arith [2] [[4, 2, 0]] (of_nat m * 1)) [1..<M + 1]))"
    using interp_resamples [OF exact_rat read, of 1] by auto
  have "M = 1" using M(1) [of 1] M(1) [of 2] by simp
  moreover have "sample_row rat_arith [2] [[4, 2, 0]] 1 = ''0 2 1 0'' @ newline"
    by code_simp
  ultimately show ?thesis using M(2) by simp
qed

end
