(* ===== verification/Synth_Bench.thy ===== *)
theory Synth_Bench
  imports Complex_Main C_Strings
begin

text \<open>
  The synthetic benchmark (\<open>SyntheticBenchmarks/synth_bench.c\<close>): two kernels with the same number of
  inner rounds, one for the CPU, one that walks over an array larger than the caches. The sum of both
  starts uninitialised, so its first value is a parameter; the memory of the array is not initialised
  either. The clock is left out.
\<close>

subsection \<open>The kernels\<close>

text \<open>\<open>i + (k*sqrt_lim)+j\<close> is computed in \<open>unsigned int\<close>.\<close>

definition kernel_cpu_bound :: "64 word \<Rightarrow> 32 word \<Rightarrow> 32 word \<Rightarrow> 64 word" where
  "kernel_cpu_bound sum0 trials sqrt_lim =
     for_up 0 (uint trials) (\<lambda>i sum.
       for_up 0 (uint sqrt_lim) (\<lambda>j sum.
         for_up 0 (uint sqrt_lim) (\<lambda>k sum.
           sum + ucast (of_int i + of_int k * sqrt_lim + of_int j)) sum) sum) sum0"

text \<open>An array of \<open>n\<close> cells; a read outside is \<open>None\<close>.\<close>

definition read_cell :: "(int \<Rightarrow> 32 word) \<Rightarrow> int \<Rightarrow> int \<Rightarrow> 32 word option" where
  "read_cell array n i = (if 0 \<le> i \<and> i < n then Some (array i) else None)"

definition kernel_mem_bound :: "64 word \<Rightarrow> (int \<Rightarrow> 32 word) \<Rightarrow> int \<Rightarrow> 32 word \<Rightarrow> 32 word \<Rightarrow> 64 word option" where
  "kernel_mem_bound sum0 array n trials sqrt_lim =
     for_up 0 (uint trials) (\<lambda>i sum.
       for_up 0 (uint sqrt_lim) (\<lambda>j sum.
         for_up 0 (uint sqrt_lim) (\<lambda>k sum.
           (case sum of
              None \<Rightarrow> None
            | Some t \<Rightarrow> map_option (\<lambda>v. t + scast v)
                (read_cell array n (uint (of_int k * sqrt_lim + of_int j :: 32 word))))) sum) sum) (Some sum0)"

subsection \<open>The program\<close>

definition CACHE_SIZE :: int where "CACHE_SIZE = 1024"
definition CACHE_SIZE_INT :: int where "CACHE_SIZE_INT = CACHE_SIZE * 1024 div 4"
definition CACHES :: int where "CACHES = 8"
definition DEFAULT_TRIALS :: int where "DEFAULT_TRIALS = 100"

text \<open>\<open>(unsigned int)sqrt(sizeof(int) * (CACHE_SIZE_INT * CACHES))\<close>, the side of the array.\<close>

definition sqrt_mem_size :: int where
  "sqrt_mem_size = \<lfloor>sqrt (4 * (of_int CACHE_SIZE_INT * of_int CACHES))\<rfloor>"

lemma sqrt_mem_size: "sqrt_mem_size = 2896"
proof -
  have "sqrt_mem_size = \<lfloor>sqrt 8388608\<rfloor>"
    by (simp add: sqrt_mem_size_def CACHE_SIZE_INT_def CACHES_def CACHE_SIZE_def)
  also have "\<lfloor>sqrt 8388608\<rfloor> = 2896"
  proof (rule floor_unique)
    have "2896 \<le> sqrt 8388608" by (rule real_le_rsqrt) simp
    then show "of_int 2896 \<le> sqrt 8388608" by (simp only: of_int_numeral)
    have "sqrt 8388608 < 2896 + 1" by (rule real_less_lsqrt) simp_all
    then show "sqrt 8388608 < of_int 2896 + 1" by (simp only: of_int_numeral)
  qed
  finally show ?thesis .
qed

text \<open>
  The outcome: a kernel has run (\<open>None\<close>: it read outside the array, or \<open>malloc\<close>, whose result is not
  tested, had failed), or a message, after a name that is neither of the two also with the time.
\<close>

datatype bench = Cpu "64 word" | Mem "64 word option" | Bench_Usage | Bench_Name | Invalid_Trials int

definition bench_main :: "64 word \<Rightarrow> (int \<Rightarrow> 32 word) option \<Rightarrow> string list \<Rightarrow> bench" where
  "bench_main sum0 big_array argv =
     (if length argv < 2 then Bench_Usage
      else
        let trials = (if length argv = 3 then atoi (argv ! 2) else DEFAULT_TRIALS) in
        if length argv = 3 \<and> trials < 1 then Invalid_Trials trials
        else if argv ! 1 = ''cpu'' then Cpu (kernel_cpu_bound sum0 (of_int trials) (of_int sqrt_mem_size))
        else if argv ! 1 = ''mem'' then
          Mem (case big_array of
                 None \<Rightarrow> None
               | Some array \<Rightarrow>
                   kernel_mem_bound sum0 array (sqrt_mem_size * sqrt_mem_size) (of_int trials) (of_int sqrt_mem_size))
        else Bench_Name)"

subsection \<open>What the memory kernel reads\<close>

lemma index_exact:
  fixes lim :: "32 word"
  assumes "0 \<le> j" "j < uint lim" "0 \<le> k" "k < uint lim" "uint lim * uint lim \<le> 2 ^ 32"
  shows "uint (of_int k * lim + of_int j :: 32 word) = k * uint lim + j"
    "0 \<le> k * uint lim + j" "k * uint lim + j < uint lim * uint lim"
proof -
  have "(k + 1) * uint lim \<le> uint lim * uint lim" using assms(3,4) by (intro mult_right_mono) auto
  then show b: "k * uint lim + j < uint lim * uint lim" using assms(2) by (simp add: distrib_right)
  show z: "0 \<le> k * uint lim + j" using assms(1,3) by simp
  have "of_int k * lim + of_int j = (of_int (k * uint lim + j) :: 32 word)" by simp
  then show "uint (of_int k * lim + of_int j :: 32 word) = k * uint lim + j"
    using z b assms(5) by (simp only: uint_word_of_int) (simp add: take_bit_eq_mod mod_pos_pos_trivial)
qed

lemma for_up_some: "for_up a b (\<lambda>i s. case s of None \<Rightarrow> None | Some s \<Rightarrow> Some (s + f i)) (Some (x :: 'b :: comm_monoid_add)) =
    Some (x + (\<Sum>i\<in>{a..<b}. f i))"
proof (induction a b "\<lambda>i s. case s of None \<Rightarrow> None | Some s \<Rightarrow> Some (s + f i)" "Some x" arbitrary: x rule: for_up.induct)
  case (1 i n)
  show ?case
  proof (cases "i < n")
    case True
    then have "{i..<n} = insert i {i + 1..<n}" by auto
    then show ?thesis using 1 [OF True, of "x + f i"] True by (simp add: for_up_step add.assoc)
  qed simp
qed

lemma for_up_count: "for_up a b (\<lambda>_ s. map_option (\<lambda>t. t + c) s) (Some (x :: 'b :: comm_ring_1)) =
    Some (x + of_int (max 0 (b - a)) * c)"
proof -
  have "for_up a b (\<lambda>_ s. map_option (\<lambda>t. t + c) s) (Some x) = Some (x + (\<Sum>i\<in>{a..<b}. c))"
    using for_up_some [of a b "\<lambda>_. c" x] by (simp add: map_option_case)
  then show ?thesis by (simp add: max_def)
qed

text \<open>Columns by rows is every cell once.\<close>

lemma column_order:
  assumes "0 \<le> (L :: int)"
  shows "(\<Sum>j\<in>{0..<L}. \<Sum>k\<in>{0..<L}. f (k * L + j)) = (\<Sum>x\<in>{0..<L * L}. f x)"
proof -
  have "(\<Sum>j\<in>{0..<L}. \<Sum>k\<in>{0..<L}. f (k * L + j)) = (\<Sum>(j, k)\<in>{0..<L} \<times> {0..<L}. f (k * L + j))"
    by (rule sum.cartesian_product)
  also have "\<dots> = (\<Sum>x\<in>{0..<L * L}. f x)"
  proof (rule sum.reindex_bij_witness [where i = "\<lambda>x. (x mod L, x div L)" and j = "\<lambda>(j, k). k * L + j"])
    fix a assume "a \<in> {0..<L} \<times> {0..<L}"
    then obtain j k where a: "a = (j, k)" "0 \<le> j" "j < L" "0 \<le> k" "k < L" by auto
    then have "(k + 1) * L \<le> L * L" by (intro mult_right_mono) auto
    then have "k * L + j < L * L" using a(3) by (simp add: distrib_right)
    then show "(case a of (j, k) \<Rightarrow> k * L + j) \<in> {0..<L * L}" using a by simp
    show "((case a of (j, k) \<Rightarrow> k * L + j) mod L, (case a of (j, k) \<Rightarrow> k * L + j) div L) = a"
      using a by (simp add: add.commute [of "k * L"])
    show "f (case a of (j, k) \<Rightarrow> k * L + j) = (case a of (j, k) \<Rightarrow> f (k * L + j))" by (simp add: a)
  next
    fix x assume x: "x \<in> {0..<L * L}"
    then have "0 < L" using assms by (cases "L = 0") auto
    have "x div L < L"
    proof (rule ccontr)
      assume "\<not> x div L < L"
      then have "L * L \<le> L * (x div L)" using assms by (intro mult_left_mono) auto
      moreover have "L * (x div L) \<le> x" using pos_mod_sign [OF \<open>0 < L\<close>, of x] mult_div_mod_eq [of L x] by linarith
      ultimately show False using x by simp
    qed
    with x \<open>0 < L\<close> show "(x mod L, x div L) \<in> {0..<L} \<times> {0..<L}" by (simp add: pos_imp_zdiv_nonneg_iff)
    show "(case (x mod L, x div L) of (j, k) \<Rightarrow> k * L + j) = x" by simp
  qed
  finally show ?thesis .
qed

lemma mem_column:
  fixes lim :: "32 word"
  assumes "0 \<le> j" "j < uint lim" "uint lim * uint lim \<le> 2 ^ 32" "0 \<le> m" "m \<le> uint lim"
  shows "for_up (uint lim - m) (uint lim) (\<lambda>k sum. (case sum of None \<Rightarrow> None | Some t \<Rightarrow>
      map_option (\<lambda>v. t + scast v) (read_cell array (uint lim * uint lim) (uint (of_int k * lim + of_int j :: 32 word))))) (Some x) =
    Some (x + (\<Sum>k\<in>{uint lim - m..<uint lim}. scast (array (k * uint lim + j))))"
  using assms(4,5)
proof (induction m arbitrary: x rule: int_ge_induct)
  case (step m)
  let ?k = "uint lim - (m + 1)"
  have k: "0 \<le> ?k" "?k < uint lim" using step by auto
  note e = index_exact [OF assms(1,2) k assms(3)]
  have "read_cell array (uint lim * uint lim) (uint (of_int ?k * lim + of_int j :: 32 word)) = Some (array (?k * uint lim + j))"
    unfolding e(1) read_cell_def using e(2,3) by simp
  moreover have "{?k..<uint lim} = insert ?k {uint lim - m..<uint lim}" "?k + 1 = uint lim - m" using step by auto
  ultimately show ?case
    using step.IH step.prems k by (simp only: for_up_step option.case option.map) (simp add: add.assoc)
qed simp

text \<open>
  In every trial the memory kernel reads each cell of the array exactly once, column by column, and
  nothing outside the array, provided that the array has no more cells than an index has values.
\<close>

theorem mem_kernel_sums:
  fixes lim :: "32 word"
  assumes "uint lim * uint lim \<le> 2 ^ 32"
  shows "kernel_mem_bound sum0 array (uint lim * uint lim) trials lim =
    Some (sum0 + of_int (uint trials) * (\<Sum>x\<in>{0..<uint lim * uint lim}. scast (array x)))"
proof -
  let ?col = "\<lambda>j sum. for_up 0 (uint lim) (\<lambda>k sum. (case sum of None \<Rightarrow> None | Some t \<Rightarrow>
      map_option (\<lambda>v. t + scast v) (read_cell array (uint lim * uint lim) (uint (of_int k * lim + of_int j :: 32 word))))) sum"
  let ?s = "\<lambda>j. \<Sum>k\<in>{0..<uint lim}. scast (array (k * uint lim + j)) :: 64 word"
  have none: "for_up a b (\<lambda>k sum. (case sum of None \<Rightarrow> None | Some t \<Rightarrow> g k t)) None = None" for a b and g :: "int \<Rightarrow> 64 word \<Rightarrow> 64 word option"
    by (rule for_up_preserves [where P = "\<lambda>s. s = None"]) auto
  have col: "?col j s = map_option (\<lambda>t. t + ?s j) s" if "0 \<le> j" "j < uint lim" for j and s :: "64 word option"
    using mem_column [OF that assms, of "uint lim" array] by (cases s) (simp_all add: none)
  have rows: "for_up 0 (uint lim) ?col (Some x) = Some (x + (\<Sum>j\<in>{0..<uint lim}. ?s j))" for x :: "64 word"
  proof (rule for_up_inv [where P = "\<lambda>m s. s = Some (x + (\<Sum>j\<in>{0..<m}. ?s j))"])
    fix j s assume j: "0 \<le> j" "j < uint lim" and s: "s = Some (x + (\<Sum>j\<in>{0..<j}. ?s j))"
    have "{0..<j + 1} = insert j {0..<j}" using j(1) by auto
    then show "?col j s = Some (x + (\<Sum>j\<in>{0..<j + 1}. ?s j))"
      unfolding col [OF j] s by (simp add: add.commute add.left_commute)
  qed simp_all
  have trial: "for_up 0 (uint lim) ?col s = map_option (\<lambda>t. t + (\<Sum>x\<in>{0..<uint lim * uint lim}. scast (array x))) s"
    if "s \<noteq> None" for s :: "64 word option"
    using that rows column_order [of "uint lim" "\<lambda>x. scast (array x) :: 64 word"] by (cases s) auto
  have "for_up 0 (uint trials) (\<lambda>i. for_up 0 (uint lim) ?col) (Some sum0) =
      Some (sum0 + of_int (uint trials) * (\<Sum>x\<in>{0..<uint lim * uint lim}. scast (array x)))"
  proof (rule for_up_inv [where P = "\<lambda>m s. s = Some (sum0 + of_int m * (\<Sum>x\<in>{0..<uint lim * uint lim}. scast (array x)))"])
    fix i s assume "s = Some (sum0 + of_int i * (\<Sum>x\<in>{0..<uint lim * uint lim}. scast (array x)))"
    then show "for_up 0 (uint lim) ?col s = Some (sum0 + of_int (i + 1) * (\<Sum>x\<in>{0..<uint lim * uint lim}. scast (array x)))"
      by (simp add: trial algebra_simps)
  qed simp_all
  then show ?thesis by (simp add: kernel_mem_bound_def)
qed

text \<open>The program runs it on an array of the right size.\<close>

lemma bench_mem:
  assumes "1 < length argv" "argv ! 1 = ''mem''" "length argv \<noteq> 3"
  shows "bench_main sum0 (Some array) argv = Mem (Some (sum0 + 100 * (\<Sum>x\<in>{0..<2896 * 2896}. scast (array x))))"
  using assms mem_kernel_sums [of 2896 sum0 array 100]
  by (simp add: bench_main_def sqrt_mem_size DEFAULT_TRIALS_def)

end
