(* ===== verification/Spec2Isabelle.thy ===== *)
theory Spec2Isabelle
  imports Freq_Governor Scheduler_Main Sched_Debug Recommendations Launch Log_Pipeline
    Knapsack_Prototype Smooth Max_Min Interp Synth_Bench
begin

text \<open>
  Seeker is a Linux kernel scheduler extension for CPUs whose frequencies can be set one by one. It
  measures the instructions per cycle of every task, decides which performance state (frequency) the
  task should run on, migrates it to CPUs in that state and changes the states of the CPUs so that
  they match the demand of the tasks. Three kernel modules and a few user-space tools make it up.

  \<^bold>\<open>The cpufreq governor\<close> (\<open>Module/seeker-cpufreq\<close>).
  \<open>Freq_Users\<close> (\<open>user.c\<close>) is the registry of the clients that are told of frequency changes,
  \<open>Cpu_Freq\<close> (\<open>freq.c\<close>) the sorted and pruned frequency tables and the routines that set a
  frequency, \<open>Freq_Governor\<close> (\<open>interface.c\<close>, \<open>main.c\<close>) the governor callbacks and the load and
  unload of the module. Lemmas: registration and deregistration are inverse, every client is told
  once and in order, a table is the sorted permutation of the valid entries, the loop that prunes it
  ends exactly under a stated condition, a stopped governor refuses requests.

  \<^bold>\<open>The PMU module\<close> (\<open>Module/pmu\<close>). \<open>Pmu_Msr\<close> (\<open>msr_pmu.c\<close>, \<open>intr_pmu.c\<close>) holds the programmable
  and \<open>Pmu_Fixed\<close> (\<open>msr_fpmu.c\<close>, \<open>intr_fpmu.c\<close>, \<open>main.c\<close>) the fixed counters, over a store of
  model-specific registers whose fields are words of their widths; \<open>Pmu_Runs\<close> proves the invariant
  that registers and tables agree along every sequence of calls, \<open>Pmu_Props\<close> what clients rely on: a counter
  is handed out once, a fixed counter read after it was cleared gives the events in between.

  \<^bold>\<open>The scheduler module\<close> (\<open>Module/seeker-scheduler\<close>).
  \<open>Seeker_Log\<close> (\<open>log.c\<close>): the log as a heap of linked blocks; it refines a queue, stated by the locale
  \<open>log_queue\<close>. \<open>Cpu_States\<close> (\<open>state.c\<close>): masks, counts and demands of the states. \<open>Nr_Tasks\<close>
  (\<open>nrtasks.c\<close>, \<open>load.c\<close>), \<open>Search_State\<close> (\<open>search_state.c\<close>, locale \<open>state_search\<close>) and \<open>Map_Ipc\<close>
  (\<open>map_ipc.c\<close>): from load and IPC to a state. \<open>Mutate_Common\<close>, \<open>Mutate_Simple\<close> (locale
  \<open>aiming_mutator\<close>), \<open>Mutate_Greedy\<close>, \<open>Mutate_Dyn\<close> and \<open>Mutate_Dyn_Pass\<close>: waking and retiring CPUs and the four
  mutators; \<open>Mutator\<close> states in the locale \<open>mutator\<close> the contract they share, interprets it for each
  and derives that the periodic work keeps the states well formed. \<open>Migrate\<close> (\<open>migrate.c\<close>): the
  pool of migration requests, a bounded multiset by the locale \<open>migration_pool\<close>. \<open>Hw_Counters\<close>
  (\<open>hwcounters.c\<close>, \<open>tsc_intf.c\<close>): the measurements over the PMU model. \<open>Pds\<close> (\<open>pds.c\<close>): the decision
  about a task. \<open>Probe\<close> (\<open>probe.c\<close>): the handlers the kernel calls, with the accounting of events stated by
  the locale \<open>metered\<close>. \<open>Scheduler_Main\<close> (\<open>main.c\<close>, the stubs of \<open>sched_debug.c\<close>): load and unload
  with every error exit. \<open>Sched_Debug\<close> (\<open>sched_debug.h\<close>, \<open>sched_debug.c\<close> with \<open>SCHED_DEBUG\<close>): the buffer
  of the debug channel under callers on several CPUs.

  \<^bold>\<open>User space.\<close> \<open>Recommendations\<close> (\<open>lib/state_recommendations.c\<close> and \<open>sys_seeker\<close> of the kernel patch): a
  program's wishes and what the scheduler makes of them. \<open>Log_Daemon\<close> (\<open>Scripts/seekerlogd.c\<close>): the
  copying of the log device into files, a step relation whose steps are the reads inside \<open>fread\<close>, its
  return, the writes, the stages of a rotation and, between any two of them, the signals; what \<open>fread\<close>
  has taken and \<open>fwrite\<close> has not written is part of the state, and undefined behaviour ends a run. \<open>Decode_Log\<close>
  (\<open>Scripts/decodelog.c\<close>): log entries as text. \<open>Log_Pipeline\<close> composes the log of the kernel module,
  the daemon and the decoder: what was logged is what the decoder prints, up to what the daemon holds
  or has lost between a read and a write and what is still in the log. \<open>Launch\<close> (\<open>utils/launch.c\<close>): the
  application launcher, parent and children, with the range of its \<open>int\<close> values. \<open>Synth_Bench\<close> (\<open>SyntheticBenchmarks/synth_bench.c\<close>): the
  two kernels of the benchmark.

  \<^bold>\<open>Analysis tools.\<close> \<open>Script_Array\<close> (\<open>Scripts/Array.h\<close>): the array template, over \<open>C_Strings\<close>, the
  string routines it uses. \<open>Data_Tools\<close>: the template at \<open>double\<close>, with floating-point arithmetic as a
  parameter; the theorems of the tools are about exact arithmetic. \<open>Smooth\<close> (\<open>smooth.cpp\<close>): a moving
  average is a weighted window. \<open>Max_Min\<close> (\<open>maxmin.cpp\<close>): the envelope of several files. \<open>Interp\<close>
  (\<open>interp.cpp\<close>, \<open>interp.h\<close>, \<open>iconfig.h\<close>, \<open>oper.h\<close>): resampling along linear splines, which returns and
  equals the piecewise linear function. \<open>Knapsack_Prototype\<close> (\<open>mck.c\<close>): the stand-alone knapsack, which
  agrees with that of \<open>mutate_dyn.c\<close> unless it finds a positive value in front of a row.

  \<^bold>\<open>How state and operations correspond.\<close> The static variables of a file are a record that extends the
  record of the files it calls (\<open>usr_st\<close>, \<open>freq_st\<close>, \<open>log_st\<close>, \<open>state_st\<close>, \<open>load_st\<close>, \<open>mut_st\<close>,
  \<open>simple_st\<close>, \<open>gd_st\<close>, \<open>dyn_st\<close>, \<open>mig_st\<close>, \<open>hw_st\<close>, \<open>pds_st\<close>, \<open>probe_st\<close>, \<open>main_st\<close>); an
  operation takes and returns the state, so it applies to every extension of its record.
  What the kernel provides is the record \<open>kenv\<close> of \<open>Prelude\<close>; the concrete \<open>ex_env\<close> shows that
  the hypotheses about it can hold. C arrays are functions from \<open>int\<close>, read outside their size as
  arbitrary memory; pointers to nodes are addresses of a store; a NULL or dangling dereference
  and a failed assertion are \<open>None\<close>; error returns are the C values. Counts of CPUs, states and tasks are
  unbounded integers; hardware values, cycle and instruction counts, masks and saturating counters are
  words of their width. A \<open>for\<close> loop is \<open>for_up\<close>, with a \<open>break\<close> \<open>for_break\<close>, \<open>first_up\<close> or
  \<open>first_down\<close>; all are total, with measures. No fuel is used; the loops that may not end, the
  pruning of a frequency table and the resampling loop of \<open>interp.cpp\<close>, are options, and the conditions
  under which they end are theorems.

  \<^bold>\<open>Configuration.\<close> The patched kernel (\<open>SEEKER_PLUGIN_PATCH\<close> 2), the Core 2 Duo build (\<open>ARCH_C2D\<close>),
  x86-64, without \<open>DEBUG\<close>, and without \<open>SCHED_DEBUG\<close> outside \<open>Sched_Debug\<close>. A probe handler, timer or callback is one step; where the code
  leaves a critical section before it is done (\<open>put_work\<close>), the two halves are separate steps
  too and the interleaving is examined. Within one handler the kernel's run-queue lengths do not change.

  \<^bold>\<open>Not modelled.\<close> Rounding, which depends on the machine: floating-point numbers are a parameter of the
  analysis tools. The power, selection and stream operators and the sharing of blocks between
  copies in \<open>Array.h\<close> (the selection operators cannot be instantiated); files that cannot be opened
  and lines longer than a buffer, on which the tools never return; the sleep time of \<open>seekerlogd.c\<close> and a
  signal in the middle of one of its \<open>stdio\<close> calls; a \<open>delta\<close> above \<open>MAX_DELTA\<close>;
  the clock in \<open>launch.c\<close> and \<open>synth_bench.c\<close>; the test program of the library, Perl scripts and build
  files; of the kernel patch everything but \<open>sys_seeker\<close>; diagnostic messages everywhere; the branches
  for AMD processors; the module parameters' parsing and locking that the handlers' atomicity makes
  redundant.
\<close>

end
